(* ===== verification/Prelude.thy ===== *)
theory Prelude
  imports Main "HOL-Library.AList"
begin

text \<open>
  What every component of the development shares: the model of
  \<^verbatim>\<open>outcome::result\<close> (a sum whose left side is the error), the
  enumerations of error codes of the sources, exceptions and failed assertions as
  error values, unsigned 64-bit arithmetic written out on \<^typ>\<open>nat\<close>, ordered
  maps (\<^verbatim>\<open>std::map\<close>) as association lists sorted by key, and the generic
  list lemmas the component proofs rest on.

  Conventions.  An \<^verbatim>\<open>std::unordered_map\<close> is an association list with
  distinct keys whose order is the (unspecified) iteration order; it is read with
  \<^term>\<open>map_of\<close>, written with \<^term>\<open>AList.update\<close> and
  \<^term>\<open>AList.delete\<close>.  A thrown exception, a failed \<^verbatim>\<open>BOOST_ASSERT\<close>
  (the default preset is a Debug build, in which it aborts), undefined behaviour and
  a loop that does not end are values \<open>Exn e\<close> of the error type, so that a
  theorem that excludes them excludes all of these.
\<close>

named_theorems result_iffs \<open>characterisations of successful and failing results\<close>
named_theorems u64_simps \<open>wrap-around arithmetic inside its range\<close>
named_theorems omap_simps \<open>ordered maps\<close>

subsection \<open>Error codes\<close>

datatype STF_Error =
    INVALID_SLOT
  | STATE_ROOT_DOESNT_MATCH
  | INVALID_PROPOSER
  | PARENT_ROOT_DOESNT_MATCH
  | INVALID_VOTE_SOURCE_SLOT
  | INVALID_VOTE_TARGET_SLOT
  | INVALID_VOTER

datatype ForkChoice_Error =
    CANT_VALIDATE_ATTESTATION_SOURCE_NOT_FOUND
  | CANT_VALIDATE_ATTESTATION_TARGET_NOT_FOUND
  | CANT_VALIDATE_ATTESTATION_HEAD_NOT_FOUND
  | INVALID_ATTESTATION
  | FC_INVALID_PROPOSER
  | STATE_NOT_FOUND
  | SIGNATURE_COUNT_MISMATCH
  | TOO_MANY_ATTESTATIONS
  | NO_KEYPAIR

datatype BlockTreeError =
    NO_PARENT
  | BLOCK_EXISTS
  | TARGET_IS_PAST_MAX
  | BLOCK_ON_DEAD_END
  | EXISTING_BLOCK_NOT_FOUND
  | NON_JUSTIFIED_BLOCK_NOT_FOUND
  | NON_FINALIZED_BLOCK_NOT_FOUND
  | BODY_NOT_FOUND
  | HEADER_NOT_FOUND
  | SOME_BLOCK_IN_CHAIN_NOT_FOUND
  | BLOCK_IS_NOT_LEAF
  | BLOCK_NOT_EXISTS
  | BLOCK_TREE_CORRUPTED
  | WRONG_WORKFLOW

datatype BlockStorageError =
    BS_BLOCK_EXISTS
  | BS_NO_BLOCKS_FOUND
  | BS_HEADER_NOT_FOUND
  | BS_ATTESTATION_NOT_FOUND
  | BS_SIGNATURE_NOT_FOUND
  | BS_BODY_NOT_FOUND
  | BS_INCONSISTENT_DATA
  | BS_GENESIS_BLOCK_ALREADY_EXISTS
  | BS_GENESIS_BLOCK_NOT_FOUND
  | BS_FINALIZED_BLOCK_NOT_FOUND
  | BS_BLOCK_TREE_LEAVES_NOT_FOUND
  | BS_JUSTIFICATION_EMPTY

datatype StorageError =
    ST_OK
  | ST_NOT_SUPPORTED
  | ST_CORRUPTION
  | ST_INVALID_ARGUMENT
  | ST_IO_ERROR
  | ST_NOT_FOUND
  | ST_DB_PATH_NOT_CREATED
  | ST_STORAGE_GONE
  | ST_UNKNOWN

datatype SszError = SszDecodeError

datatype RlpError =
    INVALID_RLP
  | INT_OVERFLOW
  | INVALID_KEY_VALUE
  | KEY_NOT_FOUND

datatype EnrError =
    EXPECTED_SECP256K1_KEYPAIR
  | INVALID_PREFIX
  | INVALID_ID
  | SIGNATURE_VERIFICATION_FAILED

datatype SnappyError =
    UNCOMPRESS_TOO_LONG
  | UNCOMPRESS_INVALID
  | UNCOMPRESS_TRUNCATED
  | UNCOMPRESS_UNKNOWN_IDENTIFIER
  | UNCOMPRESS_UNKNOWN_TYPE
  | UNCOMPRESS_CRC_MISMATCH

text \<open>How a call can end without returning a value or an error code.\<close>

datatype exn =
    BadOptionalAccess \<comment> \<open>\<open>std::optional::value\<close> on \<open>nullopt\<close>\<close>
  | OutOfRange \<comment> \<open>\<open>at\<close> past the end\<close>
  | BadWeakPtr
  | AssertionFailed \<comment> \<open>\<open>BOOST_ASSERT\<close> in a Debug build\<close>
  | DivisionByZero
  | UndefinedBehaviour
  | SystemError \<comment> \<open>\<open>qtils::raise\<close> of an error code\<close>
  | FatalLog \<comment> \<open>\<open>SL_FATAL\<close> ends the process\<close>
  | LogicError \<comment> \<open>\<open>std::logic_error\<close>\<close>
  | RuntimeError \<comment> \<open>\<open>std::runtime_error\<close>\<close>
  | BadVariantAccess \<comment> \<open>\<open>std::get\<close> of another alternative\<close>
  | Diverges \<comment> \<open>the fuel of a loop is used up\<close>

datatype error =
    E_STF STF_Error
  | E_FC ForkChoice_Error
  | E_BT BlockTreeError
  | E_BS BlockStorageError
  | E_ST StorageError
  | E_SSZ SszError
  | E_RLP RlpError
  | E_ENR EnrError
  | E_SNAPPY SnappyError
  | E_EXTERNAL nat \<comment> \<open>an error code of a library the code calls\<close>
  | Exn exn

type_synonym 'a result = "error + 'a"

fun is_exn :: "error \<Rightarrow> bool" where
  "is_exn (Exn _) = True"
| "is_exn _ = False"

subsection \<open>OUTCOME_TRY\<close>

fun OUTCOME_TRY :: "'e + 'a \<Rightarrow> ('a \<Rightarrow> 'e + 'b) \<Rightarrow> 'e + 'b" where
  "OUTCOME_TRY (Inl e) f = Inl e"
| "OUTCOME_TRY (Inr x) f = f x"

lemma OUTCOME_TRY_eq_Inr [result_iffs]:
  "OUTCOME_TRY r f = Inr y \<longleftrightarrow> (\<exists>x. r = Inr x \<and> f x = Inr y)"
  by (cases r) auto

lemma OUTCOME_TRY_eq_Inl [result_iffs]:
  "OUTCOME_TRY r f = Inl e \<longleftrightarrow> r = Inl e \<or> (\<exists>x. r = Inr x \<and> f x = Inl e)"
  by (cases r) auto

lemma OUTCOME_TRY_split:
  "P (OUTCOME_TRY r f) \<longleftrightarrow>
     (\<forall>e. r = Inl e \<longrightarrow> P (Inl e)) \<and> (\<forall>x. r = Inr x \<longrightarrow> P (f x))"
  by (cases r) auto

lemma OUTCOME_TRY_cong [fundef_cong]:
  "r = r' \<Longrightarrow> (\<And>x. r' = Inr x \<Longrightarrow> f x = g x) \<Longrightarrow> OUTCOME_TRY r f = OUTCOME_TRY r' g"
  by (cases r') auto

text \<open>A loop whose body may fail: the first failure ends it.\<close>

fun fold_result :: "('x \<Rightarrow> 's \<Rightarrow> 'e + 's) \<Rightarrow> 'x list \<Rightarrow> 's \<Rightarrow> 'e + 's" where
  "fold_result f [] s = Inr s"
| "fold_result f (x # xs) s = OUTCOME_TRY (f x s) (fold_result f xs)"

lemma fold_result_append:
  "fold_result f (xs @ ys) s = OUTCOME_TRY (fold_result f xs s) (fold_result f ys)"
proof (induction xs arbitrary: s)
  case (Cons x xs)
  then show ?case by (cases "f x s") auto
qed simp

text \<open>An invariant of the body is an invariant of the loop.\<close>

lemma fold_result_invariant:
  assumes "fold_result f xs s = Inr s'" and "I s"
    and "\<And>x s s'. x \<in> set xs \<Longrightarrow> I s \<Longrightarrow> f x s = Inr s' \<Longrightarrow> I s'"
  shows "I s'"
  using assms
proof (induction xs arbitrary: s)
  case (Cons x xs)
  then obtain s1 where s1: "f x s = Inr s1" "fold_result f xs s1 = Inr s'"
    by (auto simp: result_iffs)
  with Cons.prems(2,3) have "I s1" by (meson list.set_intros(1))
  from Cons.IH[OF s1(2) this] Cons.prems(3) show ?case by (meson list.set_intros(2))
qed simp

text \<open>A failing loop fails in one of its iterations, from a state the invariant covers.\<close>

lemma fold_result_failure:
  assumes "fold_result f xs s = Inl e" and "I s"
    and "\<And>x s s'. x \<in> set xs \<Longrightarrow> I s \<Longrightarrow> f x s = Inr s' \<Longrightarrow> I s'"
  shows "\<exists>x s'. x \<in> set xs \<and> I s' \<and> f x s' = Inl e"
  using assms
proof (induction xs arbitrary: s)
  case (Cons x xs)
  show ?case
  proof (cases "f x s")
    case (Inl e')
    with Cons.prems show ?thesis by auto
  next
    case (Inr s1)
    with Cons.prems(1) have fail: "fold_result f xs s1 = Inl e" by simp
    from Cons.prems(3)[OF _ Cons.prems(2) Inr] have "I s1" by simp
    from Cons.IH[OF fail this] Cons.prems(3) show ?thesis
      by (meson list.set_intros(2))
  qed
qed simp

subsection \<open>Unsigned 64-bit arithmetic\<close>

text \<open>
  A \<^verbatim>\<open>uint64_t\<close> is a \<^typ>\<open>nat\<close>.  Sums, differences and products
  are written with these three operations wherever the code could leave the range.
\<close>

definition u64_max :: nat where
  "u64_max = 2 ^ 64 - 1"

definition u64_add :: "nat \<Rightarrow> nat \<Rightarrow> nat" where
  "u64_add a b = (a + b) mod 2 ^ 64"

definition u64_sub :: "nat \<Rightarrow> nat \<Rightarrow> nat" where
  "u64_sub a b = (a + 2 ^ 64 - b) mod 2 ^ 64"

definition u64_mul :: "nat \<Rightarrow> nat \<Rightarrow> nat" where
  "u64_mul a b = (a * b) mod 2 ^ 64"

lemma u64_add_small [u64_simps]: "a + b < 2 ^ 64 \<Longrightarrow> u64_add a b = a + b"
  by (simp add: u64_add_def)

lemma u64_sub_small [u64_simps]:
  assumes "b \<le> a" "a < 2 ^ 64"
  shows "u64_sub a b = a - b"
proof -
  from assms have "a + 2 ^ 64 - b = (a - b) + 2 ^ 64" by simp
  then have "u64_sub a b = ((a - b) + 2 ^ 64) mod 2 ^ 64" by (simp only: u64_sub_def)
  also have "\<dots> = (a - b) mod 2 ^ 64" by (rule mod_add_self2)
  also have "\<dots> = a - b" using assms(2) by (intro mod_less) simp
  finally show ?thesis .
qed

lemma u64_mul_small [u64_simps]: "a * b < 2 ^ 64 \<Longrightarrow> u64_mul a b = a * b"
  by (simp add: u64_mul_def)

lemma u64_bounds: "u64_add a b < 2 ^ 64" "u64_sub a b < 2 ^ 64" "u64_mul a b < 2 ^ 64"
  by (simp_all add: u64_add_def u64_sub_def u64_mul_def)

subsection \<open>Ordered maps\<close>

type_synonym ('k, 'v) umap = "('k \<times> 'v) list"
type_synonym ('k, 'v) omap = "('k \<times> 'v) list"

definition omap_wf :: "('k::linorder, 'v) omap \<Rightarrow> bool" where
  "omap_wf m \<longleftrightarrow> sorted_wrt (<) (map fst m)"

fun omap_put :: "'k::linorder \<Rightarrow> 'v \<Rightarrow> ('k, 'v) omap \<Rightarrow> ('k, 'v) omap" where
  "omap_put k v [] = [(k, v)]"
| "omap_put k v ((k', v') # m) =
     (if k < k' then (k, v) # (k', v') # m
      else if k = k' then (k, v) # m
      else (k', v') # omap_put k v m)"

definition omap_erase :: "'k \<Rightarrow> ('k, 'v) omap \<Rightarrow> ('k, 'v) omap" where
  "omap_erase k m = filter (\<lambda>p. fst p \<noteq> k) m"

lemma omap_wf_Nil [simp]: "omap_wf []"
  by (simp add: omap_wf_def)

lemma omap_wf_Cons [simp]:
  "omap_wf ((k, v) # m) \<longleftrightarrow> omap_wf m \<and> (\<forall>k' \<in> fst ` set m. k < k')"
  by (auto simp: omap_wf_def)

lemma omap_put_keys [omap_simps]: "fst ` set (omap_put k v m) = insert k (fst ` set m)"
  by (induction k v m rule: omap_put.induct) auto

lemma omap_put_wf [omap_simps, intro]: "omap_wf m \<Longrightarrow> omap_wf (omap_put k v m)"
proof (induction k v m rule: omap_put.induct)
  case (2 k v k' v' m)
  then show ?case by (auto simp: omap_put_keys[of k v m, simplified])
qed simp

lemma omap_put_lookup [omap_simps]: "map_of (omap_put k v m) = (map_of m)(k \<mapsto> v)"
proof (induction k v m rule: omap_put.induct)
  case (2 k v k' v' m)
  then show ?case by (auto simp: fun_eq_iff)
qed auto

lemma omap_erase_wf [omap_simps, intro]: "omap_wf m \<Longrightarrow> omap_wf (omap_erase k m)"
  by (induction m) (auto simp: omap_erase_def)

lemma omap_filter_wf [omap_simps, intro]: "omap_wf m \<Longrightarrow> omap_wf (filter P m)"
  by (induction m) auto

lemma omap_erase_lookup [omap_simps]: "map_of (omap_erase k m) = (map_of m)(k := None)"
  by (induction m) (auto simp: omap_erase_def fun_eq_iff)

lemma omap_erase_keys [omap_simps]: "fst ` set (omap_erase k m) = fst ` set m - {k}"
  by (auto simp: omap_erase_def)

lemma omap_wf_distinct [dest]: "omap_wf m \<Longrightarrow> distinct (map fst m)"
  by (simp add: omap_wf_def strict_sorted_iff)

lemma omap_put_values [omap_simps]:
  "snd ` set (omap_put k v m) \<subseteq> insert v (snd ` set m)"
  by (induction k v m rule: omap_put.induct) auto

lemma omap_wf_append:
  "omap_wf (m @ [(k, v)]) \<longleftrightarrow> omap_wf m \<and> (\<forall>k' \<in> fst ` set m. k' < k)"
  by (auto simp: omap_wf_def sorted_wrt_append)

lemma omap_put_last: "\<forall>k' \<in> fst ` set m. k' < k \<Longrightarrow> omap_put k v m = m @ [(k, v)]"
  by (induction k v m rule: omap_put.induct) auto

lemma omap_erase_put [omap_simps]: "omap_erase k (omap_put k x m) = omap_erase k m"
  by (induction k x m rule: omap_put.induct) (auto simp: omap_erase_def)

lemma omap_put_set: "set (omap_put k x m) \<subseteq> insert (k, x) (set m)"
  by (induction k x m rule: omap_put.induct) auto

subsection \<open>Lists\<close>

lemma in_set_drop_nth: "r \<in> set (drop k xs) \<longleftrightarrow> (\<exists>i. k \<le> i \<and> i < length xs \<and> xs ! i = r)"
proof
  assume "r \<in> set (drop k xs)"
  then obtain i where "i < length (drop k xs)" "drop k xs ! i = r" by (auto simp: in_set_conv_nth)
  then show "\<exists>i. k \<le> i \<and> i < length xs \<and> xs ! i = r" by (intro exI[of _ "k + i"]) auto
next
  assume "\<exists>i. k \<le> i \<and> i < length xs \<and> xs ! i = r"
  then obtain i where i: "k \<le> i" "i < length xs" "xs ! i = r" by auto
  then have "drop k xs ! (i - k) = r" "i - k < length (drop k xs)" by auto
  then show "r \<in> set (drop k xs)" by (metis nth_mem)
qed

lemma list_update_True_same: "bits ! i \<Longrightarrow> bits[i := True] = bits"
  by (metis (full_types) list_update_id)

end
