(* ===== verification/ChainTypes.thy ===== *)
theory ChainTypes
  imports Prelude "HOL-Library.Word"
begin

text \<open>
  The containers of \<^verbatim>\<open>src/types\<close>: checkpoints, headers, blocks, states,
  attestations and their signatures as records with the fields of the sources in their
  order, aggregation bits with their three operations, the interval arithmetic of
  \<^verbatim>\<open>slot.hpp\<close> and the proposer rule.

  A \<^verbatim>\<open>ByteArr<32>\<close> hash is the natural number its 32 bytes spell in
  big-endian order, so that the lexicographic order of the bytes is the order of the
  numbers and \<^verbatim>\<open>kZeroHash\<close> is \<open>0\<close>.  Public keys and signatures are byte
  strings the model never looks into.  The SSZ library (hash tree roots, encoding and
  decoding) is outside the sources: its functions are the fields of the parameter
  \<open>ssz\<close>, and what is relied on is a hypothesis where it is used.  The cached hashes of
  \<^verbatim>\<open>BlockHeader\<close> and \<^verbatim>\<open>Block\<close> are recomputed at every
  use.  The capacity limits of \<^verbatim>\<open>ssz::list\<close> are not modelled.
\<close>

subsection \<open>Basic types\<close>

type_synonym slot = nat
type_synonym hash = nat
type_synonym validator_index = nat
type_synonym bytes = "8 word list"
type_synonym public_key = bytes
type_synonym signature = bytes

definition kZeroHash :: hash where
  "kZeroHash = 0"

definition INTERVALS_PER_SLOT :: nat where
  "INTERVALS_PER_SLOT = 5"

definition INTERVAL_DURATION_MS :: nat where
  "INTERVAL_DURATION_MS = 800"

definition SLOT_DURATION_MS :: nat where
  "SLOT_DURATION_MS = INTERVALS_PER_SLOT * INTERVAL_DURATION_MS"

definition JUSTIFICATION_LOOKBACK_SLOTS :: nat where
  "JUSTIFICATION_LOOKBACK_SLOTS = 3"

definition MAX_ATTESTATIONS_DATA :: nat where
  "MAX_ATTESTATIONS_DATA = 16"

subsection \<open>Containers\<close>

record BlockIndex =
  bi_slot :: slot
  bi_hash :: hash

record Checkpoint =
  cp_root :: hash
  cp_slot :: slot

definition toCheckpoint :: "BlockIndex \<Rightarrow> Checkpoint" where
  "toCheckpoint i = \<lparr>cp_root = bi_hash i, cp_slot = bi_slot i\<rparr>"

text \<open>The defaulted three-way comparison of \<^verbatim>\<open>BlockIndex\<close>: slot, then hash.\<close>

definition BlockIndex_less :: "BlockIndex \<Rightarrow> BlockIndex \<Rightarrow> bool" where
  "BlockIndex_less a b \<longleftrightarrow>
     bi_slot a < bi_slot b \<or> bi_slot a = bi_slot b \<and> bi_hash a < bi_hash b"

record AttestationData =
  ad_slot :: slot
  ad_head :: Checkpoint
  ad_target :: Checkpoint
  ad_source :: Checkpoint

record Attestation =
  at_validator_id :: validator_index
  at_data :: AttestationData

record SignedAttestation =
  sa_validator_id :: validator_index
  sa_data :: AttestationData
  sa_signature :: signature

definition SignedAttestation_from :: "Attestation \<Rightarrow> signature \<Rightarrow> SignedAttestation" where
  "SignedAttestation_from attestation sig =
     \<lparr>sa_validator_id = at_validator_id attestation, sa_data = at_data attestation,
      sa_signature = sig\<rparr>"

type_synonym AggregationBits = "bool list"

record AggregatedAttestation =
  aa_bits :: AggregationBits
  aa_data :: AttestationData

record AggregatedSignatureProof =
  pf_participants :: AggregationBits
  pf_data :: bytes

record SignedAggregatedAttestation =
  saa_data :: AttestationData
  saa_proof :: AggregatedSignatureProof

record BlockBody =
  bd_attestations :: "AggregatedAttestation list"

record BlockHeader =
  hdr_slot :: slot
  hdr_proposer_index :: nat
  hdr_parent_root :: hash
  hdr_state_root :: hash
  hdr_body_root :: hash

record Block =
  blk_slot :: slot
  blk_proposer_index :: nat
  blk_parent_root :: hash
  blk_state_root :: hash
  blk_body :: BlockBody

record BlockSignatures =
  bs_attestation_signatures :: "AggregatedSignatureProof list"
  bs_proposer_signature :: signature

record SignedBlock =
  sb_block :: Block
  sb_signature :: BlockSignatures

record BlockData =
  data_hash :: hash
  data_header :: "BlockHeader option"
  data_body :: "BlockBody option"
  data_signature :: "BlockSignatures option"

record Config =
  cfg_genesis_time :: nat

record Validator =
  va_attestation_pubkey :: public_key
  va_proposal_pubkey :: public_key
  va_index :: validator_index

record State =
  st_config :: Config
  st_slot :: slot
  st_latest_block_header :: BlockHeader
  st_latest_justified :: Checkpoint
  st_latest_finalized :: Checkpoint
  st_historical_block_hashes :: "hash list"
  st_justified_slots :: "bool list"
  st_validators :: "Validator list"
  st_justifications_roots :: "hash list"
  st_justifications_validators :: "bool list"

definition validatorCount :: "State \<Rightarrow> nat" where
  "validatorCount st = length (st_validators st)"

subsection \<open>The SSZ library\<close>

record ssz =
  hash_header :: "BlockHeader \<Rightarrow> hash"
  hash_body :: "BlockBody \<Rightarrow> hash"
  hash_state :: "State \<Rightarrow> hash"
  hash_attdata :: "AttestationData \<Rightarrow> hash"
  enc_header :: "BlockHeader \<Rightarrow> bytes"
  dec_header :: "bytes \<Rightarrow> BlockHeader option"
  enc_body :: "BlockBody \<Rightarrow> bytes"
  dec_body :: "bytes \<Rightarrow> BlockBody option"
  enc_signatures :: "BlockSignatures \<Rightarrow> bytes"
  dec_signatures :: "bytes \<Rightarrow> BlockSignatures option"
  enc_state :: "State \<Rightarrow> bytes"
  dec_state :: "bytes \<Rightarrow> State option"
  enc_hashes :: "hash list \<Rightarrow> bytes"
  dec_hashes :: "bytes \<Rightarrow> hash list option"

definition getHeader :: "ssz \<Rightarrow> Block \<Rightarrow> BlockHeader" where
  "getHeader z b =
     \<lparr>hdr_slot = blk_slot b, hdr_proposer_index = blk_proposer_index b,
      hdr_parent_root = blk_parent_root b, hdr_state_root = blk_state_root b,
      hdr_body_root = hash_body z (blk_body b)\<rparr>"

definition Block_hash :: "ssz \<Rightarrow> Block \<Rightarrow> hash" where
  "Block_hash z b = hash_header z (getHeader z b)"

definition Block_index :: "ssz \<Rightarrow> Block \<Rightarrow> BlockIndex" where
  "Block_index z b = \<lparr>bi_slot = blk_slot b, bi_hash = Block_hash z b\<rparr>"

definition BlockHeader_index :: "ssz \<Rightarrow> BlockHeader \<Rightarrow> BlockIndex" where
  "BlockHeader_index z h = \<lparr>bi_slot = hdr_slot h, bi_hash = hash_header z h\<rparr>"

definition Checkpoint_from :: "ssz \<Rightarrow> BlockHeader \<Rightarrow> Checkpoint" where
  "Checkpoint_from z h = \<lparr>cp_root = hash_header z h, cp_slot = hdr_slot h\<rparr>"

subsection \<open>Aggregation bits\<close>

definition AggregationBits_iter :: "AggregationBits \<Rightarrow> validator_index list" where
  "AggregationBits_iter bits = filter (\<lambda>i. bits ! i) [0..<length bits]"

definition AggregationBits_contains :: "AggregationBits \<Rightarrow> validator_index \<Rightarrow> bool" where
  "AggregationBits_contains bits i \<longleftrightarrow> i < length bits \<and> bits ! i"

definition AggregationBits_add :: "AggregationBits \<Rightarrow> validator_index \<Rightarrow> AggregationBits" where
  "AggregationBits_add bits i =
     (let bits' = (if length bits \<le> i then bits @ replicate (i + 1 - length bits) False else bits)
      in bits'[i := True])"

lemma set_AggregationBits_iter [simp]:
  "set (AggregationBits_iter bits) = {i. AggregationBits_contains bits i}"
  by (auto simp: AggregationBits_iter_def AggregationBits_contains_def)

lemma sorted_AggregationBits_iter: "sorted_wrt (<) (AggregationBits_iter bits)"
  unfolding AggregationBits_iter_def by (intro sorted_wrt_filter) simp

lemma distinct_AggregationBits_iter [simp]: "distinct (AggregationBits_iter bits)"
  by (simp add: AggregationBits_iter_def)

lemma AggregationBits_contains_add [simp]:
  "AggregationBits_contains (AggregationBits_add bits i) j
     \<longleftrightarrow> j = i \<or> AggregationBits_contains bits j"
  by (auto simp: AggregationBits_add_def AggregationBits_contains_def Let_def nth_append
      nth_list_update)

lemma AggregationBits_contains_Nil [simp]: "\<not> AggregationBits_contains [] i"
  by (simp add: AggregationBits_contains_def)

subsection \<open>Proposer and subnet\<close>

definition isProposer :: "validator_index \<Rightarrow> slot \<Rightarrow> nat \<Rightarrow> bool result" where
  "isProposer v slot n =
     (if n = 0 then Inl (Exn DivisionByZero) else Inr (slot mod n = v))"

subsection \<open>Intervals\<close>

text \<open>
  \<^verbatim>\<open>Interval\<close> is its one field.  Times are milliseconds since the epoch, as
  natural numbers; products of slots are 64-bit.
\<close>

definition genesisTimeMs :: "Config \<Rightarrow> nat" where
  "genesisTimeMs c = cfg_genesis_time c * 1000"

definition Interval_fromSlot :: "slot \<Rightarrow> nat \<Rightarrow> nat" where
  "Interval_fromSlot slot phase = u64_add (u64_mul slot INTERVALS_PER_SLOT) phase"

definition Interval_fromTime :: "nat \<Rightarrow> Config \<Rightarrow> nat option" where
  "Interval_fromTime time c =
     (if time < genesisTimeMs c then None
      else Some ((time - genesisTimeMs c) div INTERVAL_DURATION_MS))"

definition Interval_slot :: "nat \<Rightarrow> slot" where
  "Interval_slot interval = interval div INTERVALS_PER_SLOT"

definition Interval_phase :: "nat \<Rightarrow> nat" where
  "Interval_phase interval = interval mod INTERVALS_PER_SLOT"

definition Interval_time :: "nat \<Rightarrow> Config \<Rightarrow> nat" where
  "Interval_time interval c = genesisTimeMs c + interval * INTERVAL_DURATION_MS"

lemma Interval_fromTime_time [simp]: "Interval_fromTime (Interval_time i c) c = Some i"
  by (simp add: Interval_fromTime_def Interval_time_def INTERVAL_DURATION_MS_def)

lemma Interval_fromTime_bounds:
  "Interval_fromTime t c = Some i \<longleftrightarrow>
     Interval_time i c \<le> t \<and> t < Interval_time (i + 1) c"
proof
  assume "Interval_fromTime t c = Some i"
  then show "Interval_time i c \<le> t \<and> t < Interval_time (i + 1) c"
    by (auto simp: Interval_fromTime_def Interval_time_def INTERVAL_DURATION_MS_def
        split: if_splits)
next
  assume a: "Interval_time i c \<le> t \<and> t < Interval_time (i + 1) c"
  then have "(t - genesisTimeMs c) div 800 = i"
    by (intro div_nat_eqI) (auto simp: Interval_time_def INTERVAL_DURATION_MS_def)
  with a show "Interval_fromTime t c = Some i"
    by (auto simp: Interval_fromTime_def Interval_time_def INTERVAL_DURATION_MS_def)
qed

lemma Interval_slot_phase: "Interval_slot i * INTERVALS_PER_SLOT + Interval_phase i = i"
  by (simp add: Interval_slot_def Interval_phase_def)

lemma Interval_fromSlot_inverse:
  assumes "phase < INTERVALS_PER_SLOT" "slot * INTERVALS_PER_SLOT + phase < 2 ^ 64"
  shows "Interval_slot (Interval_fromSlot slot phase) = slot"
    and "Interval_phase (Interval_fromSlot slot phase) = phase"
  using assms
  by (simp_all add: Interval_slot_def Interval_phase_def Interval_fromSlot_def u64_simps
      INTERVALS_PER_SLOT_def)

end
