(* ===== verification/JustifiableSlot.thy ===== *)
theory JustifiableSlot
  imports Prelude
begin

text \<open>
  \<^verbatim>\<open>src/blockchain/is_justifiable_slot.hpp\<close>: the slots that may be justified
  lie at a distance of at most five, of a square or of a pronic number from the finalized
  slot.  The code decides this in IEEE double precision (\<^verbatim>\<open>sqrt\<close>,
  \<^verbatim>\<open>fmod\<close>), so the double operations it uses are written out over the
  natural numbers: a conversion rounds to 53 significant bits (ties to even), a square
  root is correctly rounded, a result is a pair \<open>(s, k)\<close> read as \<open>s / 2 ^ k\<close>.
  The equivalence with the integer definition holds for every distance below \<open>2 ^ 50\<close>.
\<close>

subsection \<open>Integer square root and bit length\<close>

fun isqrt :: "nat \<Rightarrow> nat" where
  "isqrt n =
     (if n = 0 then 0
      else let r = 2 * isqrt (n div 4) in if (r + 1) * (r + 1) \<le> n then r + 1 else r)"

declare isqrt.simps [simp del]

fun bit_length :: "nat \<Rightarrow> nat" where
  "bit_length n = (if n = 0 then 0 else Suc (bit_length (n div 2)))"

declare bit_length.simps [simp del]

lemma isqrt_bounds: "isqrt n * isqrt n \<le> n \<and> n < (isqrt n + 1) * (isqrt n + 1)"
proof (induction n rule: isqrt.induct)
  case (1 n)
  show ?case
  proof (cases "n = 0")
    case True
    then show ?thesis by (simp add: isqrt.simps)
  next
    case False
    define q where "q = isqrt (n div 4)"
    from "1.IH" False have IH: "q * q \<le> n div 4" "n div 4 < (q + 1) * (q + 1)"
      by (auto simp: q_def)
    have lo: "2 * q * (2 * q) \<le> n"
    proof -
      have "2 * q * (2 * q) = 4 * (q * q)" by simp
      also have "\<dots> \<le> 4 * (n div 4)" using IH(1) by simp
      also have "\<dots> \<le> n" by simp
      finally show ?thesis .
    qed
    have hi: "n < (2 * q + 2) * (2 * q + 2)"
    proof -
      have "n < 4 * (n div 4) + 4"
        using mod_less_divisor[of 4 n] div_mult_mod_eq[of n 4] by linarith
      also have "\<dots> = 4 * (n div 4 + 1)" by simp
      also have "\<dots> \<le> 4 * ((q + 1) * (q + 1))" using IH(2) by (intro mult_le_mono2) simp
      also have "\<dots> = (2 * q + 2) * (2 * q + 2)" by (simp add: algebra_simps)
      finally show ?thesis .
    qed
    have "isqrt n = (if (2 * q + 1) * (2 * q + 1) \<le> n then 2 * q + 1 else 2 * q)"
      using False by (subst isqrt.simps) (simp add: q_def Let_def)
    with lo hi show ?thesis by (auto simp: algebra_simps)
  qed
qed

lemma isqrt_le: "isqrt n * isqrt n \<le> n"
  and isqrt_less: "n < (isqrt n + 1) * (isqrt n + 1)"
  using isqrt_bounds[of n] by auto

lemma isqrt_square [simp]: "isqrt (x * x) = x"
proof -
  have "\<not> isqrt (x * x) < x"
  proof
    assume "isqrt (x * x) < x"
    then have "(isqrt (x * x) + 1) * (isqrt (x * x) + 1) \<le> x * x"
      by (intro mult_le_mono) auto
    with isqrt_less[of "x * x"] show False by simp
  qed
  moreover have "\<not> x < isqrt (x * x)"
  proof
    assume "x < isqrt (x * x)"
    then have "x * x < isqrt (x * x) * isqrt (x * x)"
      by (intro mult_strict_mono) auto
    with isqrt_le[of "x * x"] show False by simp
  qed
  ultimately show ?thesis by simp
qed

lemma bit_length_bounds: "n < 2 ^ bit_length n \<and> (n \<noteq> 0 \<longrightarrow> 2 ^ (bit_length n - 1) \<le> n)"
proof (induction n rule: bit_length.induct)
  case (1 n)
  show ?case
  proof (cases "n = 0")
    case True
    then show ?thesis by simp
  next
    case False
    have len: "bit_length n = Suc (bit_length (n div 2))"
      using False by (subst bit_length.simps) simp
    from "1.IH" False have IH: "n div 2 < 2 ^ bit_length (n div 2)"
      "n div 2 \<noteq> 0 \<longrightarrow> 2 ^ (bit_length (n div 2) - 1) \<le> n div 2" by auto
    from IH(1) have "n < 2 * 2 ^ bit_length (n div 2)"
      by (metis div_less_iff_less_mult mult.commute zero_less_numeral)
    moreover have "2 ^ bit_length (n div 2) \<le> n"
    proof (cases "n div 2 = 0")
      case True
      with False show ?thesis by (simp add: bit_length.simps)
    next
      case nz: False
      then have pos: "bit_length (n div 2) = Suc (bit_length (n div 2) - 1)"
        by (subst bit_length.simps) (simp add: bit_length.simps[of "n div 2"])
      have "(2::nat) ^ bit_length (n div 2) = 2 * 2 ^ (bit_length (n div 2) - 1)"
        by (subst pos) simp
      also have "\<dots> \<le> 2 * (n div 2)" using IH(2) nz by simp
      also have "\<dots> \<le> n" by simp
      finally show ?thesis .
    qed
    ultimately show ?thesis by (simp add: len)
  qed
qed

lemma bit_length_less: "n < 2 ^ bit_length n"
  using bit_length_bounds by blast

lemma bit_length_le: "n < 2 ^ m \<Longrightarrow> bit_length n \<le> m"
proof (rule ccontr)
  assume n: "n < 2 ^ m" and "\<not> bit_length n \<le> m"
  then have "n \<noteq> 0" and "m \<le> bit_length n - 1"
    by (auto simp: bit_length.simps[of 0] intro!: gr0I)
  then have "(2::nat) ^ m \<le> 2 ^ (bit_length n - 1)" by (simp add: power_increasing)
  also have "\<dots> \<le> n" using bit_length_bounds[of n] \<open>n \<noteq> 0\<close> by blast
  finally show False using n by simp
qed

subsection \<open>The double operations the code uses\<close>

text \<open>Conversion to double: the nearest number of 53 significant bits, ties to even.\<close>

definition round53 :: "nat \<Rightarrow> nat" where
  "round53 n =
     (let l = bit_length n in
      if l \<le> 53 then n
      else let e = l - 53; q = n div 2 ^ e; r = n mod 2 ^ e; half = 2 ^ (e - 1)
           in (if r > half \<or> r = half \<and> odd q then q + 1 else q) * 2 ^ e)"

text \<open>
  The correctly rounded square root of a positive integer below \<open>2 ^ 106\<close>: the scale
  \<open>k\<close> makes the significand a 53-bit number; a tie cannot occur.
\<close>

definition sqrt53 :: "nat \<Rightarrow> nat \<times> nat" where
  "sqrt53 n =
     (let k = 53 - bit_length (isqrt n); m = n * 4 ^ k; r = isqrt m
      in (if m > r * r + r then r + 1 else r, k))"

text \<open>\<open>fmod (sqrt delta) 1 == 0\<close>\<close>

definition sqrt_is_integer :: "nat \<Rightarrow> bool" where
  "sqrt_is_integer delta =
     (case sqrt53 (round53 delta) of (s, k) \<Rightarrow> s mod 2 ^ k = 0)"

text \<open>
  \<open>fmod (sqrt (delta + 0.25)) 1 == 0.5\<close>: the argument is \<open>n / 4\<close> with
  \<open>n = 4 * delta + 1\<close> rounded, so the root is that of \<open>n\<close> with one more binary place.
\<close>

definition sqrt_quarter_is_half :: "nat \<Rightarrow> bool" where
  "sqrt_quarter_is_half delta =
     (case sqrt53 (round53 (4 * round53 delta + 1)) of (s, k) \<Rightarrow> s mod 2 ^ (k + 1) = 2 ^ k)"

definition justifiable_delta :: "nat \<Rightarrow> bool" where
  "justifiable_delta delta \<longleftrightarrow>
     delta \<le> 5 \<or> sqrt_is_integer delta \<or> sqrt_quarter_is_half delta"

definition isJustifiableSlot :: "nat \<Rightarrow> nat \<Rightarrow> bool result" where
  "isJustifiableSlot finalized_slot candidate =
     (if candidate < finalized_slot then Inl (Exn AssertionFailed)
      else Inr (justifiable_delta (candidate - finalized_slot)))"

subsection \<open>The integer rule\<close>

definition justifiable_spec :: "nat \<Rightarrow> bool" where
  "justifiable_spec delta \<longleftrightarrow>
     delta \<le> 5 \<or> (\<exists>x. delta = x * x) \<or> (\<exists>x. delta = x * x + x)"

lemma round53_exact: "n < 2 ^ 53 \<Longrightarrow> round53 n = n"
  using bit_length_le[of n 53] by (simp add: round53_def Let_def)

text \<open>
  The heart of the equivalence: for an argument below \<open>2 ^ 52\<close> the scale exceeds the
  size of the root, so a significand that is an integer multiple of the scale comes from
  a perfect square.
\<close>

lemma sqrt53_scale:
  assumes "n < 2 ^ 52" "sqrt53 n = (s, k)"
  shows "27 \<le> k" "s \<le> 2 ^ 53"
proof -
  have "isqrt n < 2 ^ 26"
  proof (rule ccontr)
    assume "\<not> isqrt n < 2 ^ 26"
    then have "(2::nat) ^ 26 * 2 ^ 26 \<le> isqrt n * isqrt n" by (intro mult_le_mono) auto
    with isqrt_le[of n] assms(1) show False by simp
  qed
  then have "bit_length (isqrt n) \<le> 26" by (rule bit_length_le)
  with assms(2) show "27 \<le> k" by (auto simp: sqrt53_def Let_def)
  define b where "b = bit_length (isqrt n)"
  have k: "k = 53 - b" and b: "b \<le> 26"
    using assms(2) \<open>bit_length (isqrt n) \<le> 26\<close> by (auto simp: sqrt53_def Let_def b_def)
  have "isqrt n + 1 \<le> 2 ^ b" using bit_length_less[of "isqrt n"] by (simp add: b_def)
  then have "(isqrt n + 1) * (isqrt n + 1) \<le> 2 ^ b * 2 ^ b" by (intro mult_le_mono) auto
  moreover have "(2::nat) ^ b * 2 ^ b = 4 ^ b" by (simp add: power_mult_distrib[symmetric])
  ultimately have "n < 4 ^ b" using isqrt_less[of n] by linarith
  then have "n * 4 ^ k < 4 ^ b * 4 ^ k" by simp
  also have "\<dots> = (2 ^ 53 * 2 ^ 53 :: nat)"
    using k b by (simp add: power_add[symmetric])
  finally have m: "n * 4 ^ k < 2 ^ 53 * 2 ^ 53" .
  have "isqrt (n * 4 ^ k) < 2 ^ 53"
  proof (rule ccontr)
    assume "\<not> isqrt (n * 4 ^ k) < 2 ^ 53"
    then have "(2::nat) ^ 53 * 2 ^ 53 \<le> isqrt (n * 4 ^ k) * isqrt (n * 4 ^ k)"
      by (intro mult_le_mono) auto
    with isqrt_le[of "n * 4 ^ k"] m show False by simp
  qed
  with assms(2) show "s \<le> 2 ^ 53" by (auto simp: sqrt53_def Let_def split: if_splits)
qed

lemma sqrt53_integral:
  assumes n: "n < 2 ^ 52" and sq: "sqrt53 n = (s, k)" and s: "s = t * 2 ^ k"
  shows "n = t * t"
proof -
  define K :: nat where "K = 2 ^ k"
  define r where "r = isqrt (n * 4 ^ k)"
  have K4: "(4::nat) ^ k = K * K" by (simp add: K_def power_mult_distrib[symmetric])
  have "(2::nat) ^ 27 \<le> K"
    unfolding K_def using sqrt53_scale(1)[OF n sq] by (intro power_increasing) auto
  moreover have "t * K \<le> 2 ^ 53" using sqrt53_scale(2)[OF n sq] s by (simp add: K_def)
  ultimately have tK: "t < K"
    using mult_le_mono[of "2 ^ 27" t "2 ^ 27" K] by (cases "t < K") auto
  have r: "r * r \<le> n * (K * K)" "n * (K * K) < (r + 1) * (r + 1)"
    using isqrt_bounds[of "n * 4 ^ k"] by (simp_all add: r_def K4)
  have s_cases: "s = (if n * (K * K) > r * r + r then r + 1 else r)"
    unfolding K4[symmetric] r_def using sq by (auto simp: sqrt53_def Let_def)
  show ?thesis
  proof (cases "n * (K * K) > r * r + r")
    case False
    with s s_cases have rt: "r = t * K" by (simp add: K_def)
    with r(1) have "t * t * (K * K) \<le> n * (K * K)" by (simp add: algebra_simps)
    then have ge: "t * t \<le> n" using tK by simp
    have "\<not> t * t + 1 \<le> n"
    proof
      assume "t * t + 1 \<le> n"
      then have "(t * t + 1) * (K * K) \<le> n * (K * K)" by (rule mult_le_mono1)
      also have "\<dots> \<le> t * t * (K * K) + t * K"
        using False by (simp add: rt algebra_simps)
      finally have "K * K \<le> t * K" by (simp add: algebra_simps)
      with tK show False by simp
    qed
    with ge show ?thesis by simp
  next
    case True
    with s s_cases have rt: "r + 1 = t * K" by (simp add: K_def)
    then have sq_rt: "(r + 1) * (r + 1) = t * t * (K * K)"
      by (simp only: mult.assoc mult.left_commute mult.commute)
    with r(2) have "n * (K * K) < t * t * (K * K)" by simp
    then have "n + 1 \<le> t * t" using tK by simp
    then have "(n + 1) * (K * K) \<le> t * t * (K * K)" by (rule mult_le_mono1)
    also have "\<dots> = (r + 1) * (r + 1)" by (simp only: sq_rt)
    also have "\<dots> < n * (K * K) + (r + 1)" using True by (simp add: algebra_simps)
    finally have "K * K < t * K" using rt by (simp add: algebra_simps)
    with tK show ?thesis by simp
  qed
qed

lemma sqrt53_square:
  assumes "sqrt53 (t * t) = (s, k)"
  shows "s = t * 2 ^ k"
proof -
  have m: "t * t * 4 ^ k = (t * 2 ^ k) * (t * 2 ^ k)"
    by (simp add: power_mult_distrib[symmetric] algebra_simps)
  from assms have "s = (let m = t * t * 4 ^ k; r = isqrt m in if m > r * r + r then r + 1 else r)"
    by (auto simp: sqrt53_def Let_def)
  then show ?thesis by (simp add: m Let_def)
qed

lemma sqrt_is_integer_iff:
  assumes "d < 2 ^ 50"
  shows "sqrt_is_integer d \<longleftrightarrow> (\<exists>x. d = x * x)"
proof -
  obtain s k where sk: "sqrt53 d = (s, k)" by fastforce
  have "sqrt_is_integer d \<longleftrightarrow> s mod 2 ^ k = 0"
    using assms sk by (simp add: sqrt_is_integer_def round53_exact)
  also have "\<dots> \<longleftrightarrow> (\<exists>x. d = x * x)"
  proof
    assume "s mod 2 ^ k = 0"
    then obtain t where "s = t * 2 ^ k" by (auto simp: mod_eq_0_iff_dvd dvd_def mult.commute)
    then show "\<exists>x. d = x * x" using sqrt53_integral[OF _ sk] assms by auto
  next
    assume "\<exists>x. d = x * x"
    then show "s mod 2 ^ k = 0" using sk by (auto dest: sqrt53_square)
  qed
  finally show ?thesis .
qed

lemma odd_square_pronic: "(\<exists>y. odd y \<and> 4 * d + 1 = y * y) \<longleftrightarrow> (\<exists>x. d = x * x + (x::nat))"
proof
  assume "\<exists>y. odd y \<and> 4 * d + 1 = y * y"
  then obtain x where "4 * d + 1 = (2 * x + 1) * (2 * x + 1)" by (auto elim!: oddE)
  then have "d = x * x + x" by (simp add: algebra_simps)
  then show "\<exists>x. d = x * x + x" ..
next
  assume "\<exists>x. d = x * x + x"
  then obtain x where "d = x * x + x" ..
  then have "odd (2 * x + 1) \<and> 4 * d + 1 = (2 * x + 1) * (2 * x + 1)"
    by (simp add: algebra_simps)
  then show "\<exists>y. odd y \<and> 4 * d + 1 = y * y" by blast
qed

lemma mod_double_half_iff: "s mod 2 ^ (k + 1) = 2 ^ k \<longleftrightarrow> (\<exists>t. odd t \<and> s = t * (2::nat) ^ k)"
proof
  assume a: "s mod 2 ^ (k + 1) = 2 ^ k"
  have "s = s div 2 ^ (k + 1) * 2 ^ (k + 1) + 2 ^ k"
    using div_mult_mod_eq[of s "2 ^ (k + 1)"] a by simp
  also have "\<dots> = (2 * (s div 2 ^ (k + 1)) + 1) * 2 ^ k" by (simp add: algebra_simps)
  finally show "\<exists>t. odd t \<and> s = t * 2 ^ k"
    by (intro exI[of _ "2 * (s div 2 ^ (k + 1)) + 1"]) simp
next
  assume "\<exists>t. odd t \<and> s = t * 2 ^ k"
  then obtain x where "s = (2 * x + 1) * 2 ^ k" by (auto elim!: oddE)
  then have "s = 2 ^ k + x * 2 ^ (k + 1)" by (simp add: algebra_simps)
  then show "s mod 2 ^ (k + 1) = 2 ^ k" by simp
qed

lemma sqrt_quarter_is_half_iff:
  assumes "d < 2 ^ 50"
  shows "sqrt_quarter_is_half d \<longleftrightarrow> (\<exists>x. d = x * x + x)"
proof -
  obtain s k where sk: "sqrt53 (4 * d + 1) = (s, k)" by fastforce
  have n: "4 * d + 1 < 2 ^ 52" using assms by simp
  have "sqrt_quarter_is_half d \<longleftrightarrow> (\<exists>t. odd t \<and> s = t * 2 ^ k)"
    using n sk by (simp add: sqrt_quarter_is_half_def round53_exact mod_double_half_iff[simplified])
  also have "\<dots> \<longleftrightarrow> (\<exists>y. odd y \<and> 4 * d + 1 = y * y)"
  proof
    assume "\<exists>t. odd t \<and> s = t * 2 ^ k"
    then show "\<exists>y. odd y \<and> 4 * d + 1 = y * y" using sqrt53_integral[OF n sk] by blast
  next
    assume "\<exists>y. odd y \<and> 4 * d + 1 = y * y"
    then show "\<exists>t. odd t \<and> s = t * 2 ^ k" using sk by (metis sqrt53_square)
  qed
  finally show ?thesis by (simp only: odd_square_pronic)
qed

lemma justifiable_delta_spec: "d < 2 ^ 50 \<Longrightarrow> justifiable_delta d = justifiable_spec d"
  by (simp add: justifiable_delta_def justifiable_spec_def sqrt_is_integer_iff
      sqrt_quarter_is_half_iff)

lemma isJustifiableSlot_self [simp]: "isJustifiableSlot f f = Inr True"
  by (simp add: isJustifiableSlot_def justifiable_delta_def)

lemma isJustifiableSlot_ge: "f \<le> c \<Longrightarrow> isJustifiableSlot f c = Inr (justifiable_delta (c - f))"
  by (simp add: isJustifiableSlot_def)

subsection \<open>Properties\<close>

text \<open>
  C10.  For every candidate less than \<open>2 ^ 50\<close> slots after the finalized slot, the double
  precision test decides exactly whether the distance is at most five, a square or a
  product of two consecutive numbers; for a candidate before the finalized slot the
  assertion fails.
\<close>

theorem isJustifiableSlot_correct:
  "isJustifiableSlot f c =
     (if c < f then Inl (Exn AssertionFailed)
      else if c - f < 2 ^ 50 then Inr (c - f \<le> 5 \<or> (\<exists>x. c - f = x * x) \<or> (\<exists>x. c - f = x * (x + 1)))
      else Inr (justifiable_delta (c - f)))"
  using justifiable_delta_spec[of "c - f"]
  by (simp add: isJustifiableSlot_def justifiable_spec_def algebra_simps)

end
