(* ===== verification/StateTransition.thy ===== *)
theory StateTransition
  imports ChainTypes JustifiableSlot
begin

text \<open>
  \<^verbatim>\<open>src/blockchain/state_transition_function.cpp\<close>: slot processing, block
  header processing and the 3SF-mini vote counting that justifies and finalizes
  checkpoints.  Every function of the file is a definition here, in the order of the
  file; a state taken by reference is an argument and a result.  The metrics the code
  updates on the way (and the reads of the block tree that only feed metrics) are left
  out.

  The lemmas show that the transition keeps the well-formedness of states, that its only
  exceptional ending is the assertion of \<open>isJustifiableSlot\<close>, and what justification and
  finalization require.
\<close>

subsection \<open>The window of justified slots\<close>

definition justifiedIndexAfter :: "slot \<Rightarrow> slot \<Rightarrow> nat option" where
  "justifiedIndexAfter finalized_slot slot =
     (if slot \<le> finalized_slot then None else Some (slot - finalized_slot - 1))"

definition extendToSlot :: "bool list \<Rightarrow> slot \<Rightarrow> slot \<Rightarrow> bool list" where
  "extendToSlot bits finalized_slot target_slot =
     (case justifiedIndexAfter finalized_slot target_slot of
        None \<Rightarrow> bits
      | Some index \<Rightarrow>
          let size = index + 1 in
          if size \<le> length bits then bits else bits @ replicate (size - length bits) False)"

definition isSlotJustified :: "bool list \<Rightarrow> slot \<Rightarrow> slot \<Rightarrow> bool option" where
  "isSlotJustified bits finalized_slot target_slot =
     (case justifiedIndexAfter finalized_slot target_slot of
        None \<Rightarrow> Some True
      | Some index \<Rightarrow> if index \<ge> length bits then None else Some (bits ! index))"

definition withJustified :: "bool list \<Rightarrow> slot \<Rightarrow> slot \<Rightarrow> bool list result" where
  "withJustified bits finalized_slot target_slot =
     (case justifiedIndexAfter finalized_slot target_slot of
        None \<Rightarrow> Inr bits
      | Some index \<Rightarrow>
          if index < length bits then Inr (bits[index := True]) else Inl (Exn OutOfRange))"

definition shiftWindow :: "bool list \<Rightarrow> nat \<Rightarrow> bool list" where
  "shiftWindow bits delta = drop (min (length bits) delta) bits"

subsection \<open>Justifications\<close>

type_synonym Justifications = "(hash, bool list) omap"

definition setJustifications :: "State \<Rightarrow> Justifications \<Rightarrow> State result" where
  "setJustifications st justifications =
     (if \<forall>p \<in> set justifications. length (snd p) = validatorCount st
      then Inr (st\<lparr>st_justifications_roots := map fst justifications,
                   st_justifications_validators := concat (map snd justifications)\<rparr>)
      else Inl (Exn AssertionFailed))"

text \<open>The segments of the flat vote list, one per root (the loop with \<open>offset\<close>).\<close>

fun load_segments :: "nat \<Rightarrow> bool list \<Rightarrow> hash list \<Rightarrow> nat \<Rightarrow> Justifications \<Rightarrow> Justifications" where
  "load_segments n flat [] offset justifications = justifications"
| "load_segments n flat (root # roots) offset justifications =
     (let next_offset = offset + n;
          bits = take (next_offset - offset) (drop offset flat)
      in load_segments n flat roots next_offset (omap_put root bits justifications))"

definition loadJustifications :: "State \<Rightarrow> Justifications result" where
  "loadJustifications st =
     (if length (st_justifications_roots st) > 0
      then if length (st_justifications_validators st)
                = length (st_justifications_roots st) * validatorCount st
           then Inr (load_segments (validatorCount st) (st_justifications_validators st)
                       (st_justifications_roots st) 0 [])
           else Inl (Exn AssertionFailed)
      else Inr [])"

subsection \<open>Genesis\<close>

definition generateGenesisState :: "ssz \<Rightarrow> Config \<Rightarrow> Validator list \<Rightarrow> State" where
  "generateGenesisState z config validators =
     \<lparr>st_config = config, st_slot = 0,
      st_latest_block_header =
        \<lparr>hdr_slot = 0, hdr_proposer_index = 0, hdr_parent_root = kZeroHash,
         hdr_state_root = kZeroHash, hdr_body_root = hash_body z \<lparr>bd_attestations = []\<rparr>\<rparr>,
      st_latest_justified = \<lparr>cp_root = kZeroHash, cp_slot = 0\<rparr>,
      st_latest_finalized = \<lparr>cp_root = kZeroHash, cp_slot = 0\<rparr>,
      st_historical_block_hashes = [], st_justified_slots = [], st_validators = validators,
      st_justifications_roots = [], st_justifications_validators = []\<rparr>"

definition genesisBlock :: "ssz \<Rightarrow> State \<Rightarrow> Block" where
  "genesisBlock z st =
     \<lparr>blk_slot = st_slot st, blk_proposer_index = 0, blk_parent_root = kZeroHash,
      blk_state_root = hash_state z st, blk_body = \<lparr>bd_attestations = []\<rparr>\<rparr>"

subsection \<open>Slots\<close>

definition processSlot :: "ssz \<Rightarrow> State \<Rightarrow> State" where
  "processSlot z st =
     (let st1 = (if hdr_state_root (st_latest_block_header st) = kZeroHash
                 then st\<lparr>st_latest_block_header :=
                           (st_latest_block_header st)\<lparr>hdr_state_root := hash_state z st\<rparr>\<rparr>
                 else st)
      in st1\<lparr>st_slot := st_slot st1 + 1\<rparr>)"

lemma st_slot_processSlot [simp]: "st_slot (processSlot z st) = st_slot st + 1"
  by (simp add: processSlot_def Let_def)

function processSlots_loop :: "ssz \<Rightarrow> slot \<Rightarrow> State \<Rightarrow> State" where
  "processSlots_loop z slot st =
     (if st_slot st < slot then processSlots_loop z slot (processSlot z st) else st)"
  by pat_completeness auto
termination
  by (relation "measure (\<lambda>(z, slot, st). slot - st_slot st)") auto

declare processSlots_loop.simps [simp del]

definition processSlots :: "ssz \<Rightarrow> State \<Rightarrow> slot \<Rightarrow> State result" where
  "processSlots z st slot =
     (if st_slot st \<ge> slot then Inl (E_STF INVALID_SLOT)
      else Inr (processSlots_loop z slot st))"

subsection \<open>Block header\<close>

definition validateProposerIndex :: "State \<Rightarrow> Block \<Rightarrow> bool result" where
  "validateProposerIndex st block =
     (if validatorCount st = 0 then Inl (Exn DivisionByZero)
      else Inr (blk_proposer_index block = blk_slot block mod validatorCount st))"

definition processBlockHeader :: "ssz \<Rightarrow> State \<Rightarrow> Block \<Rightarrow> State result" where
  "processBlockHeader z st block =
     (let parent_header = st_latest_block_header st;
          parent_root = hash_header z parent_header
      in if blk_slot block \<noteq> st_slot st then Inl (E_STF INVALID_SLOT)
         else if blk_slot block \<le> hdr_slot parent_header then Inl (E_STF INVALID_SLOT)
         else OUTCOME_TRY (validateProposerIndex st block) (\<lambda>valid_proposer.
           if \<not> valid_proposer then Inl (E_STF INVALID_PROPOSER)
           else if blk_parent_root block \<noteq> parent_root then Inl (E_STF PARENT_ROOT_DOESNT_MATCH)
           else
             let is_genesis_parent = (hdr_slot parent_header = 0);
                 st1 = (if is_genesis_parent
                        then st\<lparr>st_latest_justified :=
                                  (st_latest_justified st)\<lparr>cp_root := parent_root\<rparr>,
                                st_latest_finalized :=
                                  (st_latest_finalized st)\<lparr>cp_root := parent_root\<rparr>\<rparr>
                        else st);
                 num_empty_slots = blk_slot block - hdr_slot parent_header - 1;
                 hashes = st_historical_block_hashes st1 @ [parent_root]
                            @ replicate num_empty_slots kZeroHash;
                 last_materialized_slot = blk_slot block - 1
             in Inr (st1\<lparr>st_historical_block_hashes := hashes,
                        st_justified_slots :=
                          extendToSlot (st_justified_slots st1)
                            (cp_slot (st_latest_finalized st1)) last_materialized_slot,
                        st_latest_block_header :=
                          (getHeader z block)\<lparr>hdr_state_root := kZeroHash\<rparr>\<rparr>)))"

subsection \<open>Attestations\<close>

text \<open>What the loop over the attestations changes; the state itself is updated after it.\<close>

record votes =
  v_justifications :: Justifications
  v_latest_justified :: Checkpoint
  v_latest_finalized :: Checkpoint
  v_justified_slots :: "bool list"

definition build_root_to_slot :: "State \<Rightarrow> (hash, slot) umap" where
  "build_root_to_slot st =
     fold (\<lambda>slot m. AList.update (st_historical_block_hashes st ! slot) slot m)
       [u64_add (cp_slot (st_latest_finalized st)) 1..<length (st_historical_block_hashes st)] []"

definition value_or_throw :: "'a option \<Rightarrow> 'a result" where
  "value_or_throw o' = (case o' of None \<Rightarrow> Inl (Exn BadOptionalAccess) | Some x \<Rightarrow> Inr x)"

definition map_at :: "('k, 'v) umap \<Rightarrow> 'k \<Rightarrow> 'v result" where
  "map_at m k = (case map_of m k of None \<Rightarrow> Inl (Exn OutOfRange) | Some v \<Rightarrow> Inr v)"

definition mark_vote :: "validator_index \<Rightarrow> bool list \<Rightarrow> bool list result" where
  "mark_vote validator_id bits =
     (if validator_id \<ge> length bits then Inl (E_STF INVALID_VOTER)
      else Inr (if \<not> bits ! validator_id then bits[validator_id := True] else bits))"

text \<open>The loop that looks for a justifiable slot strictly between source and target.\<close>

function any_justifiable :: "slot \<Rightarrow> slot \<Rightarrow> slot \<Rightarrow> bool result" where
  "any_justifiable finalized_slot slot target_slot =
     (if slot < target_slot
      then OUTCOME_TRY (isJustifiableSlot finalized_slot slot) (\<lambda>j.
             if j then Inr True else any_justifiable finalized_slot (slot + 1) target_slot)
      else Inr False)"
  by pat_completeness auto
termination
  by (relation "measure (\<lambda>(f, s, t). t - s)") auto

declare any_justifiable.simps [simp del]

text \<open>\<^verbatim>\<open>retain_if\<close> with a predicate that may throw.\<close>

fun retain_after :: "(hash, slot) umap \<Rightarrow> slot \<Rightarrow> Justifications \<Rightarrow> Justifications result" where
  "retain_after root_to_slot finalized_slot [] = Inr []"
| "retain_after root_to_slot finalized_slot (p # ps) =
     OUTCOME_TRY (map_at root_to_slot (fst p)) (\<lambda>slot.
       OUTCOME_TRY (retain_after root_to_slot finalized_slot ps) (\<lambda>rest.
         Inr (if slot > finalized_slot then p # rest else rest)))"

text \<open>The finalization step taken when no justifiable slot lies between the two.\<close>

definition finalize_source ::
  "(hash, slot) umap \<Rightarrow> Checkpoint \<Rightarrow> votes \<Rightarrow> votes result" where
  "finalize_source root_to_slot source v =
     (let old_finalized_slot = cp_slot (v_latest_finalized v);
          v1 = v\<lparr>v_latest_finalized := source\<rparr>;
          delta = u64_sub (cp_slot source) old_finalized_slot
      in if delta > 0
         then OUTCOME_TRY (retain_after root_to_slot (cp_slot source) (v_justifications v1))
                (\<lambda>js. Inr (v1\<lparr>v_justified_slots := shiftWindow (v_justified_slots v1) delta,
                                v_justifications := js\<rparr>))
         else Inr v1)"

text \<open>The step taken when two thirds of the validators attested to the target.\<close>

definition justify_target ::
  "(hash, slot) umap \<Rightarrow> Checkpoint \<Rightarrow> Checkpoint \<Rightarrow> votes \<Rightarrow> votes result" where
  "justify_target root_to_slot source target v =
     OUTCOME_TRY (withJustified (v_justified_slots v) (cp_slot (v_latest_finalized v))
                    (cp_slot target)) (\<lambda>slots.
       let v1 = v\<lparr>v_latest_justified := target, v_justified_slots := slots,
                  v_justifications := omap_erase (cp_root target) (v_justifications v)\<rparr>
       in OUTCOME_TRY (any_justifiable (cp_slot (v_latest_finalized v1)) (cp_slot source + 1)
                         (cp_slot target)) (\<lambda>any.
            if \<not> any then finalize_source root_to_slot source v1 else Inr v1))"

text \<open>The guards of the loop: \<open>Inr False\<close> is \<^verbatim>\<open>continue\<close>.\<close>

definition check_attestation :: "State \<Rightarrow> votes \<Rightarrow> AttestationData \<Rightarrow> bool result" where
  "check_attestation st v ad =
     (let source = ad_source ad;
          target = ad_target ad;
          hashes = st_historical_block_hashes st;
          finalized_slot = cp_slot (v_latest_finalized v)
      in if cp_slot source \<ge> length hashes then Inl (E_STF INVALID_VOTE_SOURCE_SLOT)
         else if cp_slot target \<ge> length hashes then Inl (E_STF INVALID_VOTE_TARGET_SLOT)
         else OUTCOME_TRY (value_or_throw
                  (isSlotJustified (v_justified_slots v) finalized_slot (cp_slot source)))
           (\<lambda>source_justified. if \<not> source_justified then Inr False
         else OUTCOME_TRY (value_or_throw
                  (isSlotJustified (v_justified_slots v) finalized_slot (cp_slot target)))
           (\<lambda>target_justified. if target_justified then Inr False
         else if cp_root source = kZeroHash \<or> cp_root target = kZeroHash then Inr False
         else if cp_root source \<noteq> hashes ! cp_slot source then Inr False
         else if cp_root target \<noteq> hashes ! cp_slot target then Inr False
         else if cp_slot target \<le> cp_slot source then Inr False
         else isJustifiableSlot finalized_slot (cp_slot target))))"

definition processAttestation ::
  "State \<Rightarrow> (hash, slot) umap \<Rightarrow> AggregatedAttestation \<Rightarrow> votes \<Rightarrow> votes result" where
  "processAttestation st root_to_slot attestation v =
     OUTCOME_TRY (check_attestation st v (aa_data attestation)) (\<lambda>accepted.
       if \<not> accepted then Inr v
       else
         let source = ad_source (aa_data attestation);
             target = ad_target (aa_data attestation);
             bits0 = (case map_of (v_justifications v) (cp_root target) of
                        None \<Rightarrow> replicate (validatorCount st) False
                      | Some bits \<Rightarrow> bits)
         in OUTCOME_TRY (fold_result mark_vote
                           (AggregationBits_iter (aa_bits attestation)) bits0) (\<lambda>bits.
              let v1 = v\<lparr>v_justifications := omap_put (cp_root target) bits (v_justifications v)\<rparr>;
                  count = length (filter id bits)
              in if 3 * count \<ge> 2 * validatorCount st
                 then justify_target root_to_slot source target v1
                 else Inr v1))"

definition processAttestations ::
  "State \<Rightarrow> AggregatedAttestation list \<Rightarrow> State result" where
  "processAttestations st attestations =
     OUTCOME_TRY (loadJustifications st) (\<lambda>justifications.
       let root_to_slot = build_root_to_slot st;
           v0 = \<lparr>v_justifications = justifications,
                 v_latest_justified = st_latest_justified st,
                 v_latest_finalized = st_latest_finalized st,
                 v_justified_slots = st_justified_slots st\<rparr>
       in OUTCOME_TRY (fold_result (processAttestation st root_to_slot) attestations v0) (\<lambda>v.
            OUTCOME_TRY (setJustifications st (v_justifications v)) (\<lambda>st1.
              Inr (st1\<lparr>st_justified_slots := v_justified_slots v,
                       st_latest_justified := v_latest_justified v,
                       st_latest_finalized := v_latest_finalized v\<rparr>))))"

definition processOperations :: "State \<Rightarrow> BlockBody \<Rightarrow> State result" where
  "processOperations st body = processAttestations st (bd_attestations body)"

definition processBlock :: "ssz \<Rightarrow> State \<Rightarrow> Block \<Rightarrow> State result" where
  "processBlock z st block =
     OUTCOME_TRY (processBlockHeader z st block) (\<lambda>st1. processOperations st1 (blk_body block))"

subsection \<open>State transition\<close>

definition stateTransition :: "ssz \<Rightarrow> Block \<Rightarrow> State \<Rightarrow> bool \<Rightarrow> State result" where
  "stateTransition z block parent_state check_state_root =
     OUTCOME_TRY (processSlots z parent_state (blk_slot block)) (\<lambda>st1.
       OUTCOME_TRY (processBlock z st1 block) (\<lambda>st2.
         if check_state_root \<and> blk_state_root block \<noteq> hash_state z st2
         then Inl (E_STF STATE_ROOT_DOESNT_MATCH)
         else Inr st2))"

subsection \<open>Lemmas on the window of justified slots\<close>

named_theorems window_simps \<open>reads and updates of the window of justified slots\<close>

text \<open>Whether the window says that slot \<open>s\<close> is justified, for a slot inside it.\<close>

definition slot_bit :: "bool list \<Rightarrow> slot \<Rightarrow> slot \<Rightarrow> bool" where
  "slot_bit bits f s \<longleftrightarrow> s \<le> f \<or> bits ! (s - f - 1)"

lemma isSlotJustified_inside [window_simps]:
  "s < f + 1 + length bits \<Longrightarrow> isSlotJustified bits f s = Some (slot_bit bits f s)"
  by (auto simp: isSlotJustified_def justifiedIndexAfter_def slot_bit_def)

lemma isSlotJustified_outside [window_simps]:
  "f + 1 + length bits \<le> s \<Longrightarrow> isSlotJustified bits f s = None"
  by (auto simp: isSlotJustified_def justifiedIndexAfter_def)

lemma length_extendToSlot [window_simps]:
  "length (extendToSlot bits f s) = max (length bits) (s - f)"
  by (auto simp: extendToSlot_def justifiedIndexAfter_def Let_def)

lemma slot_bit_extendToSlot:
  "s < f + 1 + length bits \<Longrightarrow> slot_bit (extendToSlot bits f t) f s = slot_bit bits f s"
  by (auto simp: extendToSlot_def justifiedIndexAfter_def Let_def slot_bit_def nth_append)

lemma slot_bit_extendToSlot_new:
  "f + 1 + length bits \<le> s \<Longrightarrow> s \<le> t \<Longrightarrow> \<not> slot_bit (extendToSlot bits f t) f s"
  by (auto simp: extendToSlot_def justifiedIndexAfter_def Let_def slot_bit_def nth_append)

lemma slot_bit_extendToSlot_notJustified:
  assumes "isSlotJustified bits f s \<noteq> Some True" "s \<le> t"
  shows "\<not> slot_bit (extendToSlot bits f t) f s"
proof (cases "s < f + 1 + length bits")
  case True
  then show ?thesis using assms by (simp add: slot_bit_extendToSlot isSlotJustified_inside)
next
  case False
  then show ?thesis using assms by (simp add: slot_bit_extendToSlot_new)
qed

lemma withJustified_inside:
  "s < f + 1 + length bits \<Longrightarrow> \<exists>bits'. withJustified bits f s = Inr bits' \<and>
     length bits' = length bits \<and> (\<forall>x < f + 1 + length bits. slot_bit bits' f x \<longleftrightarrow> x = s \<or> slot_bit bits f x)"
  by (auto simp: withJustified_def justifiedIndexAfter_def slot_bit_def nth_list_update)

lemma length_shiftWindow [window_simps]: "length (shiftWindow bits d) = length bits - d"
  by (simp add: shiftWindow_def)

lemma slot_bit_shiftWindow:
  assumes "f' = f + d" "d \<le> length bits" "f' < s" "s < f + 1 + length bits"
  shows "slot_bit (shiftWindow bits d) f' s = slot_bit bits f s"
  using assms by (auto simp: slot_bit_def shiftWindow_def min_def nth_drop)

subsection \<open>Lemmas on the auxiliary loops\<close>

lemma any_justifiable_above:
  "f \<le> s \<Longrightarrow> any_justifiable f s t = Inr (\<exists>x. s \<le> x \<and> x < t \<and> justifiable_delta (x - f))"
proof (induction f s t rule: any_justifiable.induct)
  case (1 f s t)
  show ?case
  proof (cases "s < t \<and> \<not> justifiable_delta (s - f)")
    case True
    then have "any_justifiable f (s + 1) t = Inr (\<exists>x. s + 1 \<le> x \<and> x < t \<and> justifiable_delta (x - f))"
      using "1.IH"[of False] "1.prems" by (simp add: isJustifiableSlot_ge)
    moreover have "(\<exists>x. s + 1 \<le> x \<and> x < t \<and> justifiable_delta (x - f))
        \<longleftrightarrow> (\<exists>x. s \<le> x \<and> x < t \<and> justifiable_delta (x - f))"
      using True by (metis Suc_eq_plus1 Suc_leD le_antisym not_less_eq_eq)
    ultimately show ?thesis
      using True "1.prems" by (subst any_justifiable.simps) (simp add: isJustifiableSlot_ge)
  next
    case False
    then show ?thesis
      using "1.prems" by (subst any_justifiable.simps) (auto simp: isJustifiableSlot_ge)
  qed
qed

lemma any_justifiable_below:
  "s < f \<Longrightarrow> s < t \<Longrightarrow> any_justifiable f s t = Inl (Exn AssertionFailed)"
  by (subst any_justifiable.simps) (simp add: isJustifiableSlot_def)

lemma mark_vote_eq [result_iffs]:
  "mark_vote i bits = Inr bits' \<longleftrightarrow> i < length bits \<and> bits' = bits[i := True]"
  "mark_vote i bits = Inl e \<longleftrightarrow> length bits \<le> i \<and> e = E_STF INVALID_VOTER"
  by (auto simp: mark_vote_def list_update_True_same)

lemma mark_votes:
  "fold_result mark_vote is bits = Inr bits' \<Longrightarrow>
     length bits' = length bits \<and>
     (\<forall>i < length bits. bits' ! i \<longleftrightarrow> bits ! i \<or> i \<in> set is)"
proof (induction "is" arbitrary: bits)
  case (Cons j js)
  then have j: "j < length bits" and js: "fold_result mark_vote js (bits[j := True]) = Inr bits'"
    by (auto simp: result_iffs)
  from Cons.IH[OF js] show ?case using j by (auto simp: nth_list_update)
qed simp

lemma mark_votes_error:
  "fold_result mark_vote is bits = Inl e \<Longrightarrow> e = E_STF INVALID_VOTER"
  by (induction "is" arbitrary: bits) (auto simp: result_iffs)

text \<open>The map from roots to slots holds, for every root after the boundary, its last slot.\<close>

lemma latest_slot_step:
  "a \<le> b \<Longrightarrow>
     map_of (fold (\<lambda>s. AList.update (f s) s) [a..<Suc b] []) =
       (map_of (fold (\<lambda>s. AList.update (f s) s) [a..<b] []))(f b \<mapsto> b)"
  by (simp add: update_conv')

lemma latest_slot_sound:
  "map_of (fold (\<lambda>s. AList.update (f s) s) [a..<b] []) r = Some s \<Longrightarrow> a \<le> s \<and> s < b \<and> f s = r"
proof (induction b)
  case (Suc b)
  show ?case
  proof (cases "a \<le> b")
    case True
    with Suc show ?thesis
      unfolding latest_slot_step[OF True] by (auto simp: fun_upd_def split: if_splits)
  next
    case False
    with Suc.prems show ?thesis by simp
  qed
qed simp

lemma latest_slot_complete:
  "a \<le> s \<Longrightarrow> s < b \<Longrightarrow>
     \<exists>s' \<ge> s. map_of (fold (\<lambda>s. AList.update (f s) s) [a..<b] []) (f s) = Some s'"
proof (induction b)
  case (Suc b)
  then have ab: "a \<le> b" by simp
  show ?case
  proof (cases "f s = f b")
    case True
    with Suc.prems show ?thesis unfolding latest_slot_step[OF ab] by auto
  next
    case False
    with Suc.prems have "s < b" by (metis less_Suc_eq)
    with Suc.IH Suc.prems False show ?thesis unfolding latest_slot_step[OF ab] by auto
  qed
qed simp

lemma retain_after_defined:
  assumes "\<forall>p \<in> set js. map_of rts (fst p) \<noteq> None"
  shows "retain_after rts f js = Inr (filter (\<lambda>p. f < the (map_of rts (fst p))) js)"
  using assms by (induction js) (auto simp: map_at_def)

subsection \<open>The invariant of the vote loop\<close>

definition tracked_ok :: "State \<Rightarrow> slot \<Rightarrow> hash \<times> bool list \<Rightarrow> bool" where
  "tracked_ok st f p \<longleftrightarrow>
     fst p \<noteq> kZeroHash \<and> length (snd p) = validatorCount st \<and>
     3 * length (filter id (snd p)) < 2 * validatorCount st \<and>
     fst p \<in> set (drop (f + 1) (st_historical_block_hashes st))"

definition votes_ok :: "State \<Rightarrow> votes \<Rightarrow> bool" where
  "votes_ok st v \<longleftrightarrow>
     (let hashes = st_historical_block_hashes st;
          f = cp_slot (v_latest_finalized v);
          j = cp_slot (v_latest_justified v)
      in f \<le> j \<and> j < length hashes \<and> f + 1 + length (v_justified_slots v) = length hashes \<and>
         cp_root (v_latest_finalized v) = hashes ! f \<and>
         cp_root (v_latest_justified v) = hashes ! j \<and>
         slot_bit (v_justified_slots v) f j \<and>
         omap_wf (v_justifications v) \<and>
         (\<forall>p \<in> set (v_justifications v). tracked_ok st f p))"

definition rts_ok :: "State \<Rightarrow> slot \<Rightarrow> (hash, slot) umap \<Rightarrow> bool" where
  "rts_ok st f0 rts \<longleftrightarrow>
     (\<forall>s. f0 < s \<and> s < length (st_historical_block_hashes st) \<longrightarrow>
        (\<exists>s' \<ge> s. map_of rts (st_historical_block_hashes st ! s) = Some s' \<and>
           s' < length (st_historical_block_hashes st) \<and>
           st_historical_block_hashes st ! s' = st_historical_block_hashes st ! s))"

lemma build_root_to_slot_ok:
  assumes "cp_slot (st_latest_finalized st) + 1 < 2 ^ 64"
  shows "rts_ok st (cp_slot (st_latest_finalized st)) (build_root_to_slot st)"
proof -
  let ?f = "cp_slot (st_latest_finalized st)" and ?H = "st_historical_block_hashes st"
  have m: "build_root_to_slot st = fold (\<lambda>s. AList.update (?H ! s) s) [?f + 1..<length ?H] []"
    using assms by (simp add: build_root_to_slot_def u64_simps)
  show ?thesis unfolding rts_ok_def m
  proof (intro allI impI)
    fix s assume "?f < s \<and> s < length ?H"
    then obtain s' where s': "s \<le> s'"
        "map_of (fold (\<lambda>s. AList.update (?H ! s) s) [?f + 1..<length ?H] []) (?H ! s) = Some s'"
      using latest_slot_complete[of "?f + 1" s "length ?H" "(!) ?H"] by auto
    with latest_slot_sound[OF s'(2)]
    show "\<exists>s' \<ge> s. map_of (fold (\<lambda>s. AList.update (?H ! s) s) [?f + 1..<length ?H] []) (?H ! s)
        = Some s' \<and> s' < length ?H \<and> ?H ! s' = ?H ! s" by auto
  qed
qed

lemma rts_ok_tracked:
  assumes "rts_ok st f0 rts" "f0 \<le> f" "r \<in> set (drop (f + 1) (st_historical_block_hashes st))"
  obtains s where "map_of rts r = Some s" "f < s" "s < length (st_historical_block_hashes st)"
    "st_historical_block_hashes st ! s = r"
proof -
  from assms(3) obtain i where i: "f + 1 \<le> i" "i < length (st_historical_block_hashes st)"
      "st_historical_block_hashes st ! i = r" by (auto simp: in_set_drop_nth)
  with assms(2) have "f0 < i \<and> i < length (st_historical_block_hashes st)" by simp
  with assms(1) i(3) obtain s where "i \<le> s" "map_of rts r = Some s"
      "s < length (st_historical_block_hashes st)" "st_historical_block_hashes st ! s = r"
    unfolding rts_ok_def by blast
  with i that show ?thesis by auto
qed

subsubsection \<open>The guards\<close>

definition att_accepted :: "State \<Rightarrow> votes \<Rightarrow> AttestationData \<Rightarrow> bool" where
  "att_accepted st v ad \<longleftrightarrow>
     (let s = ad_source ad; t = ad_target ad; hashes = st_historical_block_hashes st;
          f = cp_slot (v_latest_finalized v); bits = v_justified_slots v
      in cp_slot s < cp_slot t \<and> cp_slot t < length hashes \<and> f < cp_slot t \<and>
         slot_bit bits f (cp_slot s) \<and> \<not> slot_bit bits f (cp_slot t) \<and>
         cp_root s = hashes ! cp_slot s \<and> cp_root t = hashes ! cp_slot t \<and>
         cp_root s \<noteq> kZeroHash \<and> cp_root t \<noteq> kZeroHash \<and>
         justifiable_delta (cp_slot t - f))"

lemma check_attestation_ok:
  assumes "votes_ok st v"
  shows "check_attestation st v ad =
    (if cp_slot (ad_source ad) \<ge> length (st_historical_block_hashes st)
     then Inl (E_STF INVALID_VOTE_SOURCE_SLOT)
     else if cp_slot (ad_target ad) \<ge> length (st_historical_block_hashes st)
     then Inl (E_STF INVALID_VOTE_TARGET_SLOT)
     else Inr (att_accepted st v ad))"
proof -
  let ?f = "cp_slot (v_latest_finalized v)" and ?b = "v_justified_slots v"
    and ?n = "length (st_historical_block_hashes st)"
  from assms have len: "?f + 1 + length ?b = ?n" by (simp add: votes_ok_def Let_def)
  then have j: "\<And>s. s < ?n \<Longrightarrow> isSlotJustified ?b ?f s = Some (slot_bit ?b ?f s)"
    by (simp add: isSlotJustified_inside)
  have f: "\<And>s. \<not> slot_bit ?b ?f s \<Longrightarrow> ?f < s" by (simp add: slot_bit_def)
  show ?thesis
    using j f unfolding check_attestation_def att_accepted_def Let_def value_or_throw_def
    by (auto simp: isJustifiableSlot_ge less_imp_le not_le)
qed

subsubsection \<open>Finalization\<close>

lemma finalize_source_ok:
  assumes ok: "votes_ok st v" and rts: "rts_ok st f0 rts" and f0: "f0 \<le> cp_slot (v_latest_finalized v)"
    and src: "cp_slot (v_latest_finalized v) \<le> cp_slot src"
      "cp_slot src \<le> cp_slot (v_latest_justified v)"
      "cp_root src = st_historical_block_hashes st ! cp_slot src"
    and len: "length (st_historical_block_hashes st) < 2 ^ 64"
  shows "\<exists>v'. finalize_source rts src v = Inr v' \<and> votes_ok st v' \<and>
    v_latest_finalized v' = src \<and> v_latest_justified v' = v_latest_justified v \<and>
    set (v_justifications v') \<subseteq> set (v_justifications v) \<and>
    (\<forall>x. cp_slot src < x \<and> x < length (st_historical_block_hashes st) \<longrightarrow>
       slot_bit (v_justified_slots v') (cp_slot src) x
         = slot_bit (v_justified_slots v) (cp_slot (v_latest_finalized v)) x)"
proof -
  let ?f = "cp_slot (v_latest_finalized v)" and ?H = "st_historical_block_hashes st"
  define d where "d = cp_slot src - ?f"
  from ok have v: "cp_slot (v_latest_justified v) < length ?H"
      "?f + 1 + length (v_justified_slots v) = length ?H"
      "cp_root (v_latest_justified v) = ?H ! cp_slot (v_latest_justified v)"
      "slot_bit (v_justified_slots v) ?f (cp_slot (v_latest_justified v))"
      "omap_wf (v_justifications v)" "\<forall>p \<in> set (v_justifications v). tracked_ok st ?f p"
    by (simp_all add: votes_ok_def Let_def)
  have delta: "u64_sub (cp_slot src) ?f = d"
    using src v(1) len by (simp add: d_def u64_simps)
  show ?thesis
  proof (cases "d = 0")
    case True
    then have "cp_slot src = ?f" using src(1) by (simp add: d_def)
    with True delta ok src(3) show ?thesis
      by (auto simp: finalize_source_def Let_def votes_ok_def)
  next
    case False
    let ?js = "filter (\<lambda>p. cp_slot src < the (map_of rts (fst p))) (v_justifications v)"
    have rs: "\<exists>s. map_of rts (fst p) = Some s \<and> s < length ?H \<and> ?H ! s = fst p"
      if "p \<in> set (v_justifications v)" for p
    proof -
      from v(6) that have "fst p \<in> set (drop (?f + 1) ?H)" by (simp add: tracked_ok_def)
      then show ?thesis by (rule rts_ok_tracked[OF rts f0]) blast
    qed
    have ret: "retain_after rts (cp_slot src) (v_justifications v) = Inr ?js"
      using rs by (intro retain_after_defined) auto
    have tr: "tracked_ok st (cp_slot src) p" if "p \<in> set ?js" for p
      using v(6) rs[of p] that by (auto simp: tracked_ok_def in_set_drop_nth Suc_le_eq)
    have d: "cp_slot src = ?f + d" "d \<le> length (v_justified_slots v)"
      using src v(1,2) by (auto simp: d_def)
    note win = slot_bit_shiftWindow[OF d]
    have jb: "slot_bit (shiftWindow (v_justified_slots v) d) (cp_slot src)
        (cp_slot (v_latest_justified v))"
    proof (cases "cp_slot (v_latest_justified v) \<le> cp_slot src")
      case False
      then show ?thesis using win v(1,2,4) by simp
    qed (simp add: slot_bit_def)
    have lenw: "cp_slot src + 1 + length (shiftWindow (v_justified_slots v) d) = length ?H"
      using d v(2) by (simp add: window_simps)
    show ?thesis
      using False delta ret tr src(2,3) v(1,2,3,5) jb lenw win
      by (auto simp: finalize_source_def Let_def votes_ok_def)
  qed
qed

subsubsection \<open>Justification\<close>

lemma votes_ok_justify:
  assumes ok: "votes_ok st v" and acc: "att_accepted st v ad"
    and slots: "length slots = length (v_justified_slots v)"
      "slot_bit slots (cp_slot (v_latest_finalized v)) (cp_slot (ad_target ad))"
  shows "votes_ok st (v\<lparr>v_latest_justified := ad_target ad, v_justified_slots := slots,
    v_justifications := omap_erase k (v_justifications v)\<rparr>)"
  using assms by (auto simp: votes_ok_def att_accepted_def Let_def omap_erase_wf)
    (auto simp: omap_erase_def)

text \<open>What \<open>justify_target\<close> does to a well-formed vote state, on every branch.\<close>

definition justified_by :: "State \<Rightarrow> AttestationData \<Rightarrow> votes \<Rightarrow> votes \<Rightarrow> bool" where
  "justified_by st ad v v' \<longleftrightarrow>
     (let f = cp_slot (v_latest_finalized v); f' = cp_slot (v_latest_finalized v');
          s = ad_source ad; t = ad_target ad
      in v_latest_justified v' = t \<and>
         (v_latest_finalized v' = v_latest_finalized v \<or>
          v_latest_finalized v' = s \<and> f \<le> cp_slot s \<and>
            (\<forall>x. cp_slot s < x \<and> x < cp_slot t \<longrightarrow> \<not> justifiable_delta (x - f))) \<and>
         set (v_justifications v') \<subseteq> set (v_justifications v) \<and>
         (\<forall>x. f' < x \<and> x < length (st_historical_block_hashes st) \<longrightarrow>
            slot_bit (v_justified_slots v') f' x \<longleftrightarrow>
              x = cp_slot t \<or> slot_bit (v_justified_slots v) f x))"

lemma justify_target_ok:
  fixes bits :: "bool list"
  assumes ok: "votes_ok st v" and acc: "att_accepted st v ad"
    and rts: "rts_ok st f0 rts" and f0: "f0 \<le> cp_slot (v_latest_finalized v)"
    and len: "length (st_historical_block_hashes st) < 2 ^ 64"
  defines "r \<equiv> justify_target rts (ad_source ad) (ad_target ad)
      (v\<lparr>v_justifications := omap_put (cp_root (ad_target ad)) bits (v_justifications v)\<rparr>)"
  shows "r = Inl (Exn AssertionFailed) \<and>
           cp_slot (ad_source ad) + 1 < cp_slot (v_latest_finalized v)
         \<or> (\<exists>v'. r = Inr v' \<and> votes_ok st v' \<and> justified_by st ad v v')"
proof -
  let ?f = "cp_slot (v_latest_finalized v)" and ?H = "st_historical_block_hashes st"
  let ?s = "cp_slot (ad_source ad)" and ?t = "cp_slot (ad_target ad)"
  from ok have lenb: "?f + 1 + length (v_justified_slots v) = length ?H"
    by (simp add: votes_ok_def Let_def)
  from acc have t: "?s < ?t" "?t < length ?H" "?f < ?t"
      "cp_root (ad_source ad) = ?H ! ?s"
    by (simp_all add: att_accepted_def Let_def)
  from withJustified_inside[of ?t ?f "v_justified_slots v"] lenb t obtain slots where
    slots: "withJustified (v_justified_slots v) ?f ?t = Inr slots"
      "length slots = length (v_justified_slots v)"
      "\<forall>x < length ?H. slot_bit slots ?f x \<longleftrightarrow> x = ?t \<or> slot_bit (v_justified_slots v) ?f x"
    by auto
  define v1 where "v1 = v\<lparr>v_latest_justified := ad_target ad, v_justified_slots := slots,
    v_justifications := omap_erase (cp_root (ad_target ad)) (v_justifications v)\<rparr>"
  have ok1: "votes_ok st v1"
    unfolding v1_def using slots t by (intro votes_ok_justify ok acc) auto
  have r: "r = OUTCOME_TRY (any_justifiable ?f (?s + 1) ?t)
      (\<lambda>any. if \<not> any then finalize_source rts (ad_source ad) v1 else Inr v1)"
    unfolding r_def justify_target_def v1_def by (simp add: slots(1) Let_def omap_simps)
  have same: "justified_by st ad v v1"
    using slots(3) by (auto simp: justified_by_def Let_def v1_def omap_erase_def)
  show ?thesis
  proof (cases "?s + 1 < ?f")
    case True
    then show ?thesis using t by (simp add: r any_justifiable_below)
  next
    case False
    let ?any = "\<exists>x. ?s + 1 \<le> x \<and> x < ?t \<and> justifiable_delta (x - ?f)"
    have any: "any_justifiable ?f (?s + 1) ?t = Inr ?any"
      using False by (intro any_justifiable_above) simp
    show ?thesis
    proof (cases ?any)
      case True
      then show ?thesis using any ok1 same by (simp add: r)
    next
      case none: False
      have "?f \<le> ?s"
      proof (rule ccontr)
        assume "\<not> ?f \<le> ?s"
        with False have "?s + 1 = ?f" by simp
        with none t show False by (auto simp: justifiable_delta_def)
      qed
      from finalize_source_ok[OF ok1 rts _ _ _ _ len, of "ad_source ad"] this f0 t
      obtain v' where v': "finalize_source rts (ad_source ad) v1 = Inr v'" "votes_ok st v'"
          "v_latest_finalized v' = ad_source ad" "v_latest_justified v' = ad_target ad"
          "set (v_justifications v') \<subseteq> set (v_justifications v1)"
          "\<forall>x. ?s < x \<and> x < length ?H \<longrightarrow>
             slot_bit (v_justified_slots v') ?s x = slot_bit slots ?f x"
        by (auto simp: v1_def)
      have "set (v_justifications v') \<subseteq> set (v_justifications v)"
        using v'(5) by (auto simp: v1_def omap_erase_def)
      then have "justified_by st ad v v'"
        using v'(3,4,6) none slots(3) \<open>?f \<le> ?s\<close>
        by (auto simp: justified_by_def Let_def Suc_le_eq)
      moreover have "r = Inr v'" using any none v'(1) by (simp add: r)
      ultimately show ?thesis using v'(2) by blast
    qed
  qed
qed

subsubsection \<open>One attestation\<close>

definition tracked_bits :: "State \<Rightarrow> votes \<Rightarrow> hash \<Rightarrow> bool list" where
  "tracked_bits st v r =
     (case map_of (v_justifications v) r of None \<Rightarrow> replicate (validatorCount st) False
      | Some bits \<Rightarrow> bits)"

text \<open>What one attestation does to a well-formed vote state.\<close>

definition vote_step :: "State \<Rightarrow> AggregatedAttestation \<Rightarrow> votes \<Rightarrow> votes \<Rightarrow> bool" where
  "vote_step st att v v' \<longleftrightarrow>
     (let t = ad_target (aa_data att) in
      v' = v \<or>
      att_accepted st v (aa_data att) \<and>
      (\<exists>bits. length bits = validatorCount st \<and>
         (\<forall>i < validatorCount st. bits ! i \<longleftrightarrow>
            tracked_bits st v (cp_root t) ! i \<or> AggregationBits_contains (aa_bits att) i) \<and>
         (if 3 * length (filter id bits) \<ge> 2 * validatorCount st
          then justified_by st (aa_data att) v v'
          else v' = v\<lparr>v_justifications := omap_put (cp_root t) bits (v_justifications v)\<rparr>)))"

lemma length_tracked_bits:
  assumes "votes_ok st v"
  shows "length (tracked_bits st v r) = validatorCount st"
  using assms
  by (auto simp: tracked_bits_def votes_ok_def tracked_ok_def Let_def split: option.splits
      dest!: map_of_SomeD)

lemma votes_ok_put:
  assumes "votes_ok st v" "att_accepted st v ad" "length bits = validatorCount st"
    "3 * length (filter id bits) < 2 * validatorCount st"
  shows "votes_ok st (v\<lparr>v_justifications :=
    omap_put (cp_root (ad_target ad)) bits (v_justifications v)\<rparr>)"
proof -
  let ?t = "cp_root (ad_target ad)" and ?f = "cp_slot (v_latest_finalized v)"
  have "set (omap_put ?t bits (v_justifications v)) \<subseteq> insert (?t, bits) (set (v_justifications v))"
    by (rule omap_put_set)
  moreover have "tracked_ok st ?f (?t, bits)"
    using assms(2-4) by (auto simp: tracked_ok_def att_accepted_def Let_def in_set_drop_nth Suc_le_eq)
  ultimately show ?thesis
    using assms(1) by (auto simp: votes_ok_def Let_def omap_put_wf)
qed

lemma vote_step_finalized_mono:
  "vote_step st att v v' \<Longrightarrow> cp_slot (v_latest_finalized v) \<le> cp_slot (v_latest_finalized v')"
  by (auto simp: vote_step_def justified_by_def Let_def split: if_splits)

lemma processAttestation_unfold:
  assumes "votes_ok st v" "\<not> length (st_historical_block_hashes st) \<le> cp_slot (ad_source (aa_data att))"
    "\<not> length (st_historical_block_hashes st) \<le> cp_slot (ad_target (aa_data att))"
    "att_accepted st v (aa_data att)"
  shows "processAttestation st rts att v =
    OUTCOME_TRY (fold_result mark_vote (AggregationBits_iter (aa_bits att))
        (tracked_bits st v (cp_root (ad_target (aa_data att))))) (\<lambda>bits.
      let v1 = v\<lparr>v_justifications :=
                 omap_put (cp_root (ad_target (aa_data att))) bits (v_justifications v)\<rparr>
      in if 3 * length (filter id bits) \<ge> 2 * validatorCount st
         then justify_target rts (ad_source (aa_data att)) (ad_target (aa_data att)) v1
         else Inr v1)"
  using assms
  by (simp add: processAttestation_def check_attestation_ok tracked_bits_def Let_def)

lemma processAttestation_ok:
  assumes ok: "votes_ok st v" and rts: "rts_ok st f0 rts"
    and f0: "f0 \<le> cp_slot (v_latest_finalized v)"
    and len: "length (st_historical_block_hashes st) < 2 ^ 64"
  shows "case processAttestation st rts att v of
      Inl e \<Rightarrow> e \<in> E_STF ` {INVALID_VOTE_SOURCE_SLOT, INVALID_VOTE_TARGET_SLOT, INVALID_VOTER} \<or>
        e = Exn AssertionFailed \<and>
        cp_slot (ad_source (aa_data att)) + 1 < cp_slot (v_latest_finalized v)
    | Inr v' \<Rightarrow> votes_ok st v' \<and> vote_step st att v v'"
proof (cases "length (st_historical_block_hashes st) \<le> cp_slot (ad_source (aa_data att)) \<or>
    length (st_historical_block_hashes st) \<le> cp_slot (ad_target (aa_data att)) \<or>
    \<not> att_accepted st v (aa_data att)")
  case True
  then show ?thesis
    using ok by (auto simp: processAttestation_def check_attestation_ok vote_step_def)
next
  case False
  let ?ad = "aa_data att" and ?r = "cp_root (ad_target (aa_data att))"
  from False have acc: "att_accepted st v ?ad" by simp
  note unfold = processAttestation_unfold[OF ok _ _ acc, of rts]
  show ?thesis
  proof (cases "fold_result mark_vote (AggregationBits_iter (aa_bits att)) (tracked_bits st v ?r)")
    case (Inl e)
    then show ?thesis using False mark_votes_error[OF Inl] by (simp add: unfold)
  next
    case (Inr bits)
    from mark_votes[OF Inr] length_tracked_bits[OF ok] have
      bits: "length bits = validatorCount st"
        "\<forall>i < validatorCount st. bits ! i \<longleftrightarrow>
          tracked_bits st v ?r ! i \<or> AggregationBits_contains (aa_bits att) i"
      by auto
    show ?thesis
    proof (cases "3 * length (filter id bits) \<ge> 2 * validatorCount st")
      case True
      then show ?thesis
        using justify_target_ok[OF ok acc rts f0 len, of bits] False bits acc
        by (auto simp: unfold Inr vote_step_def Let_def)
    next
      case few: False
      then show ?thesis
        using votes_ok_put[OF ok acc bits(1)] False bits acc
        by (auto simp: unfold Inr vote_step_def Let_def not_le)
    qed
  qed
qed

subsubsection \<open>Loading and storing the justifications\<close>

lemma load_segments_concat:
  assumes "\<forall>p \<in> set js. length (snd p) = n" "omap_wf (m @ js)"
  shows "load_segments n (pre @ concat (map snd js)) (map fst js) (length pre) m = m @ js"
  using assms
proof (induction js arbitrary: pre m)
  case (Cons p js)
  obtain r bits where p: "p = (r, bits)" by fastforce
  have "omap_wf ((m @ [(r, bits)]) @ js)" using Cons.prems(2) by (simp add: p)
  then have "omap_wf (m @ [(r, bits)])"
    unfolding omap_wf_def map_append sorted_wrt_append by blast
  then have put: "omap_put r bits m = m @ [(r, bits)]"
    by (intro omap_put_last) (simp add: omap_wf_append)
  have len: "length bits = n" using Cons.prems(1) by (simp add: p)
  have "load_segments n ((pre @ bits) @ concat (map snd js)) (map fst js) (length (pre @ bits))
      (m @ [(r, bits)]) = (m @ [(r, bits)]) @ js"
    using Cons.prems by (intro Cons.IH) (auto simp: p)
  then show ?case using len by (simp add: p put Let_def)
qed simp

lemma loadJustifications_set:
  assumes "setJustifications st js = Inr st'" "omap_wf js"
  shows "loadJustifications st' = Inr js"
proof -
  from assms(1) have len: "\<forall>p \<in> set js. length (snd p) = validatorCount st"
    and st': "st' = st\<lparr>st_justifications_roots := map fst js,
                       st_justifications_validators := concat (map snd js)\<rparr>"
    by (auto simp: setJustifications_def split: if_splits)
  have "length (concat (map snd js)) = length js * validatorCount st"
    using len by (induction js) auto
  then show ?thesis
    using load_segments_concat[of js "validatorCount st" "[]" "[]"] len assms(2)
    by (auto simp: st' loadJustifications_def validatorCount_def)
qed

lemma loadJustifications_cong:
  "st_justifications_roots st' = st_justifications_roots st \<Longrightarrow>
   st_justifications_validators st' = st_justifications_validators st \<Longrightarrow>
   st_validators st' = st_validators st \<Longrightarrow> loadJustifications st' = loadJustifications st"
  by (simp add: loadJustifications_def validatorCount_def)

subsection \<open>The loop over the attestations\<close>

text \<open>The runs of the loop on well-formed vote states, as a step relation.\<close>

inductive vote_steps :: "State \<Rightarrow> AggregatedAttestation list \<Rightarrow> votes \<Rightarrow> votes \<Rightarrow> bool" for st where
  vote_steps_Nil: "vote_steps st [] v v"
| vote_steps_Cons:
    "vote_step st att v v1 \<Longrightarrow> votes_ok st v1 \<Longrightarrow> vote_steps st atts v1 v2 \<Longrightarrow>
     vote_steps st (att # atts) v v2"

inductive_simps vote_steps_simps [simp]:
  "vote_steps st [] v v'"
  "vote_steps st (att # atts) v v'"

definition initial_votes :: "State \<Rightarrow> Justifications \<Rightarrow> votes" where
  "initial_votes st js =
     \<lparr>v_justifications = js, v_latest_justified = st_latest_justified st,
      v_latest_finalized = st_latest_finalized st, v_justified_slots = st_justified_slots st\<rparr>"

definition store_votes :: "State \<Rightarrow> votes \<Rightarrow> State" where
  "store_votes st v =
     st\<lparr>st_justifications_roots := map fst (v_justifications v),
        st_justifications_validators := concat (map snd (v_justifications v)),
        st_justified_slots := v_justified_slots v,
        st_latest_justified := v_latest_justified v,
        st_latest_finalized := v_latest_finalized v\<rparr>"

lemma initial_votes_simps [simp]:
  "v_justifications (initial_votes st js) = js"
  "v_latest_justified (initial_votes st js) = st_latest_justified st"
  "v_latest_finalized (initial_votes st js) = st_latest_finalized st"
  "v_justified_slots (initial_votes st js) = st_justified_slots st"
  by (simp_all add: initial_votes_def)

lemma store_votes_simps [simp]:
  "st_config (store_votes st v) = st_config st"
  "st_slot (store_votes st v) = st_slot st"
  "st_latest_block_header (store_votes st v) = st_latest_block_header st"
  "st_latest_justified (store_votes st v) = v_latest_justified v"
  "st_latest_finalized (store_votes st v) = v_latest_finalized v"
  "st_historical_block_hashes (store_votes st v) = st_historical_block_hashes st"
  "st_justified_slots (store_votes st v) = v_justified_slots v"
  "st_validators (store_votes st v) = st_validators st"
  "validatorCount (store_votes st v) = validatorCount st"
  by (simp_all add: store_votes_def validatorCount_def)

lemma vote_steps_of_fold:
  assumes "fold_result (processAttestation st rts) atts v = Inr v'"
    and "votes_ok st v" "rts_ok st f0 rts" "f0 \<le> cp_slot (v_latest_finalized v)"
    and "length (st_historical_block_hashes st) < 2 ^ 64"
  shows "vote_steps st atts v v' \<and> votes_ok st v'"
  using assms(1,2,4)
proof (induction atts arbitrary: v)
  case (Cons att atts)
  then obtain v1 where v1: "processAttestation st rts att v = Inr v1"
      "fold_result (processAttestation st rts) atts v1 = Inr v'"
    by (auto simp: result_iffs)
  with processAttestation_ok[OF Cons.prems(2) assms(3) Cons.prems(3) assms(5), of att]
  have "votes_ok st v1" "vote_step st att v v1" by simp_all
  with Cons.IH[OF v1(2)] vote_step_finalized_mono[OF this(2)] Cons.prems(3)
  show ?case by auto
qed simp

lemma vote_steps_invariant:
  assumes "vote_steps st atts v v'" "votes_ok st v" "I v"
    and "\<And>att v v'. att \<in> set atts \<Longrightarrow> vote_step st att v v' \<Longrightarrow> votes_ok st v \<Longrightarrow> votes_ok st v' \<Longrightarrow>
      I v \<Longrightarrow> I v'"
  shows "I v'"
  using assms
proof (induction rule: vote_steps.induct)
  case (vote_steps_Cons att v v1 atts v2)
  have "I v1"
    using vote_steps_Cons.prems vote_steps_Cons.hyps by (meson list.set_intros(1))
  then show ?case
    using vote_steps_Cons.IH vote_steps_Cons.hyps(2) vote_steps_Cons.prems(3)
    by (meson list.set_intros(2))
qed

lemma vote_step_finalized_cases:
  "vote_step st att v v' \<Longrightarrow>
     v_latest_finalized v' = v_latest_finalized v \<or> v_latest_finalized v' = ad_source (aa_data att)"
  by (auto simp: vote_step_def justified_by_def Let_def split: if_splits)

text \<open>The errors of the loop; the only exceptional one is the assertion on stale sources.\<close>

definition stale_source :: "State \<Rightarrow> AggregatedAttestation list \<Rightarrow> bool" where
  "stale_source st atts \<longleftrightarrow>
     (\<exists>att \<in> set atts.
        cp_slot (ad_source (aa_data att)) + 1 < cp_slot (st_latest_finalized st) \<or>
        (\<exists>att' \<in> set atts.
           cp_slot (ad_source (aa_data att)) + 1 < cp_slot (ad_source (aa_data att'))))"

lemma vote_loop_error:
  assumes "fold_result (processAttestation st rts) atts v = Inl e"
    and "votes_ok st v" "rts_ok st (cp_slot (st_latest_finalized st)) rts"
    and "v_latest_finalized v = st_latest_finalized st"
    and len: "length (st_historical_block_hashes st) < 2 ^ 64"
  shows "e \<in> E_STF ` {INVALID_VOTE_SOURCE_SLOT, INVALID_VOTE_TARGET_SLOT, INVALID_VOTER} \<or>
    e = Exn AssertionFailed \<and> stale_source st atts"
proof -
  define I where "I v \<longleftrightarrow> votes_ok st v \<and>
      cp_slot (st_latest_finalized st) \<le> cp_slot (v_latest_finalized v) \<and>
      (v_latest_finalized v = st_latest_finalized st \<or>
       (\<exists>att \<in> set atts. v_latest_finalized v = ad_source (aa_data att)))" for v
  note step = processAttestation_ok[OF _ assms(3) _ len]
  have "\<exists>att v. att \<in> set atts \<and> I v \<and> processAttestation st rts att v = Inl e"
  proof (rule fold_result_failure[OF assms(1), of I])
    show "I v" using assms by (simp add: I_def)
    fix att v v' assume a: "att \<in> set atts" "I v" "processAttestation st rts att v = Inr v'"
    with step[of v att] have v': "votes_ok st v'" "vote_step st att v v'" by (simp_all add: I_def)
    with a vote_step_finalized_mono[OF v'(2)] vote_step_finalized_cases[OF v'(2)]
    show "I v'" unfolding I_def by (metis order_trans)
  qed
  then obtain att v where a: "att \<in> set atts" "I v" "processAttestation st rts att v = Inl e"
    by blast
  with step[of v att] show ?thesis by (auto simp: I_def stale_source_def) blast
qed

lemma setJustifications_ok:
  "votes_ok st v \<Longrightarrow> setJustifications st (v_justifications v) =
     Inr (st\<lparr>st_justifications_roots := map fst (v_justifications v),
            st_justifications_validators := concat (map snd (v_justifications v))\<rparr>)"
  by (simp add: setJustifications_def votes_ok_def tracked_ok_def Let_def)

lemma processAttestations_ok:
  assumes load: "loadJustifications st = Inr js" and ok: "votes_ok st (initial_votes st js)"
    and len: "length (st_historical_block_hashes st) < 2 ^ 64"
  shows "case processAttestations st atts of
      Inl e \<Rightarrow> e \<in> E_STF ` {INVALID_VOTE_SOURCE_SLOT, INVALID_VOTE_TARGET_SLOT, INVALID_VOTER} \<or>
        e = Exn AssertionFailed \<and> stale_source st atts
    | Inr st' \<Rightarrow> \<exists>v. vote_steps st atts (initial_votes st js) v \<and> votes_ok st v \<and>
        st' = store_votes st v"
proof -
  let ?rts = "build_root_to_slot st" and ?v0 = "initial_votes st js"
  from ok len have rts: "rts_ok st (cp_slot (st_latest_finalized st)) ?rts"
    by (intro build_root_to_slot_ok) (auto simp: votes_ok_def Let_def)
  show ?thesis
  proof (cases "fold_result (processAttestation st ?rts) atts ?v0")
    case (Inl e)
    then have "processAttestations st atts = Inl e"
      by (simp add: processAttestations_def load Let_def initial_votes_def)
    with vote_loop_error[OF Inl ok rts _ len] show ?thesis by simp
  next
    case (Inr v)
    from vote_steps_of_fold[OF Inr ok rts _ len]
    have v: "vote_steps st atts ?v0 v" "votes_ok st v" by simp_all
    from Inr setJustifications_ok[OF v(2)] have "processAttestations st atts = Inr (store_votes st v)"
      by (simp add: processAttestations_def load Let_def initial_votes_def store_votes_def)
    with v show ?thesis by auto
  qed
qed

subsection \<open>Well-formed states\<close>

text \<open>
  The invariant of the states the chain builds: the history covers every slot before the
  latest header, the window of justified slots covers the slots after the finalized one,
  the checkpoints name blocks of the history, and every root with pending votes is a
  block after the finalized one that is short of two thirds of the votes.
\<close>

definition wf_state :: "State \<Rightarrow> bool" where
  "wf_state st \<longleftrightarrow>
     st_validators st \<noteq> [] \<and> st_slot st < 2 ^ 64 \<and>
     hdr_slot (st_latest_block_header st) \<le> st_slot st \<and>
     length (st_historical_block_hashes st) = hdr_slot (st_latest_block_header st) \<and>
     (case loadJustifications st of
        Inl e \<Rightarrow> False
      | Inr js \<Rightarrow> setJustifications st js = Inr st \<and>
          (if st_historical_block_hashes st = []
           then js = [] \<and> st_justified_slots st = [] \<and>
                cp_slot (st_latest_justified st) = 0 \<and> cp_slot (st_latest_finalized st) = 0
           else votes_ok st (initial_votes st js)))"

lemma wf_generateGenesisState: "validators \<noteq> [] \<Longrightarrow> wf_state (generateGenesisState z c validators)"
  by (simp add: wf_state_def generateGenesisState_def loadJustifications_def
      setJustifications_def)

lemma votes_ok_cong:
  assumes "st_historical_block_hashes st' = st_historical_block_hashes st"
    "validatorCount st' = validatorCount st"
  shows "votes_ok st' v = votes_ok st v"
  using assms by (simp add: votes_ok_def tracked_ok_def)

lemma wf_store_votes:
  assumes "votes_ok st v" "st_validators st \<noteq> []" "st_slot st < 2 ^ 64"
    "hdr_slot (st_latest_block_header st) \<le> st_slot st"
    "length (st_historical_block_hashes st) = hdr_slot (st_latest_block_header st)"
  shows "wf_state (store_votes st v)"
    and "loadJustifications (store_votes st v) = Inr (v_justifications v)"
proof -
  define st1 where "st1 = st\<lparr>st_justifications_roots := map fst (v_justifications v),
    st_justifications_validators := concat (map snd (v_justifications v))\<rparr>"
  from assms(1) have wf: "omap_wf (v_justifications v)"
    and ne: "st_historical_block_hashes st \<noteq> []"
    and len: "\<forall>p \<in> set (v_justifications v). length (snd p) = validatorCount st"
    by (auto simp: votes_ok_def tracked_ok_def Let_def)
  have "loadJustifications st1 = Inr (v_justifications v)"
    using loadJustifications_set setJustifications_ok[OF assms(1)] wf by (auto simp: st1_def)
  then show load: "loadJustifications (store_votes st v) = Inr (v_justifications v)"
    using loadJustifications_cong[of "store_votes st v" st1]
    by (simp add: st1_def store_votes_def)
  have iv: "initial_votes (store_votes st v) (v_justifications v) = v"
    by (simp add: initial_votes_def)
  have "setJustifications (store_votes st v) (v_justifications v) = Inr (store_votes st v)"
    using len by (simp add: setJustifications_def) (simp add: store_votes_def)
  then show "wf_state (store_votes st v)"
    using assms ne by (simp add: wf_state_def load iv votes_ok_cong[of "store_votes st v" st])
qed

subsection \<open>Slots and header\<close>

lemma processSlot_frame:
  "processSlot z st = st\<lparr>st_slot := st_slot st + 1,
     st_latest_block_header := (st_latest_block_header st)\<lparr>hdr_state_root :=
       (if hdr_state_root (st_latest_block_header st) = kZeroHash then hash_state z st
        else hdr_state_root (st_latest_block_header st))\<rparr>\<rparr>"
  by (simp add: processSlot_def Let_def)

lemma processSlots_loop_frame:
  "\<exists>sr. processSlots_loop z slot st = st\<lparr>st_slot := max (st_slot st) slot,
     st_latest_block_header := (st_latest_block_header st)\<lparr>hdr_state_root := sr\<rparr>\<rparr>"
proof (induction z slot st rule: processSlots_loop.induct)
  case (1 z slot st)
  show ?case
  proof (cases "st_slot st < slot")
    case True
    then have "processSlots_loop z slot st = processSlots_loop z slot (processSlot z st)"
      by (simp add: processSlots_loop.simps[of z slot st])
    moreover from "1.IH"[OF True] obtain sr where
      "processSlots_loop z slot (processSlot z st) =
        (processSlot z st)\<lparr>st_slot := max (st_slot (processSlot z st)) slot, st_latest_block_header :=
          (st_latest_block_header (processSlot z st))\<lparr>hdr_state_root := sr\<rparr>\<rparr>" by blast
    ultimately show ?thesis
      using True by (intro exI[of _ sr]) (simp add: processSlot_frame max_def)
  next
    case False
    then have "processSlots_loop z slot st = st" by (simp add: processSlots_loop.simps[of z slot st])
    with False show ?thesis
      by (intro exI[of _ "hdr_state_root (st_latest_block_header st)"]) simp
  qed
qed

lemma processSlots_ok:
  assumes "processSlots z st slot = Inr st'"
  shows "\<exists>sr. st_slot st < slot \<and> st' = st\<lparr>st_slot := slot,
    st_latest_block_header := (st_latest_block_header st)\<lparr>hdr_state_root := sr\<rparr>\<rparr>"
proof -
  from assms have lt: "st_slot st < slot" and st': "st' = processSlots_loop z slot st"
    by (auto simp: processSlots_def split: if_splits)
  then have "max (st_slot st) slot = slot" by simp
  with processSlots_loop_frame[of z slot st] lt show ?thesis by (simp add: st')
qed

lemma wf_processSlots:
  assumes "wf_state st" "processSlots z st slot = Inr st'" "slot < 2 ^ 64"
  shows "wf_state st'"
proof -
  from processSlots_ok[OF assms(2)] obtain sr where lt: "st_slot st < slot" and
    st': "st' = st\<lparr>st_slot := slot,
      st_latest_block_header := (st_latest_block_header st)\<lparr>hdr_state_root := sr\<rparr>\<rparr>" by blast
  have load: "loadJustifications st' = loadJustifications st"
    by (rule loadJustifications_cong) (simp_all add: st')
  have vc: "validatorCount st' = validatorCount st" by (simp add: st' validatorCount_def)
  have iv: "initial_votes st' js = initial_votes st js" for js by (simp add: st' initial_votes_def)
  have vo: "votes_ok st' v = votes_ok st v" for v
    by (rule votes_ok_cong) (simp_all add: st' validatorCount_def)
  have set: "setJustifications st js = Inr st \<Longrightarrow> setJustifications st' js = Inr st'" for js
    by (cases st) (auto simp: st' setJustifications_def validatorCount_def split: if_splits)
  show ?thesis
    using assms(1,3) lt set unfolding wf_state_def load iv vo
    by (auto simp: st' split: sum.splits)
qed

lemma votes_ok_extend:
  assumes ok: "votes_ok st v"
    and H: "st_historical_block_hashes st' = st_historical_block_hashes st @ ext"
    and n: "validatorCount st' = validatorCount st"
  shows "votes_ok st' (v\<lparr>v_justified_slots := extendToSlot (v_justified_slots v)
    (cp_slot (v_latest_finalized v)) (length (st_historical_block_hashes st') - 1)\<rparr>)"
proof -
  let ?f = "cp_slot (v_latest_finalized v)" and ?j = "cp_slot (v_latest_justified v)"
  let ?H = "st_historical_block_hashes st" and ?b = "v_justified_slots v"
  let ?t = "length (st_historical_block_hashes st') - 1"
  from ok have v: "?f \<le> ?j" "?j < length ?H" "?f + 1 + length ?b = length ?H"
      "cp_root (v_latest_finalized v) = ?H ! ?f" "cp_root (v_latest_justified v) = ?H ! ?j"
      "slot_bit ?b ?f ?j" "omap_wf (v_justifications v)"
      "\<forall>p \<in> set (v_justifications v). tracked_ok st ?f p"
    by (simp_all add: votes_ok_def Let_def)
  have "slot_bit (extendToSlot ?b ?f ?t) ?f ?j"
    using v by (simp add: slot_bit_extendToSlot)
  moreover have "?f + 1 + length (extendToSlot ?b ?f ?t) = length (st_historical_block_hashes st')"
    using v(3) H by (simp add: length_extendToSlot)
  moreover have "tracked_ok st' ?f p" if "tracked_ok st ?f p" for p
    using that v(1,2) by (auto simp: tracked_ok_def H n)
  ultimately show ?thesis
    using v by (auto simp: votes_ok_def Let_def H nth_append)
qed

lemma processBlockHeader_eq_Inr:
  "processBlockHeader z st block = Inr st' \<longleftrightarrow>
     blk_slot block = st_slot st \<and> hdr_slot (st_latest_block_header st) < blk_slot block \<and>
     validatorCount st \<noteq> 0 \<and> blk_proposer_index block = blk_slot block mod validatorCount st \<and>
     blk_parent_root block = hash_header z (st_latest_block_header st) \<and>
     st' = (if hdr_slot (st_latest_block_header st) = 0
            then st\<lparr>st_latest_justified := (st_latest_justified st)\<lparr>cp_root := blk_parent_root block\<rparr>,
                    st_latest_finalized := (st_latest_finalized st)\<lparr>cp_root := blk_parent_root block\<rparr>\<rparr>
            else st)
           \<lparr>st_historical_block_hashes := st_historical_block_hashes st @ blk_parent_root block #
              replicate (blk_slot block - hdr_slot (st_latest_block_header st) - 1) kZeroHash,
            st_justified_slots := extendToSlot (st_justified_slots st)
              (cp_slot (st_latest_finalized st)) (blk_slot block - 1),
            st_latest_block_header := (getHeader z block)\<lparr>hdr_state_root := kZeroHash\<rparr>\<rparr>"
  by (auto simp: processBlockHeader_def validateProposerIndex_def Let_def)

lemma processBlockHeader_frame:
  assumes "processBlockHeader z st block = Inr st'"
  shows "blk_slot block = st_slot st" "hdr_slot (st_latest_block_header st) < blk_slot block"
    and "st_slot st' = st_slot st" "st_validators st' = st_validators st"
    and "validatorCount st' = validatorCount st"
    and "st_config st' = st_config st"
    and "loadJustifications st' = loadJustifications st"
    and "st_latest_block_header st' = (getHeader z block)\<lparr>hdr_state_root := kZeroHash\<rparr>"
    and "st_historical_block_hashes st' = st_historical_block_hashes st @ blk_parent_root block #
      replicate (blk_slot block - hdr_slot (st_latest_block_header st) - 1) kZeroHash"
    and "st_justified_slots st' = extendToSlot (st_justified_slots st)
      (cp_slot (st_latest_finalized st)) (blk_slot block - 1)"
    and "cp_slot (st_latest_justified st') = cp_slot (st_latest_justified st)"
    and "cp_slot (st_latest_finalized st') = cp_slot (st_latest_finalized st)"
  using assms unfolding processBlockHeader_eq_Inr
  by (auto simp: validatorCount_def intro!: loadJustifications_cong)

lemma votes_ok_processBlockHeader:
  assumes wf: "wf_state st" and ph: "processBlockHeader z st block = Inr st'"
  shows "length (st_historical_block_hashes st') = blk_slot block"
    and "\<exists>js. loadJustifications st' = Inr js \<and> votes_ok st' (initial_votes st' js)"
proof -
  note frame = processBlockHeader_frame[OF ph]
  let ?b = "blk_slot block" and ?p = "hdr_slot (st_latest_block_header st)"
  let ?H = "st_historical_block_hashes st" and ?H' = "st_historical_block_hashes st'"
  from wf have lenH: "length ?H = ?p" by (simp add: wf_state_def)
  with frame show len: "length ?H' = ?b" by simp
  from wf obtain js where js: "loadJustifications st = Inr js"
    and ok: "if ?H = [] then js = [] \<and> st_justified_slots st = [] \<and>
        cp_slot (st_latest_justified st) = 0 \<and> cp_slot (st_latest_finalized st) = 0
      else votes_ok st (initial_votes st js)"
    by (auto simp: wf_state_def split: sum.splits)
  have "votes_ok st' (initial_votes st' js)"
  proof (cases "?p = 0")
    case True
    from ph True have roots: "cp_root (st_latest_justified st') = blk_parent_root block"
        "cp_root (st_latest_finalized st') = blk_parent_root block"
      by (auto simp: processBlockHeader_eq_Inr)
    from True lenH ok have "js = []" "st_justified_slots st = []"
        "cp_slot (st_latest_justified st) = 0" "cp_slot (st_latest_finalized st) = 0" "?H = []"
      by auto
    then show ?thesis
      using frame True len by (simp add: votes_ok_def Let_def roots slot_bit_def length_extendToSlot)
  next
    case False
    with ph have same: "st_latest_justified st' = st_latest_justified st"
        "st_latest_finalized st' = st_latest_finalized st"
      by (auto simp: processBlockHeader_eq_Inr)
    from False lenH have "?H \<noteq> []" by auto
    with ok have "votes_ok st (initial_votes st js)" by simp
    from votes_ok_extend[OF this frame(9) frame(5), unfolded len]
    show ?thesis by (simp add: initial_votes_def same frame(10))
  qed
  with js frame show "\<exists>js. loadJustifications st' = Inr js \<and> votes_ok st' (initial_votes st' js)"
    by auto
qed

subsection \<open>The transition\<close>

text \<open>A successful transition, taken apart into its three phases.\<close>

lemma stateTransition_phases:
  assumes wf: "wf_state st" and blk: "blk_slot block < 2 ^ 64"
    and tr: "stateTransition z block st check = Inr st'"
  obtains st1 st2 js v where
    "processSlots z st (blk_slot block) = Inr st1" "wf_state st1"
    "processBlockHeader z st1 block = Inr st2"
    "loadJustifications st2 = Inr js" "votes_ok st2 (initial_votes st2 js)"
    "vote_steps st2 (bd_attestations (blk_body block)) (initial_votes st2 js) v"
    "votes_ok st2 v" "st' = store_votes st2 v"
    "check \<longrightarrow> blk_state_root block = hash_state z st'"
proof -
  from tr obtain st1 st2 where
    st1: "processSlots z st (blk_slot block) = Inr st1" and
    st2: "processBlockHeader z st1 block = Inr st2" and
    pa: "processAttestations st2 (bd_attestations (blk_body block)) = Inr st'" and
    chk: "check \<longrightarrow> blk_state_root block = hash_state z st'"
    by (auto simp: stateTransition_def processBlock_def processOperations_def result_iffs
        split: if_splits)
  have wf1: "wf_state st1" by (rule wf_processSlots[OF wf st1 blk])
  from votes_ok_processBlockHeader(2)[OF wf1 st2] obtain js where
    js: "loadJustifications st2 = Inr js" "votes_ok st2 (initial_votes st2 js)" by blast
  have "length (st_historical_block_hashes st2) < 2 ^ 64"
    using votes_ok_processBlockHeader(1)[OF wf1 st2] blk by simp
  from processAttestations_ok[OF js this, of "bd_attestations (blk_body block)"] pa obtain v where
    "vote_steps st2 (bd_attestations (blk_body block)) (initial_votes st2 js) v"
    "votes_ok st2 v" "st' = store_votes st2 v" by auto
  with st1 wf1 st2 js chk that show ?thesis by blast
qed

lemma wf_stateTransition:
  assumes "wf_state st" "blk_slot block < 2 ^ 64" "stateTransition z block st check = Inr st'"
  shows "wf_state st'"
proof -
  from stateTransition_phases[OF assms] obtain st1 st2 v where
    s: "processSlots z st (blk_slot block) = Inr st1" "wf_state st1"
      "processBlockHeader z st1 block = Inr st2" "votes_ok st2 v" "st' = store_votes st2 v" by metis
  note frame = processBlockHeader_frame[OF s(3)] votes_ok_processBlockHeader(1)[OF s(2,3)]
  show ?thesis unfolding s(5)
    using s(2) frame by (intro wf_store_votes s(4)) (auto simp: wf_state_def getHeader_def)
qed

subsection \<open>Who voted\<close>

text \<open>
  The validators whose vote for a root is on record in a state or comes with the
  attestations of a block.
\<close>

definition tracked_vote :: "State \<Rightarrow> hash \<Rightarrow> validator_index \<Rightarrow> bool" where
  "tracked_vote st r i =
     (case loadJustifications st of
        Inl e \<Rightarrow> False
      | Inr js \<Rightarrow> (case map_of js r of None \<Rightarrow> False | Some bits \<Rightarrow> i < length bits \<and> bits ! i))"

definition voters :: "State \<Rightarrow> AggregatedAttestation list \<Rightarrow> hash \<Rightarrow> validator_index set" where
  "voters st atts r =
     {i \<in> {..<validatorCount st}. tracked_vote st r i \<or>
        (\<exists>att \<in> set atts. cp_root (ad_target (aa_data att)) = r \<and>
           AggregationBits_contains (aa_bits att) i)}"

definition supermajority :: "nat \<Rightarrow> validator_index set \<Rightarrow> bool" where
  "supermajority n A \<longleftrightarrow> 3 * card A \<ge> 2 * n"

lemma finite_voters [simp]: "finite (voters st atts r)"
  and voters_range: "voters st atts r \<subseteq> {..<validatorCount st}"
  by (auto simp: voters_def)

lemma supermajority_mono: "supermajority n A \<Longrightarrow> A \<subseteq> B \<Longrightarrow> finite B \<Longrightarrow> supermajority n B"
  unfolding supermajority_def using card_mono[of B A] by linarith

text \<open>Any two supermajorities share at least a third of the validators.\<close>

lemma supermajority_intersection:
  assumes "A \<subseteq> {..<n}" "B \<subseteq> {..<n}" "supermajority n A" "supermajority n B"
  shows "3 * card (A \<inter> B) \<ge> n"
proof -
  have fin: "finite A" "finite B" using assms finite_subset by blast+
  have "card A + card B = card (A \<union> B) + card (A \<inter> B)" using fin by (rule card_Un_Int)
  moreover have "card (A \<union> B) \<le> n" using card_mono[of "{..<n}" "A \<union> B"] assms by simp
  ultimately show ?thesis using assms(3,4) unfolding supermajority_def by linarith
qed

lemma supermajority_bits:
  assumes "length bits = n" "3 * length (filter id bits) \<ge> 2 * n"
    and "\<forall>i < n. bits ! i \<longrightarrow> i \<in> A" "finite A"
  shows "supermajority n A"
proof -
  have "length (filter id bits) = card {i. i < n \<and> bits ! i}"
    using assms(1) by (simp add: length_filter_conv_card)
  then have "supermajority n {i. i < n \<and> bits ! i}" using assms(2) by (simp add: supermajority_def)
  then show ?thesis using assms(3,4) by (rule_tac supermajority_mono) auto
qed

text \<open>
  The soundness invariant of the loop, relative to the vote state \<open>v0\<close> it started from: the
  recorded votes are votes of \<open>V\<close>, and what became justified had two thirds of \<open>V\<close>.
\<close>

definition newly_ok :: "State \<Rightarrow> (hash \<Rightarrow> nat set) \<Rightarrow> votes \<Rightarrow> slot \<Rightarrow> bool" where
  "newly_ok st V v0 x \<longleftrightarrow>
     slot_bit (v_justified_slots v0) (cp_slot (v_latest_finalized v0)) x \<or>
     supermajority (validatorCount st) (V (st_historical_block_hashes st ! x))"

definition votes_sound :: "State \<Rightarrow> (hash \<Rightarrow> nat set) \<Rightarrow> votes \<Rightarrow> votes \<Rightarrow> bool" where
  "votes_sound st V v0 v \<longleftrightarrow>
     (\<forall>p \<in> set (v_justifications v). \<forall>i < validatorCount st. snd p ! i \<longrightarrow> i \<in> V (fst p)) \<and>
     (\<forall>x. cp_slot (v_latest_finalized v) < x \<and> x < length (st_historical_block_hashes st) \<and>
        slot_bit (v_justified_slots v) (cp_slot (v_latest_finalized v)) x \<longrightarrow> newly_ok st V v0 x)"

definition finalization_ok ::
  "State \<Rightarrow> (hash \<Rightarrow> nat set) \<Rightarrow> AggregatedAttestation list \<Rightarrow> votes \<Rightarrow> votes \<Rightarrow> bool" where
  "finalization_ok st V atts v0 v \<longleftrightarrow>
     v_latest_finalized v = v_latest_finalized v0 \<or>
     (\<exists>att \<in> set atts. \<exists>f.
        v_latest_finalized v = ad_source (aa_data att) \<and>
        cp_slot (v_latest_finalized v0) \<le> f \<and> f < cp_slot (v_latest_finalized v) \<and>
        cp_slot (v_latest_finalized v) < cp_slot (ad_target (aa_data att)) \<and>
        cp_slot (ad_target (aa_data att)) < length (st_historical_block_hashes st) \<and>
        (\<forall>x. cp_slot (v_latest_finalized v) < x \<and> x < cp_slot (ad_target (aa_data att)) \<longrightarrow>
           \<not> justifiable_delta (x - f)) \<and>
        cp_root (ad_target (aa_data att))
          = st_historical_block_hashes st ! cp_slot (ad_target (aa_data att)) \<and>
        supermajority (validatorCount st) (V (cp_root (ad_target (aa_data att)))) \<and>
        newly_ok st V v0 (cp_slot (v_latest_finalized v)))"

lemma vote_step_cases:
  assumes step: "vote_step st att v v'" and ok: "votes_ok st v"
    and V: "\<And>r. finite (V r)"
    and att: "\<forall>i < validatorCount st. AggregationBits_contains (aa_bits att) i \<longrightarrow>
        i \<in> V (cp_root (ad_target (aa_data att)))"
    and sound: "votes_sound st V v0 v"
  obtains "v' = v"
  | bits where "att_accepted st v (aa_data att)"
      "v' = v\<lparr>v_justifications := omap_put (cp_root (ad_target (aa_data att))) bits
                (v_justifications v)\<rparr>"
      "\<forall>i < validatorCount st. bits ! i \<longrightarrow> i \<in> V (cp_root (ad_target (aa_data att)))"
  | "att_accepted st v (aa_data att)" "justified_by st (aa_data att) v v'"
      "supermajority (validatorCount st) (V (cp_root (ad_target (aa_data att))))"
proof -
  let ?r = "cp_root (ad_target (aa_data att))"
  have tb: "\<forall>i < validatorCount st. tracked_bits st v ?r ! i \<longrightarrow> i \<in> V ?r"
    using sound by (fastforce simp: tracked_bits_def votes_sound_def split: option.splits
        dest: map_of_SomeD)
  from step consider "v' = v" | bits where "att_accepted st v (aa_data att)"
      "length bits = validatorCount st"
      "\<forall>i < validatorCount st. bits ! i \<longrightarrow> i \<in> V ?r"
      "if 3 * length (filter id bits) \<ge> 2 * validatorCount st
       then justified_by st (aa_data att) v v'
       else v' = v\<lparr>v_justifications := omap_put ?r bits (v_justifications v)\<rparr>"
    using tb att unfolding vote_step_def Let_def by metis
  then show thesis
  proof cases
    case (2 bits)
    then show thesis
      using that(2,3) supermajority_bits[OF 2(2) _ 2(3) V] by (cases
        "3 * length (filter id bits) \<ge> 2 * validatorCount st") auto
  qed (use that in blast)
qed

lemma votes_sound_step:
  assumes "vote_step st att v v'" "votes_ok st v" "\<And>r. finite (V r)"
    and "\<forall>i < validatorCount st. AggregationBits_contains (aa_bits att) i \<longrightarrow>
        i \<in> V (cp_root (ad_target (aa_data att)))"
    and sound: "votes_sound st V v0 v"
  shows "votes_sound st V v0 v'"
proof (rule vote_step_cases[OF assms])
  assume "v' = v"
  then show ?thesis using sound by simp
next
  fix bits
  assume "v' = v\<lparr>v_justifications := omap_put (cp_root (ad_target (aa_data att))) bits
      (v_justifications v)\<rparr>"
    "\<forall>i < validatorCount st. bits ! i \<longrightarrow> i \<in> V (cp_root (ad_target (aa_data att)))"
  then show ?thesis using sound omap_put_set unfolding votes_sound_def by fastforce
next
  assume acc: "att_accepted st v (aa_data att)" and j: "justified_by st (aa_data att) v v'"
    and s: "supermajority (validatorCount st) (V (cp_root (ad_target (aa_data att))))"
  from j have js: "set (v_justifications v') \<subseteq> set (v_justifications v)"
    and mono: "cp_slot (v_latest_finalized v) \<le> cp_slot (v_latest_finalized v')"
    by (auto simp: justified_by_def Let_def)
  have "newly_ok st V v0 x"
    if x: "cp_slot (v_latest_finalized v') < x" "x < length (st_historical_block_hashes st)"
      "slot_bit (v_justified_slots v') (cp_slot (v_latest_finalized v')) x" for x
  proof (cases "x = cp_slot (ad_target (aa_data att))")
    case True
    then show ?thesis using s acc by (simp add: newly_ok_def att_accepted_def Let_def)
  next
    case False
    with j x have "slot_bit (v_justified_slots v) (cp_slot (v_latest_finalized v)) x"
      by (simp add: justified_by_def Let_def)
    with x mono sound show ?thesis by (simp add: votes_sound_def)
  qed
  with js sound show ?thesis unfolding votes_sound_def by blast
qed

lemma finalization_ok_step:
  assumes "vote_step st att v v'" "votes_ok st v" "\<And>r. finite (V r)"
    and "\<forall>i < validatorCount st. AggregationBits_contains (aa_bits att) i \<longrightarrow>
        i \<in> V (cp_root (ad_target (aa_data att)))"
    and sound: "votes_sound st V v0 v" and "att \<in> set atts"
    and fin: "finalization_ok st V atts v0 v"
    and f0: "cp_slot (v_latest_finalized v0) \<le> cp_slot (v_latest_finalized v)"
  shows "finalization_ok st V atts v0 v'"
proof (rule vote_step_cases[OF assms(1-5)])
  assume "v' = v"
  then show ?thesis using fin by simp
next
  fix bits
  assume "v' = v\<lparr>v_justifications := omap_put (cp_root (ad_target (aa_data att))) bits
      (v_justifications v)\<rparr>"
  then show ?thesis using fin by (simp add: finalization_ok_def)
next
  let ?s = "ad_source (aa_data att)" and ?f = "v_latest_finalized v"
  assume acc: "att_accepted st v (aa_data att)" and j: "justified_by st (aa_data att) v v'"
    and s: "supermajority (validatorCount st) (V (cp_root (ad_target (aa_data att))))"
  show ?thesis
  proof (cases "v_latest_finalized v' = ?f")
    case True
    then show ?thesis using fin by (simp add: finalization_ok_def)
  next
    case False
    with j have src: "v_latest_finalized v' = ?s" "cp_slot ?f \<le> cp_slot ?s"
        "\<forall>x. cp_slot ?s < x \<and> x < cp_slot (ad_target (aa_data att)) \<longrightarrow>
          \<not> justifiable_delta (x - cp_slot ?f)"
      by (auto simp: justified_by_def Let_def)
    have "cp_root ?f = st_historical_block_hashes st ! cp_slot ?f"
      using assms(2) by (simp add: votes_ok_def Let_def)
    moreover have "cp_root ?s = st_historical_block_hashes st ! cp_slot ?s"
      using acc by (simp add: att_accepted_def Let_def)
    ultimately have lt: "cp_slot ?f < cp_slot ?s"
      using False src by (cases "cp_slot ?f = cp_slot ?s") auto
    from acc have "slot_bit (v_justified_slots v) (cp_slot ?f) (cp_slot ?s)"
      "cp_slot ?s < cp_slot (ad_target (aa_data att))"
      "cp_slot (ad_target (aa_data att)) < length (st_historical_block_hashes st)"
      "cp_root (ad_target (aa_data att))
        = st_historical_block_hashes st ! cp_slot (ad_target (aa_data att))"
      by (simp_all add: att_accepted_def Let_def)
    moreover from this sound lt have "newly_ok st V v0 (cp_slot ?s)" by (simp add: votes_sound_def)
    ultimately show ?thesis
      unfolding finalization_ok_def src(1) using lt src(3) s f0 assms(6) by blast
  qed
qed

lemma votes_sound_steps:
  assumes steps: "vote_steps st atts v0 v" and ok: "votes_ok st v0"
    and init: "\<forall>p \<in> set (v_justifications v0). \<forall>i < validatorCount st.
        snd p ! i \<longrightarrow> i \<in> V (fst p)"
    and V: "\<And>r. finite (V r)"
    and atts: "\<And>att i. att \<in> set atts \<Longrightarrow> i < validatorCount st \<Longrightarrow>
        AggregationBits_contains (aa_bits att) i \<Longrightarrow> i \<in> V (cp_root (ad_target (aa_data att)))"
  shows "votes_sound st V v0 v \<and> finalization_ok st V atts v0 v \<and>
    cp_slot (v_latest_finalized v0) \<le> cp_slot (v_latest_finalized v)"
proof (rule vote_steps_invariant[OF steps ok])
  show "votes_sound st V v0 v0 \<and> finalization_ok st V atts v0 v0 \<and>
      cp_slot (v_latest_finalized v0) \<le> cp_slot (v_latest_finalized v0)"
    using init by (auto simp: votes_sound_def finalization_ok_def newly_ok_def)
  fix att v v'
  assume a: "att \<in> set atts" "vote_step st att v v'" "votes_ok st v"
    and I: "votes_sound st V v0 v \<and> finalization_ok st V atts v0 v \<and>
      cp_slot (v_latest_finalized v0) \<le> cp_slot (v_latest_finalized v)"
  from a(1) atts have "\<forall>i < validatorCount st. AggregationBits_contains (aa_bits att) i \<longrightarrow>
      i \<in> V (cp_root (ad_target (aa_data att)))" by blast
  from votes_sound_step[where V = V, OF a(2,3) V this]
    finalization_ok_step[where V = V, OF a(2,3) V this _ a(1)]
    vote_step_finalized_mono[OF a(2)] I
  show "votes_sound st V v0 v' \<and> finalization_ok st V atts v0 v' \<and>
      cp_slot (v_latest_finalized v0) \<le> cp_slot (v_latest_finalized v')"
    by (meson order_trans)
qed

text \<open>Both facts for a whole transition.\<close>

lemma stateTransition_sound:
  assumes wf: "wf_state st" and blk: "blk_slot block < 2 ^ 64"
    and tr: "stateTransition z block st check = Inr st'"
  obtains st2 js v where
    "st' = store_votes st2 v" "votes_ok st2 v" "validatorCount st2 = validatorCount st"
    "length (st_historical_block_hashes st2) = blk_slot block"
    "cp_slot (st_latest_finalized st2) = cp_slot (st_latest_finalized st)"
    "hdr_slot (st_latest_block_header st) \<noteq> 0 \<Longrightarrow> st_latest_finalized st2 = st_latest_finalized st"
    "st_justified_slots st2 = extendToSlot (st_justified_slots st)
      (cp_slot (st_latest_finalized st)) (blk_slot block - 1)"
    "votes_sound st2 (voters st (bd_attestations (blk_body block))) (initial_votes st2 js) v"
    "finalization_ok st2 (voters st (bd_attestations (blk_body block)))
      (bd_attestations (blk_body block)) (initial_votes st2 js) v"
    "cp_slot (st_latest_finalized st2) \<le> cp_slot (v_latest_finalized v)"
proof -
  let ?atts = "bd_attestations (blk_body block)"
  from stateTransition_phases[OF assms] obtain st1 st2 js v where
    s: "processSlots z st (blk_slot block) = Inr st1" "wf_state st1"
      "processBlockHeader z st1 block = Inr st2"
      "loadJustifications st2 = Inr js" "votes_ok st2 (initial_votes st2 js)"
      "vote_steps st2 ?atts (initial_votes st2 js) v" "votes_ok st2 v" "st' = store_votes st2 v"
    by metis
  from processSlots_ok[OF s(1)] obtain sr where st1: "st1 = st\<lparr>st_slot := blk_slot block,
      st_latest_block_header := (st_latest_block_header st)\<lparr>hdr_state_root := sr\<rparr>\<rparr>" by blast
  note frame = processBlockHeader_frame[OF s(3)]
  have vc: "validatorCount st2 = validatorCount st" using frame(5) by (simp add: st1 validatorCount_def)
  have load: "loadJustifications st = Inr js"
    using frame(7) s(4) loadJustifications_cong[of st1 st] by (simp add: st1)
  have fin2: "st_latest_finalized st2 = st_latest_finalized st"
    if "hdr_slot (st_latest_block_header st) \<noteq> 0"
    using s(3) that by (auto simp: processBlockHeader_eq_Inr st1)
  have wfjs: "distinct (map fst js)" "\<forall>p \<in> set js. length (snd p) = validatorCount st2"
    using s(5) by (auto simp: votes_ok_def tracked_ok_def Let_def)
  have init: "\<forall>p \<in> set js. \<forall>i < validatorCount st2. snd p ! i \<longrightarrow> i \<in> voters st ?atts (fst p)"
    using wfjs by (auto simp: voters_def tracked_vote_def load vc)
  have "votes_sound st2 (voters st ?atts) (initial_votes st2 js) v \<and>
      finalization_ok st2 (voters st ?atts) ?atts (initial_votes st2 js) v \<and>
      cp_slot (st_latest_finalized st2) \<le> cp_slot (v_latest_finalized v)"
    using votes_sound_steps[OF s(6,5), of "voters st ?atts"] init vc
    by (auto simp: voters_def)
  then show ?thesis
    using that[OF s(8,7) vc votes_ok_processBlockHeader(1)[OF s(2,3)]] fin2 frame(10,12)
    by (simp add: st1) blast
qed

end
