(* ===== verification/Chains.thy ===== *)
theory Chains
  imports StateTransition
begin

text \<open>
  The chains of states the state transition function builds from a genesis state, and
  what holds along them: well-formedness, soundness of justification and finalization,
  irreversibility of finality, the hash links between blocks, and the ways a transition
  can fail.
\<close>

subsection \<open>A small chain\<close>

text \<open>
  A concrete instance of the SSZ parameter (a hash is an offset plus the slot), three
  validators, and four blocks that justify and finalize slots, as inputs of the witnesses.
\<close>

definition demo_ssz :: ssz where
  "demo_ssz =
     \<lparr>hash_header = (\<lambda>h. 1000 + hdr_slot h), hash_body = (\<lambda>b. 77),
      hash_state = (\<lambda>s. 500 + st_slot s), hash_attdata = (\<lambda>a. 300 + ad_slot a),
      enc_header = (\<lambda>_. []), dec_header = (\<lambda>_. None), enc_body = (\<lambda>_. []),
      dec_body = (\<lambda>_. None), enc_signatures = (\<lambda>_. []), dec_signatures = (\<lambda>_. None),
      enc_state = (\<lambda>_. []), dec_state = (\<lambda>_. None), enc_hashes = (\<lambda>_. []),
      dec_hashes = (\<lambda>_. None)\<rparr>"

definition demo_checkpoint :: "slot \<Rightarrow> Checkpoint" where
  "demo_checkpoint s = \<lparr>cp_root = 1000 + s, cp_slot = s\<rparr>"

definition demo_attestation :: "slot \<Rightarrow> slot \<Rightarrow> AggregatedAttestation" where
  "demo_attestation s t =
     \<lparr>aa_bits = [True, True, False],
      aa_data = \<lparr>ad_slot = t, ad_head = demo_checkpoint t, ad_target = demo_checkpoint t,
                 ad_source = demo_checkpoint s\<rparr>\<rparr>"

definition demo_block :: "slot \<Rightarrow> AggregatedAttestation list \<Rightarrow> Block" where
  "demo_block s atts =
     \<lparr>blk_slot = s, blk_proposer_index = s mod 3, blk_parent_root = 1000 + (s - 1),
      blk_state_root = 500 + s, blk_body = \<lparr>bd_attestations = atts\<rparr>\<rparr>"

definition demo_validators :: "Validator list" where
  "demo_validators =
     map (\<lambda>i. \<lparr>va_attestation_pubkey = [], va_proposal_pubkey = [], va_index = i\<rparr>) [0, 1, 2]"

definition demo_state :: "slot \<Rightarrow> slot \<Rightarrow> slot \<Rightarrow> bool list \<Rightarrow> State" where
  "demo_state n j f bits =
     \<lparr>st_config = \<lparr>cfg_genesis_time = 0\<rparr>, st_slot = n,
      st_latest_block_header =
        \<lparr>hdr_slot = n, hdr_proposer_index = n mod 3, hdr_parent_root = 1000 + (n - 1),
         hdr_state_root = 0, hdr_body_root = 77\<rparr>,
      st_latest_justified = demo_checkpoint j, st_latest_finalized = demo_checkpoint f,
      st_historical_block_hashes = map (\<lambda>i. 1000 + i) [0..<n], st_justified_slots = bits,
      st_validators = demo_validators, st_justifications_roots = [],
      st_justifications_validators = []\<rparr>"

lemma demo_simps [simp]:
  "blk_slot (demo_block s atts) = s"
  "bd_attestations (blk_body (demo_block s atts)) = atts"
  "cp_slot (demo_checkpoint s) = s" "cp_root (demo_checkpoint s) = 1000 + s"
  "st_latest_justified (demo_state n j f bits) = demo_checkpoint j"
  "st_latest_finalized (demo_state n j f bits) = demo_checkpoint f"
  "st_justified_slots (demo_state n j f bits) = bits"
  "st_historical_block_hashes (demo_state n j f bits) = map (\<lambda>i. 1000 + i) [0..<n]"
  "st_slot (demo_state n j f bits) = n"
  "validatorCount (demo_state n j f bits) = 3"
  "ad_source (aa_data (demo_attestation s t)) = demo_checkpoint s"
  "ad_target (aa_data (demo_attestation s t)) = demo_checkpoint t"
  by (simp_all add: demo_block_def demo_checkpoint_def demo_state_def validatorCount_def
      demo_validators_def demo_attestation_def)

definition demo_genesis :: State where
  "demo_genesis = generateGenesisState demo_ssz \<lparr>cfg_genesis_time = 0\<rparr> demo_validators"

lemmas stf_eval =
  stateTransition_def processSlots_def processSlots_loop.simps processSlot_def processBlock_def
  processOperations_def processBlockHeader_def validateProposerIndex_def extendToSlot_def
  justifiedIndexAfter_def getHeader_def validatorCount_def processAttestations_def
  loadJustifications_def load_segments.simps build_root_to_slot_def processAttestation_def
  check_attestation_def value_or_throw_def isSlotJustified_def isJustifiableSlot_def
  justifiable_delta_def mark_vote_def AggregationBits_iter_def justify_target_def
  withJustified_def any_justifiable.simps finalize_source_def setJustifications_def
  shiftWindow_def omap_erase_def map_at_def kZeroHash_def Let_def u64_add_def u64_sub_def upt_rec

lemmas demo_eval =
  demo_ssz_def demo_checkpoint_def demo_attestation_def demo_block_def demo_validators_def
  generateGenesisState_def demo_state_def demo_genesis_def



lemma demo_step_1:
  "stateTransition demo_ssz (demo_block 1 []) demo_genesis True = Inr (demo_state 1 0 0 [])"
  by (simp add: demo_eval stf_eval)

lemma demo_step_2:
  "stateTransition demo_ssz (demo_block 2 [demo_attestation 0 1]) (demo_state 1 0 0 []) True
     = Inr (demo_state 2 1 0 [True])"
  by (simp add: demo_eval stf_eval)

lemma demo_step_3:
  "stateTransition demo_ssz (demo_block 3 [demo_attestation 1 2]) (demo_state 2 1 0 [True]) True
     = Inr (demo_state 3 2 1 [True])"
  by (simp add: demo_eval stf_eval)

lemma demo_step_4:
  "stateTransition demo_ssz (demo_block 4 [demo_attestation 2 3]) (demo_state 3 2 1 [True]) True
     = Inr (demo_state 4 3 2 [True])"
  by (simp add: demo_eval stf_eval)

lemma demo_step_5:
  "stateTransition demo_ssz (demo_block 5 [demo_attestation 0 4]) (demo_state 4 3 2 [True]) True
     = Inl (Exn AssertionFailed)"
  by (simp add: demo_eval stf_eval)

lemma demo_contains [simp]:
  "AggregationBits_contains (aa_bits (demo_attestation s t)) i \<longleftrightarrow> i = 0 \<or> i = 1"
  by (auto simp: demo_attestation_def AggregationBits_contains_def nth_Cons' less_Suc_eq)

lemma demo_voters: "voters (demo_state n j f bits) [demo_attestation s t] (1000 + t) = {0, 1}"
proof -
  have "loadJustifications (demo_state n j f bits) = Inr []"
    by (simp add: loadJustifications_def demo_state_def)
  then show ?thesis by (auto simp: voters_def tracked_vote_def)
qed

subsection \<open>Chains\<close>

text \<open>The states a chain reaches from a genesis state, and the descendants of a state.\<close>

inductive chain_state :: "ssz \<Rightarrow> State \<Rightarrow> bool" for z where
  chain_genesis: "validators \<noteq> [] \<Longrightarrow> chain_state z (generateGenesisState z config validators)"
| chain_step:
    "chain_state z st \<Longrightarrow> blk_slot block < 2 ^ 64 \<Longrightarrow>
     stateTransition z block st check = Inr st' \<Longrightarrow> chain_state z st'"

inductive descends :: "ssz \<Rightarrow> State \<Rightarrow> State \<Rightarrow> bool" for z where
  descends_refl: "descends z st st"
| descends_step:
    "descends z st st1 \<Longrightarrow> blk_slot block < 2 ^ 64 \<Longrightarrow>
     stateTransition z block st1 check = Inr st2 \<Longrightarrow> descends z st st2"

lemma chain_state_wf: "chain_state z st \<Longrightarrow> wf_state st"
  by (induction rule: chain_state.induct) (auto intro: wf_generateGenesisState wf_stateTransition)

lemma descends_chain: "descends z st st' \<Longrightarrow> chain_state z st \<Longrightarrow> chain_state z st'"
  by (induction rule: descends.induct) (auto intro: chain_step)

lemma demo_chain:
  "chain_state demo_ssz demo_genesis"
  "chain_state demo_ssz (demo_state 1 0 0 [])"
  "chain_state demo_ssz (demo_state 2 1 0 [True])"
  "chain_state demo_ssz (demo_state 3 2 1 [True])"
  "chain_state demo_ssz (demo_state 4 3 2 [True])"
proof -
  show 0: "chain_state demo_ssz demo_genesis"
    unfolding demo_genesis_def by (rule chain_genesis) (simp add: demo_validators_def)
  show 1: "chain_state demo_ssz (demo_state 1 0 0 [])"
    by (rule chain_step[OF 0 _ demo_step_1]) (simp add: demo_block_def)
  show 2: "chain_state demo_ssz (demo_state 2 1 0 [True])"
    by (rule chain_step[OF 1 _ demo_step_2]) (simp add: demo_block_def)
  show 3: "chain_state demo_ssz (demo_state 3 2 1 [True])"
    by (rule chain_step[OF 2 _ demo_step_3]) (simp add: demo_block_def)
  show "chain_state demo_ssz (demo_state 4 3 2 [True])"
    by (rule chain_step[OF 3 _ demo_step_4]) (simp add: demo_block_def)
qed

text \<open>What a transition changes outside the vote counting.\<close>

lemma stateTransition_frame:
  assumes "wf_state st" "blk_slot block < 2 ^ 64" "stateTransition z block st check = Inr st'"
  shows "st_slot st' = blk_slot block" "st_slot st < blk_slot block"
    and "st_validators st' = st_validators st" "st_config st' = st_config st"
    and "st_latest_block_header st' = (getHeader z block)\<lparr>hdr_state_root := kZeroHash\<rparr>"
    and "st_historical_block_hashes st' = st_historical_block_hashes st @ blk_parent_root block #
      replicate (blk_slot block - hdr_slot (st_latest_block_header st) - 1) kZeroHash"
    and "blk_proposer_index block = blk_slot block mod validatorCount st"
    and "check \<Longrightarrow> blk_state_root block = hash_state z st'"
proof -
  from stateTransition_phases[OF assms] obtain st1 st2 v where
    s: "processSlots z st (blk_slot block) = Inr st1" "processBlockHeader z st1 block = Inr st2"
      "st' = store_votes st2 v" "check \<longrightarrow> blk_state_root block = hash_state z st'" by metis
  from processSlots_ok[OF s(1)] obtain sr where st1: "st_slot st < blk_slot block"
      "st1 = st\<lparr>st_slot := blk_slot block,
         st_latest_block_header := (st_latest_block_header st)\<lparr>hdr_state_root := sr\<rparr>\<rparr>" by blast
  note f = processBlockHeader_frame[OF s(2)]
  show "st_slot st' = blk_slot block" "st_slot st < blk_slot block"
    "st_validators st' = st_validators st" "st_config st' = st_config st"
    "st_latest_block_header st' = (getHeader z block)\<lparr>hdr_state_root := kZeroHash\<rparr>"
    "st_historical_block_hashes st' = st_historical_block_hashes st @ blk_parent_root block #
      replicate (blk_slot block - hdr_slot (st_latest_block_header st) - 1) kZeroHash"
    using f st1 by (simp_all add: s(3))
  show "blk_proposer_index block = blk_slot block mod validatorCount st"
    using s(2) st1 by (simp add: processBlockHeader_eq_Inr validatorCount_def)
  show "check \<Longrightarrow> blk_state_root block = hash_state z st'" using s(4) by blast
qed

text \<open>Slot processing fills in the state root once, with the hash of the parent state.\<close>

lemma processSlots_loop_filled:
  assumes "hdr_state_root (st_latest_block_header st) \<noteq> kZeroHash"
  shows "processSlots_loop z slot st = st\<lparr>st_slot := max (st_slot st) slot\<rparr>"
  using assms
proof (induction z slot st rule: processSlots_loop.induct)
  case (1 z slot st)
  show ?case
  proof (cases "st_slot st < slot")
    case True
    have "processSlot z st = st\<lparr>st_slot := st_slot st + 1\<rparr>"
      using "1.prems" by (simp add: processSlot_def)
    then show ?thesis using True "1.IH"[OF True] "1.prems"
      by (simp add: processSlots_loop.simps[of z slot st] max_def)
  next
    case False
    then show ?thesis by (simp add: processSlots_loop.simps[of z slot st] max_def)
  qed
qed

lemma processSlots_header:
  assumes "processSlots z st slot = Inr st'"
    and "hdr_state_root (st_latest_block_header st) = kZeroHash" "hash_state z st \<noteq> kZeroHash"
  shows "st' = st\<lparr>st_slot := slot, st_latest_block_header :=
    (st_latest_block_header st)\<lparr>hdr_state_root := hash_state z st\<rparr>\<rparr>"
proof -
  from assms(1) have lt: "st_slot st < slot" and st': "st' = processSlots_loop z slot st"
    by (auto simp: processSlots_def split: if_splits)
  have "processSlots_loop z slot st = processSlots_loop z slot (processSlot z st)"
    using lt by (simp add: processSlots_loop.simps[of z slot st])
  also have "processSlot z st = st\<lparr>st_slot := st_slot st + 1, st_latest_block_header :=
      (st_latest_block_header st)\<lparr>hdr_state_root := hash_state z st\<rparr>\<rparr>"
    using assms(2) by (simp add: processSlot_def)
  finally show ?thesis
    using lt assms(3) by (simp add: st' processSlots_loop_filled max_def)
qed

lemma chain_state_header: "chain_state z st \<Longrightarrow> hdr_state_root (st_latest_block_header st) = kZeroHash"
proof (induction rule: chain_state.induct)
  case (chain_step st block check st')
  from stateTransition_frame(5)[OF chain_state_wf[OF chain_step.hyps(1)] chain_step.hyps(2,3)]
  show ?case by simp
qed (simp add: generateGenesisState_def)

lemma chain_parent_root:
  assumes "chain_state z st" "blk_slot block < 2 ^ 64" "stateTransition z block st check = Inr st'"
    and "hash_state z st \<noteq> kZeroHash"
  shows "blk_parent_root block =
    hash_header z ((st_latest_block_header st)\<lparr>hdr_state_root := hash_state z st\<rparr>)"
proof -
  from stateTransition_phases[OF chain_state_wf[OF assms(1)] assms(2,3)] obtain st1 st2 where
    s: "processSlots z st (blk_slot block) = Inr st1" "processBlockHeader z st1 block = Inr st2"
    by metis
  from processSlots_header[OF s(1) chain_state_header[OF assms(1)] assms(4)] s(2)
  show ?thesis by (simp add: processBlockHeader_eq_Inr)
qed

lemma stateTransition_error:
  assumes wf: "wf_state st" and blk: "blk_slot block < 2 ^ 64"
    and tr: "stateTransition z block st check = Inl e"
  shows "(\<exists>c. e = E_STF c) \<or>
    e = Exn AssertionFailed \<and> stale_source st (bd_attestations (blk_body block))"
proof (cases "processSlots z st (blk_slot block)")
  case (Inl e')
  then show ?thesis using tr by (auto simp: stateTransition_def processSlots_def split: if_splits)
next
  case (Inr st1)
  have wf1: "wf_state st1" by (rule wf_processSlots[OF wf Inr blk])
  then have n: "validatorCount st1 \<noteq> 0" by (simp add: wf_state_def validatorCount_def)
  have fin1: "st_latest_finalized st1 = st_latest_finalized st"
    using processSlots_ok[OF Inr] by auto
  show ?thesis
  proof (cases "processBlockHeader z st1 block")
    case (Inl e')
    then have "\<exists>c. e' = E_STF c"
      using n by (auto simp: processBlockHeader_def validateProposerIndex_def Let_def
          split: if_splits)
    then show ?thesis using tr Inr Inl by (auto simp: stateTransition_def processBlock_def)
  next
    case st2: (Inr st2)
    from votes_ok_processBlockHeader(2)[OF wf1 st2] obtain js where
      js: "loadJustifications st2 = Inr js" "votes_ok st2 (initial_votes st2 js)" by blast
    have "length (st_historical_block_hashes st2) < 2 ^ 64"
      using votes_ok_processBlockHeader(1)[OF wf1 st2] blk by simp
    note pa = processAttestations_ok[OF js this, of "bd_attestations (blk_body block)"]
    have "stale_source st2 atts = stale_source st atts" for atts
      using processBlockHeader_frame(12)[OF st2] by (simp add: stale_source_def fin1)
    with pa tr Inr st2 show ?thesis
      by (auto simp: stateTransition_def processBlock_def processOperations_def result_iffs
          split: if_splits)
  qed
qed

lemma wf_state_checkpoints:
  assumes "wf_state st" "st_historical_block_hashes st \<noteq> []"
  shows "cp_slot (st_latest_finalized st) < length (st_historical_block_hashes st)"
    and "st_historical_block_hashes st ! cp_slot (st_latest_finalized st)
      = cp_root (st_latest_finalized st)"
    and "hdr_slot (st_latest_block_header st) \<noteq> 0"
  using assms by (auto simp: wf_state_def votes_ok_def Let_def split: sum.splits)

lemma descends_finality:
  assumes "descends z st st'" "chain_state z st" "st_historical_block_hashes st \<noteq> []"
  shows "cp_slot (st_latest_finalized st) \<le> cp_slot (st_latest_finalized st') \<and>
    (\<exists>ext. st_historical_block_hashes st' = st_historical_block_hashes st @ ext) \<and>
    st_historical_block_hashes st' ! cp_slot (st_latest_finalized st)
      = cp_root (st_latest_finalized st)"
  using assms
proof (induction rule: descends.induct)
  case (descends_refl st)
  then show ?case using wf_state_checkpoints[OF chain_state_wf] by simp
next
  case (descends_step st st1 block check st2)
  note wf1 = chain_state_wf[OF descends_chain[OF descends_step.hyps(1) descends_step.prems(1)]]
  from stateTransition_sound[OF wf1 descends_step.hyps(2,3)]
  have "cp_slot (st_latest_finalized st1) \<le> cp_slot (st_latest_finalized st2)"
    by (metis store_votes_simps(5))
  moreover from descends_step obtain ext where
    "st_historical_block_hashes st1 = st_historical_block_hashes st @ ext" by blast
  moreover note stateTransition_frame(6)[OF wf1 descends_step.hyps(2,3)]
    wf_state_checkpoints[OF chain_state_wf[OF descends_step.prems(1)] descends_step.prems(2)]
  moreover from descends_step have
    "cp_slot (st_latest_finalized st) \<le> cp_slot (st_latest_finalized st1)" by blast
  ultimately show ?case by (simp add: nth_append)
qed


subsection \<open>Properties\<close>

text \<open>
  C1.  Every state a chain reaches from genesis is well formed: the history covers all
  slots before the latest block, the justified-slot window starts right after the
  finalized slot and ends with the history, the justified and finalized checkpoints name
  blocks of the history, and the flattened votes belong to unfinalized blocks that are
  short of two thirds.
\<close>

theorem stateTransition_wf: "chain_state z st \<Longrightarrow> wf_state st"
  by (rule chain_state_wf)

theorem stateTransition_wf_witness:
  "chain_state demo_ssz (demo_state 3 2 1 [True]) \<and> wf_state (demo_state 3 2 1 [True])"
  using stateTransition_wf[OF demo_chain(4)] demo_chain(4) by simp

text \<open>A transition that justifies slot \<open>s\<close>.\<close>

definition newly_justifies :: "ssz \<Rightarrow> State \<Rightarrow> Block \<Rightarrow> bool \<Rightarrow> State \<Rightarrow> slot \<Rightarrow> bool" where
  "newly_justifies z st block check st' s \<longleftrightarrow>
     chain_state z st \<and> blk_slot block < 2 ^ 64 \<and> stateTransition z block st check = Inr st' \<and>
     cp_slot (st_latest_finalized st') < s \<and> s < blk_slot block \<and>
     isSlotJustified (st_justified_slots st') (cp_slot (st_latest_finalized st')) s = Some True \<and>
     isSlotJustified (st_justified_slots st) (cp_slot (st_latest_finalized st)) s \<noteq> Some True"

lemma newly_justified_supermajority:
  assumes "chain_state z st" "blk_slot block < 2 ^ 64"
    "stateTransition z block st check = Inr st'"
    "cp_slot (st_latest_finalized st') < s" "s < blk_slot block"
    "isSlotJustified (st_justified_slots st') (cp_slot (st_latest_finalized st')) s = Some True"
    "isSlotJustified (st_justified_slots st) (cp_slot (st_latest_finalized st)) s \<noteq> Some True"
  shows "supermajority (validatorCount st)
    (voters st (bd_attestations (blk_body block)) (st_historical_block_hashes st' ! s))"
proof -
  from stateTransition_sound[OF chain_state_wf[OF assms(1)] assms(2,3)] obtain st2 js v where
    s: "st' = store_votes st2 v" "votes_ok st2 v" "validatorCount st2 = validatorCount st"
      "length (st_historical_block_hashes st2) = blk_slot block"
      "cp_slot (st_latest_finalized st2) = cp_slot (st_latest_finalized st)"
      "st_justified_slots st2 = extendToSlot (st_justified_slots st)
        (cp_slot (st_latest_finalized st)) (blk_slot block - 1)"
      "votes_sound st2 (voters st (bd_attestations (blk_body block))) (initial_votes st2 js) v"
    by metis
  have "slot_bit (v_justified_slots v) (cp_slot (v_latest_finalized v)) s"
    using assms(4-6) s(1,2,4) by (simp add: isSlotJustified_inside votes_ok_def Let_def)
  then have "newly_ok st2 (voters st (bd_attestations (blk_body block))) (initial_votes st2 js) s"
    using s(1,4,7) assms(4,5) by (simp add: votes_sound_def)
  moreover have "\<not> slot_bit (st_justified_slots st2) (cp_slot (st_latest_finalized st2)) s"
    using slot_bit_extendToSlot_notJustified[OF assms(7)] assms(5) s(5,6) by simp
  ultimately show ?thesis by (simp add: newly_ok_def s(1,3))
qed

text \<open>
  C2.  A justified slot that was not justified before the block has the votes of two
  thirds of the validators: votes recorded in the parent state for the root at that slot,
  or cast by an attestation of the block whose target has that root.
\<close>

theorem justification_supermajority:
  assumes "chain_state z st" "blk_slot block < 2 ^ 64"
    "stateTransition z block st check = Inr st'"
    "cp_slot (st_latest_finalized st') < s" "s < blk_slot block"
    "isSlotJustified (st_justified_slots st') (cp_slot (st_latest_finalized st')) s = Some True"
    "isSlotJustified (st_justified_slots st) (cp_slot (st_latest_finalized st)) s \<noteq> Some True"
  shows "supermajority (validatorCount st)
    (voters st (bd_attestations (blk_body block)) (st_historical_block_hashes st' ! s))"
  using assms by (rule newly_justified_supermajority)

theorem justification_supermajority_witness:
  "supermajority 3 (voters (demo_state 2 1 0 [True]) [demo_attestation 1 2] 1002)"
  using justification_supermajority[OF demo_chain(3) _ demo_step_3, of 2]
  by (simp add: isSlotJustified_def justifiedIndexAfter_def)

text \<open>
  C3.  When the finalized slot moves, the new finalized checkpoint is the source of an
  attestation of the block, its slot was justified already or has the votes of two thirds
  of the validators, the target of that attestation has the votes of two thirds, and no
  slot between them is justifiable after the slot finalized before.
\<close>

theorem finalization_two_supermajorities:
  assumes "chain_state z st" "blk_slot block < 2 ^ 64"
    "stateTransition z block st check = Inr st'"
    "cp_slot (st_latest_finalized st') \<noteq> cp_slot (st_latest_finalized st)"
  defines "V \<equiv> voters st (bd_attestations (blk_body block))"
  shows "\<exists>att \<in> set (bd_attestations (blk_body block)). \<exists>f.
    st_latest_finalized st' = ad_source (aa_data att) \<and>
    cp_slot (st_latest_finalized st) \<le> f \<and> f < cp_slot (st_latest_finalized st') \<and>
    cp_slot (st_latest_finalized st') < cp_slot (ad_target (aa_data att)) \<and>
    cp_slot (ad_target (aa_data att)) < blk_slot block \<and>
    (\<forall>x. cp_slot (st_latest_finalized st') < x \<and> x < cp_slot (ad_target (aa_data att)) \<longrightarrow>
       isJustifiableSlot f x = Inr False) \<and>
    supermajority (validatorCount st) (V (cp_root (ad_target (aa_data att)))) \<and>
    (isSlotJustified (st_justified_slots st) (cp_slot (st_latest_finalized st))
       (cp_slot (st_latest_finalized st')) = Some True \<or>
     supermajority (validatorCount st) (V (cp_root (st_latest_finalized st'))))"
proof -
  from stateTransition_sound[OF chain_state_wf[OF assms(1)] assms(2,3)] obtain st2 js v where
    s: "st' = store_votes st2 v" "votes_ok st2 v" "validatorCount st2 = validatorCount st"
      "length (st_historical_block_hashes st2) = blk_slot block"
      "cp_slot (st_latest_finalized st2) = cp_slot (st_latest_finalized st)"
      "st_justified_slots st2 = extendToSlot (st_justified_slots st)
        (cp_slot (st_latest_finalized st)) (blk_slot block - 1)"
      "finalization_ok st2 V (bd_attestations (blk_body block)) (initial_votes st2 js) v"
    unfolding V_def by metis
  let ?F = "cp_slot (v_latest_finalized v)"
  from s(2) have v: "cp_root (v_latest_finalized v) = st_historical_block_hashes st2 ! ?F"
      "?F < length (st_historical_block_hashes st2)" by (auto simp: votes_ok_def Let_def)
  then have le: "?F \<le> blk_slot block - 1" using s(4) by simp
  have "v_latest_finalized v \<noteq> st_latest_finalized st2" using assms(4) s(1,5) by auto
  with s(7) obtain att f where a: "att \<in> set (bd_attestations (blk_body block))"
      "v_latest_finalized v = ad_source (aa_data att)"
      "cp_slot (st_latest_finalized st) \<le> f" "f < ?F" "?F < cp_slot (ad_target (aa_data att))"
      "\<forall>x. ?F < x \<and> x < cp_slot (ad_target (aa_data att)) \<longrightarrow> \<not> justifiable_delta (x - f)"
      "supermajority (validatorCount st) (V (cp_root (ad_target (aa_data att))))"
      "newly_ok st2 V (initial_votes st2 js) ?F"
      "cp_slot (ad_target (aa_data att)) < length (st_historical_block_hashes st2)"
    unfolding finalization_ok_def s(3) initial_votes_simps s(5) by blast
  have "isSlotJustified (st_justified_slots st) (cp_slot (st_latest_finalized st)) ?F = Some True
      \<or> supermajority (validatorCount st) (V (cp_root (v_latest_finalized v)))"
    using a(8) slot_bit_extendToSlot_notJustified[OF _ le, of "st_justified_slots st"
        "cp_slot (st_latest_finalized st)"]
    unfolding newly_ok_def v(1) by (auto simp: s(3,4,5,6))
  then show ?thesis
    using a(2-7,9) unfolding s(1,4)
    by (intro bexI[OF _ a(1)] exI[of _ f]) (simp add: isJustifiableSlot_ge)
qed

theorem finalization_two_supermajorities_witness:
  "\<exists>att \<in> {demo_attestation 1 2}. demo_checkpoint 1 = ad_source (aa_data att) \<and>
     supermajority 3 (voters (demo_state 2 1 0 [True]) [demo_attestation 1 2]
       (cp_root (ad_target (aa_data att))))"
  using finalization_two_supermajorities[OF demo_chain(3) _ demo_step_3] by auto

lemma supermajorities_share:
  assumes "validatorCount st1 = validatorCount st2"
    "supermajority (validatorCount st1) (voters st1 atts1 r1)"
    "supermajority (validatorCount st2) (voters st2 atts2 r2)"
  shows "validatorCount st1 \<le> 3 * card (voters st1 atts1 r1 \<inter> voters st2 atts2 r2)"
proof (rule supermajority_intersection)
  show "voters st1 atts1 r1 \<subseteq> {..<validatorCount st1}" by (rule voters_range)
  show "voters st2 atts2 r2 \<subseteq> {..<validatorCount st1}" unfolding assms(1) by (rule voters_range)
  show "supermajority (validatorCount st1) (voters st1 atts1 r1)" by (rule assms(2))
  show "supermajority (validatorCount st1) (voters st2 atts2 r2)"
    unfolding assms(1) by (rule assms(3))
qed

text \<open>
  C4.  Accountability.  Take two transitions, on the same or on different chains, with equally
  many validators, the first justifying slot \<open>s1\<close> and the second \<open>s2\<close>.  At least a third
  of the validators voted for both justified blocks; if the blocks conflict, these
  validators can be held responsible.
\<close>

theorem conflicting_justifications:
  assumes "newly_justifies z1 st1 block1 check1 st1' s1" "newly_justifies z2 st2 block2 check2 st2' s2"
    "validatorCount st1 = validatorCount st2"
  shows "validatorCount st1 \<le> 3 * card
    (voters st1 (bd_attestations (blk_body block1)) (st_historical_block_hashes st1' ! s1) \<inter>
     voters st2 (bd_attestations (blk_body block2)) (st_historical_block_hashes st2' ! s2))"
  using assms unfolding newly_justifies_def
  by (intro supermajorities_share newly_justified_supermajority[of z1 _ _ check1] newly_justified_supermajority[of z2 _ _ check2]) auto

theorem conflicting_justifications_witness:
  "newly_justifies demo_ssz (demo_state 2 1 0 [True]) (demo_block 3 [demo_attestation 1 2]) True (demo_state 3 2 1 [True]) 2 \<and>
   newly_justifies demo_ssz (demo_state 3 2 1 [True]) (demo_block 4 [demo_attestation 2 3]) True (demo_state 4 3 2 [True]) 3 \<and>
   3 \<le> 3 * card (voters (demo_state 2 1 0 [True]) [demo_attestation 1 2] 1002 \<inter>
      voters (demo_state 3 2 1 [True]) [demo_attestation 2 3] 1003)"
proof (intro conjI)
  show one: "newly_justifies demo_ssz (demo_state 2 1 0 [True]) (demo_block 3 [demo_attestation 1 2]) True (demo_state 3 2 1 [True]) 2"
    using demo_chain(3) demo_step_3 by (simp add: newly_justifies_def isSlotJustified_def justifiedIndexAfter_def)
  show two: "newly_justifies demo_ssz (demo_state 3 2 1 [True]) (demo_block 4 [demo_attestation 2 3]) True (demo_state 4 3 2 [True]) 3"
    using demo_chain(4) demo_step_4 by (simp add: newly_justifies_def isSlotJustified_def justifiedIndexAfter_def)
  show "3 \<le> 3 * card (voters (demo_state 2 1 0 [True]) [demo_attestation 1 2] 1002 \<inter>
      voters (demo_state 3 2 1 [True]) [demo_attestation 2 3] 1003)"
    using conflicting_justifications[OF one two] by simp
qed

text \<open>
  C5.  A transition from a state of a chain ends with the post state, with an error code
  of the state transition function, or with the assertion of \<open>isJustifiableSlot\<close>; the
  last only if an attestation of the block has a source more than one slot older than the
  finalized slot or than the source of another attestation of the block.  No other
  exception, out-of-range access or empty optional is reached.
\<close>

theorem stateTransition_failures:
  assumes "chain_state z st" "blk_slot block < 2 ^ 64"
    "stateTransition z block st check = Inl e"
  shows "(\<exists>c. e = E_STF c) \<or>
    e = Exn AssertionFailed \<and> stale_source st (bd_attestations (blk_body block))"
  by (rule stateTransition_error[OF chain_state_wf[OF assms(1)] assms(2,3)])

theorem stateTransition_failures_witness:
  "stale_source (demo_state 4 3 2 [True]) [demo_attestation 0 4]"
  using stateTransition_failures[OF demo_chain(5) _ demo_step_5] by simp

text \<open>
  C6.  The assertion is reached: a chain of four blocks, each voted for by two thirds of
  the validators, followed by a block with a late vote of two thirds whose source is the
  genesis block.
\<close>

theorem stale_source_assertion:
  "\<exists>z st block. chain_state z st \<and> blk_slot block < 2 ^ 64 \<and>
     stateTransition z block st True = Inl (Exn AssertionFailed)"
proof -
  have "blk_slot (demo_block 5 [demo_attestation 0 4]) < 2 ^ 64" by simp
  then show ?thesis using demo_chain(5) demo_step_5 by blast
qed

text \<open>
  C7.  Finality is never reverted: along any chain the finalized slot does not decrease,
  and the block finalized in an earlier state stays at its slot in the history of every
  later one.
\<close>

theorem finality_kept:
  assumes "chain_state z st" "st_historical_block_hashes st \<noteq> []" "descends z st st'"
  shows "cp_slot (st_latest_finalized st) \<le> cp_slot (st_latest_finalized st') \<and>
    st_historical_block_hashes st' ! cp_slot (st_latest_finalized st)
      = cp_root (st_latest_finalized st)"
  using descends_finality[OF assms(3,1,2)] by simp

theorem finality_kept_witness:
  "cp_slot (st_latest_finalized (demo_state 2 1 0 [True])) = 0 \<and>
   st_historical_block_hashes (demo_state 3 2 1 [True]) ! 0 = 1000"
proof -
  have "descends demo_ssz (demo_state 2 1 0 [True]) (demo_state 3 2 1 [True])"
    by (rule descends_step[OF descends_refl _ demo_step_3]) simp
  from finality_kept[OF demo_chain(3) _ this] show ?thesis by (simp add: numeral_2_eq_2)
qed

text \<open>
  C8.  The accepted blocks form a hash chain: a block accepted on top of a block whose
  state root was checked carries the hash of that block as its parent root, whatever
  number of empty slots lies between them.  The hash of the post state is assumed not to
  be the zero hash, which marks a state root that is still to be filled in.
\<close>

theorem parent_root_is_block_hash:
  assumes "chain_state z st" "blk_slot b1 < 2 ^ 64" "blk_slot b2 < 2 ^ 64"
    "stateTransition z b1 st True = Inr st1" "stateTransition z b2 st1 check = Inr st2"
    "hash_state z st1 \<noteq> kZeroHash"
  shows "blk_parent_root b2 = Block_hash z b1"
proof -
  have c1: "chain_state z st1" by (rule chain_step[OF assms(1,2,4)])
  note f = stateTransition_frame[OF chain_state_wf[OF assms(1)] assms(2,4)]
  have "(st_latest_block_header st1)\<lparr>hdr_state_root := hash_state z st1\<rparr> = getHeader z b1"
    using f(5) f(8) by (simp add: getHeader_def)
  with chain_parent_root[OF c1 assms(3,5,6)] show ?thesis by (simp add: Block_hash_def)
qed

theorem parent_root_is_block_hash_witness:
  "blk_parent_root (demo_block 3 [demo_attestation 1 2])
     = Block_hash demo_ssz (demo_block 2 [demo_attestation 0 1])"
  using parent_root_is_block_hash[OF demo_chain(2) _ _ demo_step_2 demo_step_3]
  by (simp add: demo_ssz_def kZeroHash_def)

text \<open>
  C9.  Flattening the votes into the state and reading them back is the identity on maps
  from roots to bit lists of the validator count, and the other way round on the states
  of a chain.
\<close>

theorem justifications_roundtrip:
  "(omap_wf js \<and> setJustifications st0 js = Inr st1 \<longrightarrow> loadJustifications st1 = Inr js) \<and>
   (chain_state z st \<longrightarrow>
      (\<exists>js. loadJustifications st = Inr js \<and> setJustifications st js = Inr st))"
proof (intro conjI impI)
  assume "omap_wf js \<and> setJustifications st0 js = Inr st1"
  then show "loadJustifications st1 = Inr js" using loadJustifications_set by blast
next
  assume "chain_state z st"
  from chain_state_wf[OF this]
  show "\<exists>js. loadJustifications st = Inr js \<and> setJustifications st js = Inr st"
    by (auto simp: wf_state_def split: sum.splits)
qed

theorem justifications_roundtrip_witness:
  "(let st0 = demo_state 2 1 0 [True]; js = [(1001, [True, False, False])];
        st1 = st0\<lparr>st_justifications_roots := [1001],
                  st_justifications_validators := [True, False, False]\<rparr>
    in omap_wf js \<and> setJustifications st0 js = Inr st1 \<and> loadJustifications st1 = Inr js \<and>
       (\<exists>js. loadJustifications st0 = Inr js \<and> setJustifications st0 js = Inr st0))"
proof -
  have set: "setJustifications (demo_state 2 1 0 [True]) [(1001, [True, False, False])] =
      Inr ((demo_state 2 1 0 [True])\<lparr>st_justifications_roots := [1001],
             st_justifications_validators := [True, False, False]\<rparr>)"
    by (simp add: setJustifications_def)
  then show ?thesis
    using justifications_roundtrip[of "[(1001, [True, False, False])]" "demo_state 2 1 0 [True]" _
        demo_ssz "demo_state 2 1 0 [True]"] demo_chain(3)
    by (simp add: Let_def)
qed

end
