(* ===== verification/LruCache.thy ===== *)
theory LruCache
  imports Prelude "HOL-Library.Sublist"
begin

text \<open>
  \<^verbatim>\<open>src/utils/lru_cache.hpp\<close>: the small least-recently-used cache that holds the
  post states of recent blocks.  The vector of entries keeps its order (erasing shifts),
  the tick counter is an unsigned integer of \<open>lc_bits\<close> bits that wraps, and reading an
  iterator that \<^verbatim>\<open>erase\<close> invalidated is undefined behaviour.  A shared pointer
  to a constant value is the value.

  The lemmas relate the cache to a list of key-value pairs ordered by recency
  (\<open>lru_abs\<close>): a lookup moves its pair to the end, an insertion into a full cache drops
  the first pair, and the compression of the ticks on overflow is invisible.
\<close>

subsection \<open>State and operations\<close>

record ('k, 'v) CacheEntry =
  ce_key :: 'k
  ce_value :: 'v
  ce_tick :: nat

record ('k, 'v) lru =
  lc_max_size :: nat
  lc_bits :: nat
  lc_ticks :: nat
  lc_cache :: "('k, 'v) CacheEntry list"

definition lru_new :: "nat \<Rightarrow> nat \<Rightarrow> ('k, 'v) lru result" where
  "lru_new bits max_size =
     (if max_size > 0
      then Inr \<lparr>lc_max_size = max_size, lc_bits = bits, lc_ticks = 0, lc_cache = []\<rparr>
      else Inl (Exn AssertionFailed))"

fun renumber :: "nat \<Rightarrow> nat \<Rightarrow> ('k, 'v) CacheEntry list \<Rightarrow> ('k, 'v) CacheEntry list" where
  "renumber bits t [] = []"
| "renumber bits t (e # es) = e\<lparr>ce_tick := t\<rparr> # renumber bits ((t + 1) mod 2 ^ bits) es"

definition handleTicksOverflow :: "('k, 'v) lru \<Rightarrow> ('k, 'v) lru" where
  "handleTicksOverflow c =
     (let sorted_entries = sort_key ce_tick (lc_cache c)
      in c\<lparr>lc_cache := renumber (lc_bits c) (lc_ticks c) sorted_entries,
           lc_ticks := (lc_ticks c + length sorted_entries) mod 2 ^ lc_bits c\<rparr>)"

definition lru_tick :: "('k, 'v) lru \<Rightarrow> ('k, 'v) lru" where
  "lru_tick c =
     (let c1 = c\<lparr>lc_ticks := (lc_ticks c + 1) mod 2 ^ lc_bits c\<rparr>
      in if lc_ticks c1 = 0 then handleTicksOverflow c1 else c1)"

text \<open>The index of the first element that satisfies a predicate (\<^verbatim>\<open>find_if\<close>).\<close>

fun find_index :: "('a \<Rightarrow> bool) \<Rightarrow> 'a list \<Rightarrow> nat option" where
  "find_index P [] = None"
| "find_index P (x # xs) = (if P x then Some 0 else map_option Suc (find_index P xs))"

text \<open>The index of the first smallest element (\<^verbatim>\<open>min_element\<close>) of a nonempty list.\<close>

fun min_index :: "nat list \<Rightarrow> nat" where
  "min_index [] = 0"
| "min_index [x] = 0"
| "min_index (x # y # ys) =
     (let i = min_index (y # ys) in if (y # ys) ! i < x then Suc i else 0)"

definition erase_at :: "nat \<Rightarrow> 'a list \<Rightarrow> 'a list" where
  "erase_at i xs = take i xs @ drop (Suc i) xs"

definition lru_get :: "'k \<Rightarrow> ('k, 'v) lru \<Rightarrow> 'v option \<times> ('k, 'v) lru" where
  "lru_get key c =
     (let c1 = lru_tick c in
      case find_index (\<lambda>e. ce_key e = key) (lc_cache c1) of
        None \<Rightarrow> (None, c1)
      | Some i \<Rightarrow>
          let entry = (lc_cache c1 ! i)\<lparr>ce_tick := lc_ticks c1\<rparr>
          in (Some (ce_value entry), c1\<lparr>lc_cache := (lc_cache c1)[i := entry]\<rparr>))"

text \<open>
  An insertion looks for an entry with an equal value first, to share it, and evicts
  before it reads that entry through the iterator \<open>it\<close>; the iterator survives the
  \<^verbatim>\<open>erase\<close> only if it lies before the erased position.
\<close>

definition lru_put :: "'k \<Rightarrow> 'v \<Rightarrow> ('k, 'v) lru \<Rightarrow> ('v \<times> ('k, 'v) lru) result" where
  "lru_put key val c =
     (let c1 = lru_tick c;
          it = find_index (\<lambda>e. ce_value e = val) (lc_cache c1);
          full = (length (lc_cache c1) \<ge> lc_max_size c1);
          victim = min_index (map ce_tick (lc_cache c1));
          evicted = (if full then erase_at victim (lc_cache c1) else lc_cache c1)
      in case it of
           Some i \<Rightarrow>
             if full \<and> i \<ge> victim then Inl (Exn UndefinedBehaviour)
             else let v = ce_value (evicted ! i)
                  in Inr (v, c1\<lparr>lc_cache := evicted @
                              [\<lparr>ce_key = key, ce_value = v, ce_tick = lc_ticks c1\<rparr>]\<rparr>)
         | None \<Rightarrow>
             Inr (val, c1\<lparr>lc_cache := evicted @
                         [\<lparr>ce_key = key, ce_value = val, ce_tick = lc_ticks c1\<rparr>]\<rparr>))"

definition lru_get_else ::
  "'k \<Rightarrow> 'v result \<Rightarrow> ('k, 'v) lru \<Rightarrow> 'v result \<times> ('k, 'v) lru" where
  "lru_get_else key func c =
     (case lru_get key c of
        (Some v, c1) \<Rightarrow> (Inr v, c1)
      | (None, c1) \<Rightarrow>
          (case func of
             Inr v \<Rightarrow> (case lru_put key v c1 of
                           Inr (v', c2) \<Rightarrow> (Inr v', c2)
                         | Inl e \<Rightarrow> (Inl e, c1))
           | Inl e \<Rightarrow> (Inl e, c1)))"

definition lru_erase :: "'k \<Rightarrow> ('k, 'v) lru \<Rightarrow> ('k, 'v) lru" where
  "lru_erase key c =
     (case find_index (\<lambda>e. ce_key e = key) (lc_cache c) of
        None \<Rightarrow> c
      | Some i \<Rightarrow> c\<lparr>lc_cache := erase_at i (lc_cache c)\<rparr>)"

definition lru_erase_if :: "('k \<Rightarrow> 'v \<Rightarrow> bool) \<Rightarrow> ('k, 'v) lru \<Rightarrow> ('k, 'v) lru" where
  "lru_erase_if predicate c =
     c\<lparr>lc_cache := filter (\<lambda>e. \<not> predicate (ce_key e) (ce_value e)) (lc_cache c)\<rparr>"

subsection \<open>Positions in lists\<close>

lemma find_index_None: "find_index P xs = None \<longleftrightarrow> (\<forall>x \<in> set xs. \<not> P x)"
  by (induction xs) auto

lemma find_index_Some:
  "find_index P xs = Some i \<Longrightarrow> i < length xs \<and> P (xs ! i) \<and> (\<forall>j < i. \<not> P (xs ! j))"
proof (induction xs arbitrary: i)
  case (Cons x xs)
  then show ?case by (cases i) (auto split: if_splits simp: All_less_Suc2)
qed simp

lemma min_index_less: "xs \<noteq> [] \<Longrightarrow> min_index xs < length xs"
  by (induction xs rule: min_index.induct) (auto simp: Let_def)

lemma min_index_le: "\<forall>x \<in> set xs. xs ! min_index xs \<le> x"
proof (induction xs rule: min_index.induct)
  case (3 a b ys)
  then show ?case by (fastforce simp: Let_def)
qed auto

lemma length_erase_at [simp]: "i < length xs \<Longrightarrow> length (erase_at i xs) = length xs - 1"
  by (simp add: erase_at_def)

lemma erase_at_set: "set (erase_at i xs) \<subseteq> set xs"
  by (auto simp: erase_at_def dest: in_set_takeD in_set_dropD)

lemma erase_at_split:
  assumes "i < length xs"
  obtains ys x zs where "xs = ys @ x # zs" "erase_at i xs = ys @ zs" "xs ! i = x" "length ys = i"
proof
  show "xs = take i xs @ xs ! i # drop (Suc i) xs" using assms by (rule id_take_nth_drop)
qed (use assms in \<open>auto simp: erase_at_def\<close>)

lemma erase_at_set_distinct:
  assumes "distinct (map f xs)" "i < length xs"
  shows "set (erase_at i xs) = {x \<in> set xs. f x \<noteq> f (xs ! i)}"
proof -
  from assms(2) obtain ys x zs where
    xs: "xs = ys @ x # zs" "erase_at i xs = ys @ zs" "xs ! i = x" by (rule erase_at_split)
  from assms(1) have "f x \<notin> f ` set ys" "f x \<notin> f ` set zs" by (simp_all add: xs(1))
  then have "\<forall>y \<in> set ys \<union> set zs. f y \<noteq> f x" by (auto intro: rev_image_eqI)
  then show ?thesis unfolding xs(2,3) by (auto simp: xs(1))
qed

lemma erase_at_distinct: "distinct (map f xs) \<Longrightarrow> distinct (map f (erase_at i xs))"
proof (cases "i < length xs")
  case True
  assume d: "distinct (map f xs)"
  from True obtain ys x zs where "xs = ys @ x # zs" "erase_at i xs = ys @ zs"
    by (rule erase_at_split)
  with d show ?thesis by auto
qed (simp add: erase_at_def)

lemma erase_at_nth: "j < i \<Longrightarrow> i < length xs \<Longrightarrow> erase_at i xs ! j = xs ! j"
  by (simp add: erase_at_def nth_append)

subsection \<open>The recency list\<close>

definition entry_pair :: "('k, 'v) CacheEntry \<Rightarrow> 'k \<times> 'v" where
  "entry_pair e = (ce_key e, ce_value e)"

definition lru_abs :: "('k, 'v) lru \<Rightarrow> ('k \<times> 'v) list" where
  "lru_abs c = map entry_pair (sort_key ce_tick (lc_cache c))"

text \<open>
  The invariant: at most \<open>lc_max_size\<close> entries with distinct ticks that are not in the
  future, and enough bits to number all entries after an overflow.
\<close>

definition lru_ok :: "('k, 'v) lru \<Rightarrow> bool" where
  "lru_ok c \<longleftrightarrow>
     0 < lc_max_size c \<and> lc_max_size c + 1 < 2 ^ lc_bits c \<and> lc_ticks c < 2 ^ lc_bits c \<and>
     length (lc_cache c) \<le> lc_max_size c \<and>
     distinct (map ce_tick (lc_cache c)) \<and> distinct (map ce_key (lc_cache c)) \<and>
     (\<forall>e \<in> set (lc_cache c). ce_tick e \<le> lc_ticks c)"

text \<open>After the tick of an access all entries are strictly older than the access.\<close>

definition lru_ready :: "('k, 'v) lru \<Rightarrow> bool" where
  "lru_ready c \<longleftrightarrow> lru_ok c \<and> (\<forall>e \<in> set (lc_cache c). ce_tick e < lc_ticks c)"

lemma sort_key_unique:
  fixes f :: "'a \<Rightarrow> 'b::linorder"
  assumes "distinct (map f xs)" "set ys = set xs" "sorted_wrt (<) (map f ys)"
  shows "sort_key f xs = ys"
proof (rule map_sorted_distinct_set_unique[of f])
  have "inj_on f (set xs)" using assms(1) by (simp add: distinct_map)
  then show "inj_on f (set (sort_key f xs) \<union> set ys)" using assms(2) by simp
  show "distinct (map f (sort_key f xs))"
    using assms(1) by (simp add: distinct_map)
qed (use assms(2,3) in \<open>auto simp: strict_sorted_iff\<close>)

lemma sorted_sort_key:
  "distinct (map f xs) \<Longrightarrow> sorted_wrt (<) (map f (sort_key f xs))"
  by (simp add: strict_sorted_iff distinct_map)

lemma renumber_small:
  "t + length es \<le> 2 ^ bits \<Longrightarrow>
     map ce_tick (renumber bits t es) = [t..<t + length es] \<and>
     map entry_pair (renumber bits t es) = map entry_pair es \<and>
     map ce_key (renumber bits t es) = map ce_key es"
proof (induction es arbitrary: t)
  case (Cons e es)
  show ?case
  proof (cases es)
    case Nil
    then show ?thesis by (simp add: entry_pair_def)
  next
    case (Cons a list)
    with Cons.prems have "t + 1 < 2 ^ bits" by simp
    then have "(t + 1) mod 2 ^ bits = t + 1" by simp
    then show ?thesis
      using Cons.IH[of "t + 1"] Cons.prems
      by (simp add: entry_pair_def upt_conv_Cons del: upt_Suc)
  qed
qed simp

lemma handleTicksOverflow_ok:
  assumes "0 < lc_max_size c" "lc_max_size c + 1 < 2 ^ lc_bits c" "lc_ticks c = 0"
    "length (lc_cache c) \<le> lc_max_size c" "distinct (map ce_key (lc_cache c))"
  shows "lru_ready (handleTicksOverflow c) \<and> lru_abs (handleTicksOverflow c) = lru_abs c"
proof -
  let ?s = "sort_key ce_tick (lc_cache c)" and ?n = "length (lc_cache c)"
  define r where "r = renumber (lc_bits c) 0 ?s"
  from renumber_small[of 0 ?s "lc_bits c"] assms(2,4) have
    r: "map ce_tick r = [0..<?n]" "map entry_pair r = map entry_pair ?s"
      "map ce_key r = map ce_key ?s"
    by (simp_all add: r_def)
  have len: "length r = ?n" using arg_cong[OF r(1), of length] by simp
  have key: "distinct (map ce_key r)"
    using assms(5) unfolding r(3) by (simp add: distinct_map)
  have lt: "ce_tick e < ?n" if "e \<in> set r" for e
    using arg_cong[OF r(1), of set] that by auto
  have h: "handleTicksOverflow c = c\<lparr>lc_cache := r, lc_ticks := ?n\<rparr>"
    using assms(2,3,4) by (simp add: handleTicksOverflow_def Let_def r_def)
  have "sort_key ce_tick r = r" using r(1) by (intro sort_key_unique) auto
  then have "lru_abs (handleTicksOverflow c) = lru_abs c" by (simp add: lru_abs_def h r(2))
  moreover have "lru_ready (handleTicksOverflow c)"
    using assms key lt r(1) len by (auto simp: lru_ready_def lru_ok_def h less_imp_le)
  ultimately show ?thesis by simp
qed

lemma lru_tick_ok:
  assumes "lru_ok c"
  shows "lru_ready (lru_tick c)" "lru_abs (lru_tick c) = lru_abs c"
    and "lc_max_size (lru_tick c) = lc_max_size c" "lc_bits (lru_tick c) = lc_bits c"
    and "length (lc_cache (lru_tick c)) = length (lc_cache c)"
proof -
  define c1 where "c1 = c\<lparr>lc_ticks := (lc_ticks c + 1) mod 2 ^ lc_bits c\<rparr>"
  have abs: "lru_abs c1 = lru_abs c" by (simp add: c1_def lru_abs_def)
  have t: "lru_tick c = (if lc_ticks c1 = 0 then handleTicksOverflow c1 else c1)"
    by (simp add: lru_tick_def c1_def Let_def)
  have "lru_ready (lru_tick c) \<and> lru_abs (lru_tick c) = lru_abs c"
  proof (cases "lc_ticks c1 = 0")
    case True
    then show ?thesis
      using handleTicksOverflow_ok[of c1] assms abs by (simp add: t c1_def lru_ok_def)
  next
    case False
    have lt: "lc_ticks c < 2 ^ lc_bits c" using assms by (simp add: lru_ok_def)
    have "lc_ticks c + 1 \<noteq> 2 ^ lc_bits c"
    proof
      assume "lc_ticks c + 1 = 2 ^ lc_bits c"
      then have "lc_ticks c1 = 0" unfolding c1_def by simp
      with False show False by simp
    qed
    with lt have "lc_ticks c1 = lc_ticks c + 1" "lc_ticks c + 1 < 2 ^ lc_bits c"
      by (simp_all add: c1_def)
    then have "lru_ready c1" using assms by (auto simp: lru_ready_def lru_ok_def c1_def)
    then show ?thesis using False abs by (simp add: t)
  qed
  then show "lru_ready (lru_tick c)" "lru_abs (lru_tick c) = lru_abs c" by auto
  have len: "length (renumber b t es) = length es" for b t and es :: "('a, 'b) CacheEntry list"
    by (induction es arbitrary: t) auto
  show "lc_max_size (lru_tick c) = lc_max_size c" "lc_bits (lru_tick c) = lc_bits c"
    "length (lc_cache (lru_tick c)) = length (lc_cache c)"
    by (auto simp: t c1_def handleTicksOverflow_def Let_def len)
qed

subsection \<open>Refinement of the operations\<close>

text \<open>The operations on the recency list.\<close>

definition recency_touch :: "'k \<Rightarrow> ('k \<times> 'v) list \<Rightarrow> ('k \<times> 'v) list" where
  "recency_touch k xs =
     (case map_of xs k of None \<Rightarrow> xs | Some v \<Rightarrow> filter (\<lambda>p. fst p \<noteq> k) xs @ [(k, v)])"

definition recency_insert :: "nat \<Rightarrow> 'k \<Rightarrow> 'v \<Rightarrow> ('k \<times> 'v) list \<Rightarrow> ('k \<times> 'v) list" where
  "recency_insert n k v xs = (if n \<le> length xs then tl xs else xs) @ [(k, v)]"

lemma set_lru_abs: "set (lru_abs c) = entry_pair ` set (lc_cache c)"
  by (simp add: lru_abs_def)

lemma length_lru_abs [simp]: "length (lru_abs c) = length (lc_cache c)"
  by (simp add: lru_abs_def)

lemma distinct_keys_lru_abs:
  assumes "distinct (map ce_key (lc_cache c))"
  shows "distinct (map fst (lru_abs c))"
proof -
  have "map fst (lru_abs c) = map ce_key (sort_key ce_tick (lc_cache c))"
    by (simp add: lru_abs_def entry_pair_def)
  moreover have "distinct (map ce_key (sort_key ce_tick (lc_cache c)))"
    using assms by (simp add: distinct_map)
  ultimately show ?thesis by (simp only:)
qed

lemma map_of_lru_abs:
  assumes "lru_ok c"
  shows "map_of (lru_abs c) k = Some v \<longleftrightarrow> (\<exists>e \<in> set (lc_cache c). ce_key e = k \<and> ce_value e = v)"
proof -
  have "distinct (map fst (lru_abs c))"
    using assms by (intro distinct_keys_lru_abs) (simp add: lru_ok_def)
  then have "map_of (lru_abs c) k = Some v \<longleftrightarrow> (k, v) \<in> set (lru_abs c)" by simp
  then show ?thesis by (auto simp: set_lru_abs entry_pair_def)
qed

lemma map_of_lru_abs_None:
  "map_of (lru_abs c) k = None \<longleftrightarrow> (\<forall>e \<in> set (lc_cache c). ce_key e \<noteq> k)"
  by (auto simp: map_of_eq_None_iff set_lru_abs entry_pair_def image_iff)

lemma sort_key_append_new:
  assumes "distinct (map f es)" "\<forall>e \<in> set es. f e < f x"
  shows "sort_key f (es @ [x]) = sort_key f es @ [x]"
  using assms sorted_sort_key[OF assms(1)]
  by (intro sort_key_unique) (auto simp: sorted_wrt_append)

lemma touch_sorted:
  assumes "lru_ready c" "i < length (lc_cache c)"
  defines "e \<equiv> (lc_cache c ! i)\<lparr>ce_tick := lc_ticks c\<rparr>"
  shows "sort_key ce_tick ((lc_cache c)[i := e]) =
    filter (\<lambda>x. ce_key x \<noteq> ce_key e) (sort_key ce_tick (lc_cache c)) @ [e]"
proof (rule sort_key_unique)
  let ?es = "lc_cache c"
  from assms(1) have d: "distinct (map ce_tick ?es)" "distinct (map ce_key ?es)"
    and lt: "\<forall>x \<in> set ?es. ce_tick x < lc_ticks c" by (auto simp: lru_ready_def lru_ok_def)
  have "lc_ticks c \<notin> ce_tick ` set ?es" using lt by auto
  then show "distinct (map ce_tick (?es[i := e]))"
    using d(1) by (simp add: map_update e_def distinct_list_update)
  have "set ?es - {?es ! i} = {x \<in> set ?es. ce_key x \<noteq> ce_key e}"
    using d(2) assms(2) by (auto simp: e_def distinct_map inj_on_def)
  moreover have "set (?es[i := e]) = insert e (set ?es - {?es ! i})"
    using d(2) assms(2) by (intro set_update_distinct) (auto simp: distinct_map)
  ultimately show "set (filter (\<lambda>x. ce_key x \<noteq> ce_key e) (sort_key ce_tick ?es) @ [e])
      = set (?es[i := e])" by auto
  show "sorted_wrt (<) (map ce_tick (filter (\<lambda>x. ce_key x \<noteq> ce_key e) (sort_key ce_tick ?es) @ [e]))"
    using sorted_sort_key[OF d(1)] lt
    by (auto simp: sorted_wrt_append sorted_wrt_map e_def intro: sorted_wrt_filter)
qed

lemma lru_ok_touch:
  assumes "lru_ready c" "i < length (lc_cache c)"
  shows "lru_ok (c\<lparr>lc_cache := (lc_cache c)[i := (lc_cache c ! i)\<lparr>ce_tick := lc_ticks c\<rparr>]\<rparr>)"
proof -
  let ?es = "lc_cache c"
  from assms(1) have ok: "lru_ok c" and lt: "\<forall>x \<in> set ?es. ce_tick x < lc_ticks c"
    by (auto simp: lru_ready_def)
  have "lc_ticks c \<notin> ce_tick ` set ?es" using lt by auto
  then have "distinct ((map ce_tick ?es)[i := lc_ticks c])"
    using ok by (simp add: lru_ok_def distinct_list_update)
  moreover have "(map ce_key ?es)[i := ce_key (?es ! i)] = map ce_key ?es"
    using assms(2) by (metis list_update_id nth_map)
  moreover have "x \<in> insert ((?es ! i)\<lparr>ce_tick := lc_ticks c\<rparr>) (set ?es)"
    if "x \<in> set (?es[i := (?es ! i)\<lparr>ce_tick := lc_ticks c\<rparr>])" for x
    using that set_update_subset_insert by fast
  ultimately show ?thesis
    using ok unfolding lru_ok_def by (fastforce simp: map_update)
qed

lemma lru_get_ok:
  assumes "lru_ok c" "lru_get k c = (r, c')"
  shows "lru_ok c'" "r = map_of (lru_abs c) k" "lru_abs c' = recency_touch k (lru_abs c)"
    and "lc_max_size c' = lc_max_size c"
proof -
  note t = lru_tick_ok[OF assms(1)]
  define c1 where "c1 = lru_tick c"
  have ready: "lru_ready c1" and abs: "lru_abs c1 = lru_abs c" using t by (simp_all add: c1_def)
  have ok1: "lru_ok c1" using ready by (simp add: lru_ready_def)
  have "lru_ok c' \<and> r = map_of (lru_abs c) k \<and>
      lru_abs c' = recency_touch k (lru_abs c) \<and> lc_max_size c' = lc_max_size c"
  proof (cases "find_index (\<lambda>e. ce_key e = k) (lc_cache c1)")
    case None
    then have "map_of (lru_abs c) k = None"
      by (simp add: find_index_None map_of_lru_abs_None abs[symmetric])
    moreover have "r = None" "c' = c1" using assms(2) None by (simp_all add: lru_get_def c1_def)
    ultimately show ?thesis
      using ok1 abs t by (simp add: recency_touch_def c1_def)
  next
    case (Some i)
    then have i: "i < length (lc_cache c1)" "ce_key (lc_cache c1 ! i) = k"
      using find_index_Some[OF Some] by auto
    define e where "e = (lc_cache c1 ! i)\<lparr>ce_tick := lc_ticks c1\<rparr>"
    have c': "c' = c1\<lparr>lc_cache := (lc_cache c1)[i := e]\<rparr>" and r: "r = Some (ce_value e)"
      using assms(2) Some by (simp_all add: lru_get_def c1_def e_def Let_def)
    have v: "map_of (lru_abs c) k = Some (ce_value e)"
      using i nth_mem[OF i(1)] unfolding abs[symmetric] map_of_lru_abs[OF ok1]
      by (auto simp: e_def)
    have "lru_abs c' = recency_touch k (lru_abs c)"
      using touch_sorted[OF ready i(1)] i(2) v
      by (simp add: recency_touch_def lru_abs_def c' e_def[symmetric] abs[unfolded lru_abs_def, symmetric]
          filter_map comp_def entry_pair_def) (simp add: e_def)
    then show ?thesis
      using lru_ok_touch[OF ready i(1)] v r t(3) by (simp add: c' e_def c1_def)
  qed
  then show "lru_ok c'" "r = map_of (lru_abs c) k" "lru_abs c' = recency_touch k (lru_abs c)"
    "lc_max_size c' = lc_max_size c" by auto
qed

text \<open>Eviction drops the head of the recency list.\<close>

lemma sort_key_hd_tl:
  fixes f :: "'a \<Rightarrow> nat"
  assumes "distinct (map f es)" "es \<noteq> []"
  defines "m \<equiv> min_index (map f es)"
  shows "sort_key f (erase_at m es) = tl (sort_key f es)" "hd (sort_key f es) = es ! m"
proof -
  have m: "m < length es" using assms(2) min_index_less[of "map f es"] by (simp add: m_def)
  have least: "\<forall>x \<in> set es. f (es ! m) \<le> f x"
    using min_index_le[of "map f es"] m by (simp add: m_def)
  obtain x xs where s: "sort_key f es = x # xs"
    using assms(2) by (metis list.exhaust set_empty set_sort)
  have strict: "sorted_wrt (<) (map f (x # xs))" using sorted_sort_key[OF assms(1)] s by simp
  have set: "insert x (set xs) = set es" using s by (metis list.simps(15) set_sort)
  have "x = es ! m"
  proof (rule ccontr)
    assume "x \<noteq> es ! m"
    with set m have "es ! m \<in> set xs" by (metis insertE nth_mem)
    with strict have "f x < f (es ! m)" by auto
    with least set show False by (metis insertI1 leD)
  qed
  then show "hd (sort_key f es) = es ! m" by (simp add: s)
  have "set xs = {y \<in> set es. f y \<noteq> f (es ! m)}"
    unfolding set[symmetric] using strict \<open>x = es ! m\<close> by auto
  then have "set xs = set (erase_at m es)" by (simp add: erase_at_set_distinct[OF assms(1) m])
  then have "sort_key f (erase_at m es) = xs"
    using strict by (intro sort_key_unique erase_at_distinct assms(1)) auto
  then show "sort_key f (erase_at m es) = tl (sort_key f es)" by (simp add: s)
qed

text \<open>
  What is left of the recency list after the eviction, and what a lookup finds when keys may
  be cached twice: the entry that comes first.
\<close>

definition recency_evict :: "nat \<Rightarrow> ('k \<times> 'v) list \<Rightarrow> ('k \<times> 'v) list" where
  "recency_evict n xs = (if n \<le> length xs then tl xs else xs)"

lemma recency_insert_evict: "recency_insert n k v xs = recency_evict n xs @ [(k, v)]"
  by (simp add: recency_insert_def recency_evict_def)

lemma find_index_map_of:
  "map_of (map entry_pair es) k = map_option (\<lambda>i. ce_value (es ! i)) (find_index (\<lambda>e. ce_key e = k) es)"
  by (induction es) (auto simp: entry_pair_def option.map_comp comp_def)

lemma lru_get_first: "fst (lru_get k c) = map_of (map entry_pair (lc_cache (lru_tick c))) k"
  by (auto simp: lru_get_def find_index_map_of Let_def split: option.split)

lemma renumber_pairs: "map entry_pair (renumber bits t es) = map entry_pair es"
  by (induction es arbitrary: t) (auto simp: entry_pair_def)

lemma lru_tick_pairs:
  "map entry_pair (lc_cache (lru_tick c)) = map entry_pair (lc_cache c) \<or>
   map entry_pair (lc_cache (lru_tick c)) = map entry_pair (sort_key ce_tick (lc_cache c))"
  by (auto simp: lru_tick_def handleTicksOverflow_def Let_def renumber_pairs)

lemma lru_put_entries:
  fixes v :: 'v and k :: 'k
  assumes "lru_ready (c :: ('k, 'v) lru)"
  defines "full \<equiv> length (lc_cache c) \<ge> lc_max_size c"
  defines "es \<equiv> (if full then erase_at (min_index (map ce_tick (lc_cache c))) (lc_cache c)
    else lc_cache c)"
  defines "c' \<equiv> c\<lparr>lc_cache := es @ [\<lparr>ce_key = k, ce_value = v, ce_tick = lc_ticks c\<rparr>]\<rparr>"
  shows "lru_ok c' \<longleftrightarrow> map_of (recency_evict (lc_max_size c) (lru_abs c)) k = None"
    "lru_abs c' = recency_evict (lc_max_size c) (lru_abs c) @ [(k, v)]"
    "fst (lru_get k' c') = map_of (lru_abs c') k'"
proof -
  let ?e = "\<lparr>ce_key = k, ce_value = v, ce_tick = lc_ticks c\<rparr>"
  from assms(1) have ok: "lru_ok c" and lt: "\<forall>x \<in> set (lc_cache c). ce_tick x < lc_ticks c"
    by (auto simp: lru_ready_def)
  have sub: "set es \<subseteq> set (lc_cache c)" by (simp add: es_def erase_at_set)
  have d: "distinct (map ce_tick es)" "distinct (map ce_key es)"
    using ok by (auto simp: es_def lru_ok_def erase_at_distinct)
  have ne: "full \<Longrightarrow> lc_cache c \<noteq> []" using ok by (auto simp: full_def lru_ok_def)
  have len: "length es + 1 \<le> lc_max_size c"
  proof (cases full)
    case True
    have "min_index (map ce_tick (lc_cache c)) < length (lc_cache c)"
      using min_index_less[of "map ce_tick (lc_cache c)"] ne[OF True] by simp
    then show ?thesis using ok True by (auto simp: es_def lru_ok_def)
  next
    case False
    then show ?thesis by (simp add: es_def full_def)
  qed
  have lt': "\<forall>x \<in> set es. ce_tick x < lc_ticks c" using lt sub by blast
  have sort: "sort_key ce_tick (es @ [?e]) = sort_key ce_tick es @ [?e]"
    using lt' d(1) by (intro sort_key_append_new) auto
  moreover have es: "sort_key ce_tick es =
      (if full then tl (sort_key ce_tick (lc_cache c)) else sort_key ce_tick (lc_cache c))"
    using sort_key_hd_tl(1)[of ce_tick "lc_cache c"] ok ne by (simp add: es_def lru_ok_def)
  ultimately show abs: "lru_abs c' = recency_evict (lc_max_size c) (lru_abs c) @ [(k, v)]"
    by (simp add: lru_abs_def c'_def recency_evict_def full_def map_tl entry_pair_def)
  have "recency_evict (lc_max_size c) (lru_abs c) = map entry_pair (sort_key ce_tick es)"
    using es by (simp add: lru_abs_def recency_evict_def full_def map_tl)
  then have "map_of (recency_evict (lc_max_size c) (lru_abs c)) k = None \<longleftrightarrow> k \<notin> ce_key ` set es"
    by (auto simp: map_of_eq_None_iff entry_pair_def image_iff)
  then show "lru_ok c' \<longleftrightarrow> map_of (recency_evict (lc_max_size c) (lru_abs c)) k = None"
    using ok d len lt' unfolding lru_ok_def c'_def by (fastforce simp: less_imp_le)
  have "map_of (map entry_pair (sort_key ce_tick es)) = map_of (map entry_pair es)"
    using d(2) by (intro map_of_inject_set[THEN iffD2]) (auto simp: entry_pair_def comp_def distinct_map)
  then have "map_of (lru_abs c') = map_of (map entry_pair (lc_cache c'))"
    by (simp add: lru_abs_def c'_def sort)
  moreover have "map_of (map entry_pair (lc_cache (lru_tick c'))) \<in> {map_of (map entry_pair (lc_cache c')), map_of (lru_abs c')}"
    using lru_tick_pairs[of c'] by (auto simp: lru_abs_def)
  ultimately show "fst (lru_get k' c') = map_of (lru_abs c') k'" by (auto simp: lru_get_first)
qed

text \<open>When the eviction invalidates the iterator to the entry with an equal value.\<close>

definition put_dangles :: "'v \<Rightarrow> ('k, 'v) lru \<Rightarrow> bool" where
  "put_dangles val c \<longleftrightarrow>
     (let es = lc_cache (lru_tick c) in
      lc_max_size c \<le> length es \<and>
      (\<exists>i. find_index (\<lambda>e. ce_value e = val) es = Some i \<and> min_index (map ce_tick es) \<le> i))"

lemma lru_put_any:
  assumes ok: "lru_ok c"
  defines "evicted \<equiv> recency_evict (lc_max_size c) (lru_abs c)"
  shows "lru_put k v c = Inl (Exn UndefinedBehaviour) \<and> put_dangles v c \<or>
    (\<exists>c'. lru_put k v c = Inr (v, c') \<and> \<not> put_dangles v c \<and> (lru_ok c' \<longleftrightarrow> map_of evicted k = None) \<and>
      lru_abs c' = evicted @ [(k, v)] \<and> (\<forall>k'. fst (lru_get k' c') = map_of (evicted @ [(k, v)]) k') \<and>
      lc_max_size c' = lc_max_size c)"
proof -
  define c1 where "c1 = lru_tick c"
  note t = lru_tick_ok[OF ok]
  have ready: "lru_ready c1" and abs: "lru_abs c1 = lru_abs c" and max: "lc_max_size c1 = lc_max_size c"
    using t by (simp_all add: c1_def)
  let ?full = "length (lc_cache c1) \<ge> lc_max_size c1" and ?m = "min_index (map ce_tick (lc_cache c1))"
  let ?es = "if ?full then erase_at ?m (lc_cache c1) else lc_cache c1"
  let ?it = "find_index (\<lambda>e. ce_value e = v) (lc_cache c1)"
  define c' where "c' = c1\<lparr>lc_cache := ?es @ [\<lparr>ce_key = k, ce_value = v, ce_tick = lc_ticks c1\<rparr>]\<rparr>"
  note entries = lru_put_entries[OF ready, where k = k and v = v, folded c'_def, unfolded abs max, folded evicted_def]
  have dang: "put_dangles v c \<longleftrightarrow> ?full \<and> (\<exists>i. ?it = Some i \<and> ?m \<le> i)"
    by (simp add: put_dangles_def c1_def[symmetric] max Let_def)
  show ?thesis
  proof (cases "put_dangles v c")
    case True
    then have "lru_put k v c = Inl (Exn UndefinedBehaviour)"
      by (auto simp: dang lru_put_def c1_def[symmetric] Let_def)
    with True show ?thesis by simp
  next
    case False
    have "ce_value (?es ! i) = v" if "?it = Some i" for i
      using find_index_Some[OF that] False that erase_at_nth[of i ?m "lc_cache c1"]
        min_index_less[of "map ce_tick (lc_cache c1)"]
      by (cases "lc_cache c1") (auto simp: dang)
    then have "lru_put k v c = Inr (v, c')"
      using False by (auto simp: dang lru_put_def c1_def[symmetric] c'_def Let_def split: option.splits)
    moreover have "lc_max_size c' = lc_max_size c" by (simp add: c'_def max)
    ultimately show ?thesis using False entries by auto
  qed
qed

lemma lru_put_ok:
  assumes ok: "lru_ok c" and k: "map_of (lru_abs c) k = None"
  shows "lru_put k v c = Inl (Exn UndefinedBehaviour) \<and> put_dangles v c \<or>
    (\<exists>c'. lru_put k v c = Inr (v, c') \<and> \<not> put_dangles v c \<and> lru_ok c' \<and>
      lru_abs c' = recency_insert (lc_max_size c) k v (lru_abs c) \<and>
      lc_max_size c' = lc_max_size c)"
proof -
  have "set (recency_evict (lc_max_size c) (lru_abs c)) \<subseteq> set (lru_abs c)"
    using set_mono_suffix[OF suffix_tl[of "lru_abs c"]] by (auto simp: recency_evict_def)
  with k have "map_of (recency_evict (lc_max_size c) (lru_abs c)) k = None" by (auto simp: map_of_eq_None_iff)
  then show ?thesis using lru_put_any[OF ok, of k v] by (auto simp: recency_insert_evict)
qed

lemma sort_key_filter: "distinct (map f es) \<Longrightarrow> sort_key f (filter P es) = filter P (sort_key f es)"
  using sorted_sort_key[of f es]
  by (intro sort_key_unique) (auto simp: sorted_wrt_map distinct_map inj_on_def
      intro: sorted_wrt_filter)

lemma lru_ok_filter: "lru_ok c \<Longrightarrow> lru_ok (c\<lparr>lc_cache := filter P (lc_cache c)\<rparr>)"
  by (auto simp: lru_ok_def distinct_map inj_on_def intro: order_trans[OF length_filter_le])

lemma lru_erase_if_ok:
  assumes "lru_ok c"
  shows "lru_ok (lru_erase_if P c)"
    "lru_abs (lru_erase_if P c) = filter (\<lambda>(k, v). \<not> P k v) (lru_abs c)"
  using assms lru_ok_filter[OF assms]
  by (simp_all add: lru_erase_if_def lru_abs_def sort_key_filter lru_ok_def filter_map comp_def
      entry_pair_def)

subsection \<open>The interface of a memoizing cache\<close>

text \<open>
  What the clients of the cache rely on: lookups return what is stored and change only
  the recency, insertions add the one pair, and a pair is only ever lost.
\<close>

locale memo_cache =
  fixes lookup :: "'k \<Rightarrow> 'c \<Rightarrow> 'v option \<times> 'c"
    and store :: "'k \<Rightarrow> 'v \<Rightarrow> 'c \<Rightarrow> ('v \<times> 'c) result"
    and contents :: "'c \<Rightarrow> ('k \<times> 'v) list"
    and inv :: "'c \<Rightarrow> bool"
  assumes lookup_inv: "inv c \<Longrightarrow> lookup k c = (r, c') \<Longrightarrow> inv c'"
    and lookup_value: "inv c \<Longrightarrow> lookup k c = (r, c') \<Longrightarrow> r = map_of (contents c) k"
    and lookup_contents: "inv c \<Longrightarrow> lookup k c = (r, c') \<Longrightarrow> set (contents c') = set (contents c)"
    and keys_distinct: "inv c \<Longrightarrow> distinct (map fst (contents c))"
    and store_inv: "inv c \<Longrightarrow> map_of (contents c) k = None \<Longrightarrow> store k v c = Inr (v', c') \<Longrightarrow> inv c'"
    and store_value: "inv c \<Longrightarrow> map_of (contents c) k = None \<Longrightarrow> store k v c = Inr (v', c') \<Longrightarrow> v' = v"
    and store_contents: "inv c \<Longrightarrow> map_of (contents c) k = None \<Longrightarrow> store k v c = Inr (v', c') \<Longrightarrow>
      (k, v) \<in> set (contents c') \<and> set (contents c') \<subseteq> insert (k, v) (set (contents c))"
    and store_error: "store k v c = Inl e \<Longrightarrow> e = Exn UndefinedBehaviour"
begin

lemma lookup_coherent:
  assumes "inv c" "\<forall>(k, v) \<in> set (contents c). P k v" "lookup k c = (Some v, c')"
  shows "P k v" "\<forall>(k, v) \<in> set (contents c'). P k v"
proof -
  from lookup_value[OF assms(1,3)] have "(k, v) \<in> set (contents c)"
    by (metis map_of_SomeD)
  with assms(2) show "P k v" by blast
  show "\<forall>(k, v) \<in> set (contents c'). P k v"
    using lookup_contents[OF assms(1,3)] assms(2) by simp
qed

lemma store_coherent:
  assumes "inv c" "\<forall>(k, v) \<in> set (contents c). P k v" "lookup k c = (None, c1)" "P k v"
    "store k v c1 = Inr (v', c')"
  shows "v' = v" "inv c'" "\<forall>(k, v) \<in> set (contents c'). P k v"
proof -
  have inv1: "inv c1" by (rule lookup_inv[OF assms(1,3)])
  have "map_of (contents c) k = None" using lookup_value[OF assms(1,3)] by simp
  then have k: "map_of (contents c1) k = None"
    using lookup_contents[OF assms(1,3)] by (simp add: map_of_eq_None_iff)
  show "v' = v" "inv c'" using store_value[OF inv1 k assms(5)] store_inv[OF inv1 k assms(5)] .
  show "\<forall>(k, v) \<in> set (contents c'). P k v"
    using store_contents[OF inv1 k assms(5)] lookup_contents[OF assms(1,3)] assms(2,4) by fastforce
qed

lemma lookup_after_store:
  assumes "inv c" "map_of (contents c) k = None" "store k v c = Inr (v', c')"
    "lookup k c' = (r, c'')"
  shows "r = Some v"
proof -
  note inv' = store_inv[OF assms(1-3)]
  have "map_of (contents c') k = Some v"
    using store_contents[OF assms(1-3)] keys_distinct[OF inv'] by simp
  with lookup_value[OF inv' assms(4)] show ?thesis by simp
qed

end

lemma set_recency_touch:
  assumes "distinct (map fst xs)"
  shows "set (recency_touch k xs) = set xs"
proof (cases "map_of xs k")
  case (Some v)
  then have "{p \<in> set xs. fst p = k} = {(k, v)}"
    using assms by (auto dest: map_of_SomeD simp: eq_key_imp_eq_value)
  then show ?thesis using Some by (auto simp: recency_touch_def dest: map_of_SomeD)
qed (simp add: recency_touch_def)

interpretation lru: memo_cache lru_get lru_put lru_abs lru_ok
proof
  fix c :: "('k, 'v) lru" and k r c'
  assume ok: "lru_ok c" and g: "lru_get k c = (r, c')"
  show "lru_ok c'" "r = map_of (lru_abs c) k" using lru_get_ok[OF ok g] by simp_all
  have "distinct (map fst (lru_abs c))"
    using ok by (intro distinct_keys_lru_abs) (simp add: lru_ok_def)
  then show "set (lru_abs c') = set (lru_abs c)"
    using lru_get_ok(3)[OF ok g] by (simp add: set_recency_touch)
next
  fix c :: "('k, 'v) lru" assume "lru_ok c"
  then show "distinct (map fst (lru_abs c))"
    by (intro distinct_keys_lru_abs) (simp add: lru_ok_def)
next
  fix c :: "('k, 'v) lru" and k v v' c'
  assume "lru_ok c" "map_of (lru_abs c) k = None" and p: "lru_put k v c = Inr (v', c')"
  from lru_put_ok[OF this(1,2), of v] p
  have c': "v' = v" "lru_ok c'" "lru_abs c' = recency_insert (lc_max_size c) k v (lru_abs c)"
    by auto
  then show "lru_ok c'" "v' = v" by simp_all
  show "(k, v) \<in> set (lru_abs c') \<and> set (lru_abs c') \<subseteq> insert (k, v) (set (lru_abs c))"
    using set_mono_suffix[OF suffix_tl[of "lru_abs c"]] by (auto simp: c'(3) recency_insert_def)
next
  fix c :: "('k, 'v) lru" and k v e
  assume "lru_put k v c = Inl e"
  then show "e = Exn UndefinedBehaviour"
    by (auto simp: lru_put_def Let_def split: option.splits if_splits)
qed

lemma lru_get_else_coherent:
  assumes ok: "lru_ok c" and coh: "\<forall>(k, v) \<in> set (lru_abs c). f k = Inr v"
    and ge: "lru_get_else k (f k) c = (r, c')"
  shows "lru_ok c'" "\<forall>(k, v) \<in> set (lru_abs c'). f k = Inr v"
    and "r = f k \<or> r = Inl (Exn UndefinedBehaviour)"
proof -
  obtain g c1 where g: "lru_get k c = (g, c1)" by fastforce
  have ok1: "lru_ok c1" by (rule lru.lookup_inv[OF ok g])
  have coh1: "\<forall>(k, v) \<in> set (lru_abs c1). f k = Inr v"
    using coh lru.lookup_contents[OF ok g] by simp
  have "lru_ok c' \<and> (\<forall>(k, v) \<in> set (lru_abs c'). f k = Inr v) \<and>
      (r = f k \<or> r = Inl (Exn UndefinedBehaviour))"
  proof (cases g)
    case (Some v)
    then show ?thesis
      using ge g ok1 coh1 lru.lookup_coherent(1)[OF ok coh, of k v c1] by (auto simp: lru_get_else_def)
  next
    case None
    show ?thesis
    proof (cases "f k")
      case (Inl e)
      then show ?thesis using ge g None ok1 coh1 by (simp add: lru_get_else_def)
    next
      case (Inr v)
      show ?thesis
      proof (cases "lru_put k v c1")
        case (Inl e)
        then show ?thesis
          using ge g None Inr ok1 coh1 lru.store_error[OF Inl] by (simp add: lru_get_else_def)
      next
        case p: (Inr w)
        obtain v' c2 where w: "w = (v', c2)" by fastforce
        from ge g None Inr p w have "r = Inr v'" "c' = c2" by (simp_all add: lru_get_else_def)
        then show ?thesis
          using lru.store_coherent[OF ok coh, of k c1 v v' c2] g None Inr p w by simp
      qed
    qed
  qed
  then show "lru_ok c'" "\<forall>(k, v) \<in> set (lru_abs c'). f k = Inr v"
    "r = f k \<or> r = Inl (Exn UndefinedBehaviour)" by auto
qed

subsection \<open>Properties\<close>

text \<open>A cache of two entries with a three-bit tick counter that is about to overflow.\<close>

definition demo_cache :: "(nat, nat) lru" where
  "demo_cache =
     \<lparr>lc_max_size = 2, lc_bits = 3, lc_ticks = 7,
      lc_cache = [\<lparr>ce_key = 1, ce_value = 10, ce_tick = 7\<rparr>, \<lparr>ce_key = 2, ce_value = 20, ce_tick = 5\<rparr>]\<rparr>"

lemma demo_cache_ok: "lru_ok demo_cache" and demo_cache_abs: "lru_abs demo_cache = [(2, 20), (1, 10)]"
  by (simp_all add: lru_ok_def demo_cache_def lru_abs_def entry_pair_def)

text \<open>
   A lookup returns the stored value and moves its pair to the most recent place; it
  keeps the invariant of the cache, also when the tick counter overflows.
\<close>

theorem lru_get_refines:
  assumes "lru_ok c"
  shows "lru_ok (snd (lru_get k c)) \<and> fst (lru_get k c) = map_of (lru_abs c) k \<and>
    lru_abs (snd (lru_get k c)) = recency_touch k (lru_abs c)"
proof -
  have "lru_get k c = (fst (lru_get k c), snd (lru_get k c))" by simp
  from lru_get_ok[OF assms this] show ?thesis by blast
qed

theorem lru_get_refines_witness:
  "lru_ok demo_cache \<and> fst (lru_get 2 demo_cache) = Some 20 \<and>
   lru_abs (snd (lru_get 2 demo_cache)) = [(1, 10), (2, 20)]"
  using lru_get_refines[OF demo_cache_ok, of 2] demo_cache_ok
  by (simp add: demo_cache_abs recency_touch_def)

text \<open>
  C40.  An insertion, of any key, either reads an iterator invalidated by the eviction
  (exactly when the cache is full and the first entry with an equal value does not lie
  before the least recently used one), or it returns the value, drops the least recently used
  pair of a full cache and appends the new pair.  The lookups of all other keys then find what
  is left of the old pairs.  A key that is not among them is found with the new value, and the
  invariant holds.  A key that is still among them is cached twice afterwards: its lookup
  still finds the old value, and the keys are no longer distinct.
\<close>

theorem lru_put_refines:
  assumes "lru_ok c" "evicted = recency_evict (lc_max_size c) (lru_abs c)"
  shows "if put_dangles v c then lru_put k v c = Inl (Exn UndefinedBehaviour)
    else \<exists>c'. lru_put k v c = Inr (v, c') \<and> lru_abs c' = evicted @ [(k, v)] \<and>
      (\<forall>k'. k' \<noteq> k \<longrightarrow> fst (lru_get k' c') = map_of evicted k') \<and>
      (case map_of evicted k of
         None \<Rightarrow> fst (lru_get k c') = Some v \<and> lru_ok c'
       | Some old \<Rightarrow> fst (lru_get k c') = Some old \<and> \<not> lru_ok c')"
  using lru_put_any[OF assms(1), of k v] assms(2) by (auto simp: map_add_def split: option.split)

theorem lru_put_refines_witness:
  "(\<exists>c'. lru_put 3 30 demo_cache = Inr (30, c') \<and> lru_abs c' = [(1, 10), (3, 30)] \<and> lru_ok c' \<and>
      fst (lru_get 3 c') = Some 30) \<and>
   (\<exists>c'. lru_put 1 11 demo_cache = Inr (11, c') \<and> fst (lru_get 1 c') = Some 10)"
proof -
  have "\<not> put_dangles 30 demo_cache" "\<not> put_dangles 11 demo_cache"
    by (simp_all add: put_dangles_def demo_cache_def lru_tick_def handleTicksOverflow_def Let_def)
  moreover have "recency_evict (lc_max_size demo_cache) (lru_abs demo_cache) = [(1, 10)]"
    by (simp add: demo_cache_abs recency_evict_def) (simp add: demo_cache_def)
  ultimately show ?thesis
    using lru_put_refines[OF demo_cache_ok refl, of 30 3] lru_put_refines[OF demo_cache_ok refl, of 11 1] by auto
qed

text \<open>
   The undefined case is reached from an empty cache of two entries by three
  insertions, the last one with the value of the oldest entry.
\<close>

theorem lru_put_dangling_iterator:
  "\<exists>c0 c1 c2. (lru_new 64 2 :: (nat, nat) lru result) = Inr c0 \<and>
     lru_put 1 10 c0 = Inr (10, c1) \<and> lru_put 2 20 c1 = Inr (20, c2) \<and>
     lru_put 3 10 c2 = Inl (Exn UndefinedBehaviour)"
  by (simp add: lru_new_def lru_put_def lru_tick_def Let_def)

text \<open>
   \<open>get_else\<close> is transparent: when every cached pair is what the function returns for
  its key, the result is the function's result (or the undefined case above), and the
  cache stays well formed and coherent.
\<close>

theorem lru_get_else_transparent:
  assumes "lru_ok c" "\<forall>(k, v) \<in> set (lru_abs c). f k = Inr v"
    "lru_get_else k (f k) c = (r, c')"
  shows "(r = f k \<or> r = Inl (Exn UndefinedBehaviour)) \<and> lru_ok c' \<and>
    (\<forall>(k, v) \<in> set (lru_abs c'). f k = Inr v)"
  using lru_get_else_coherent[OF assms] by simp

theorem lru_get_else_transparent_witness:
  "fst (lru_get_else 2 (Inr 20) demo_cache) = Inr 20 \<or>
   fst (lru_get_else 2 (Inr 20) demo_cache) = Inl (Exn UndefinedBehaviour)"
  using lru_get_else_transparent[OF demo_cache_ok, of "\<lambda>k. Inr (10 * k)" 2
      "fst (lru_get_else 2 (Inr 20) demo_cache)" "snd (lru_get_else 2 (Inr 20) demo_cache)"]
  by (simp add: demo_cache_abs)

end
