(* ===== verification/CachedTree.thy ===== *)
theory CachedTree
  imports ChainTypes
begin

text \<open>
  \<^verbatim>\<open>src/blockchain/impl/cached_tree.cpp\<close>: the in-memory tree of the blocks that are
  not finalized yet.  A \<^verbatim>\<open>TreeNode\<close> object is the record its hash maps to, a
  pointer to a node is its hash, an expired or missing \<^verbatim>\<open>weak_parent\<close> is a parent
  that is not in the map.  Of \<^verbatim>\<open>justified_\<close> only the index is ever read, so it is
  stored as the index.  Loops over parents and queues carry fuel that the lemmas show to be
  enough on every well-formed tree; running out of it would be the error \<open>Diverges\<close>.
\<close>

subsection \<open>State\<close>

record Reorg =
  ro_common :: BlockIndex
  ro_revert :: "BlockIndex list"
  ro_apply :: "BlockIndex list"

record ReorgAndPrune =
  rp_reorg :: "Reorg option"
  rp_prune :: "BlockIndex list"

record TreeNode =
  tn_index :: BlockIndex
  tn_parent :: "hash option"
  tn_depth :: nat
  tn_reverted :: bool
  tn_children :: "hash list"

record CachedTree =
  ct_root :: hash
  ct_justified :: BlockIndex
  ct_best :: hash
  ct_nodes :: "(hash, TreeNode) umap"
  ct_leaves :: "(hash, slot) umap"

definition Reorg_empty :: "Reorg \<Rightarrow> bool" where
  "Reorg_empty r \<longleftrightarrow> ro_revert r = [] \<and> ro_apply r = []"

definition no_changes :: ReorgAndPrune where
  "no_changes = \<lparr>rp_reorg = None, rp_prune = []\<rparr>"

text \<open>Reading a node through a pointer, and its parent (\<^verbatim>\<open>weak_parent.lock()\<close>).\<close>

definition deref :: "CachedTree \<Rightarrow> hash \<Rightarrow> TreeNode result" where
  "deref t h = (case map_of (ct_nodes t) h of None \<Rightarrow> Inl (Exn UndefinedBehaviour) | Some n \<Rightarrow> Inr n)"

definition TreeNode_parent :: "CachedTree \<Rightarrow> TreeNode \<Rightarrow> hash option" where
  "TreeNode_parent t n =
     (case tn_parent n of
        None \<Rightarrow> None
      | Some p \<Rightarrow> if map_of (ct_nodes t) p = None then None else Some p)"

definition TreeNode_weight :: "TreeNode \<Rightarrow> slot" where
  "TreeNode_weight n = bi_slot (tn_index n)"

definition set_node :: "hash \<Rightarrow> TreeNode \<Rightarrow> CachedTree \<Rightarrow> CachedTree" where
  "set_node h n t = t\<lparr>ct_nodes := AList.update h n (ct_nodes t)\<rparr>"

definition erase_node :: "hash \<Rightarrow> CachedTree \<Rightarrow> CachedTree" where
  "erase_node h t = t\<lparr>ct_nodes := AList.delete h (ct_nodes t)\<rparr>"

definition TreeNode_new :: "BlockIndex \<Rightarrow> TreeNode" where
  "TreeNode_new info =
     \<lparr>tn_index = info, tn_parent = None, tn_depth = 0, tn_reverted = False, tn_children = []\<rparr>"

definition TreeNode_child :: "BlockIndex \<Rightarrow> TreeNode \<Rightarrow> TreeNode" where
  "TreeNode_child info parent =
     \<lparr>tn_index = info, tn_parent = Some (bi_hash (tn_index parent)),
      tn_depth = (tn_depth parent + 1) mod 2 ^ 32, tn_reverted = tn_reverted parent,
      tn_children = []\<rparr>"

subsection \<open>Paths\<close>

fun reorg_loop ::
  "nat \<Rightarrow> CachedTree \<Rightarrow> hash \<Rightarrow> hash \<Rightarrow> BlockIndex list \<Rightarrow> BlockIndex list \<Rightarrow> Reorg result" where
  "reorg_loop 0 t from to rvt app = Inl (Exn Diverges)"
| "reorg_loop (Suc fuel) t from to rvt app =
     (if from \<noteq> to
      then OUTCOME_TRY (deref t from) (\<lambda>f. OUTCOME_TRY (deref t to) (\<lambda>g.
             if bi_slot (tn_index f) > bi_slot (tn_index g)
             then (case TreeNode_parent t f of
                     None \<Rightarrow> Inl (Exn BadWeakPtr)
                   | Some p \<Rightarrow> reorg_loop fuel t p to (rvt @ [tn_index f]) app)
             else (case TreeNode_parent t g of
                     None \<Rightarrow> Inl (Exn UndefinedBehaviour)
                   | Some p \<Rightarrow> reorg_loop fuel t from p rvt (app @ [tn_index g]))))
      else OUTCOME_TRY (deref t to) (\<lambda>g.
             Inr \<lparr>ro_common = tn_index g, ro_revert = rvt, ro_apply = rev app\<rparr>))"

definition reorg :: "CachedTree \<Rightarrow> hash \<Rightarrow> hash \<Rightarrow> Reorg result" where
  "reorg t from to = reorg_loop (2 * length (ct_nodes t) + 1) t from to [] []"

text \<open>\<^verbatim>\<open>descend\<close> with the visited nodes collected (what its callers' \<open>f\<close> does).\<close>

fun descend_loop ::
  "nat \<Rightarrow> CachedTree \<Rightarrow> hash \<Rightarrow> hash \<Rightarrow> BlockIndex list \<Rightarrow> (bool \<times> BlockIndex list) result" where
  "descend_loop 0 t from to visited = Inl (Exn Diverges)"
| "descend_loop (Suc fuel) t from to visited =
     (if from \<noteq> to
      then OUTCOME_TRY (deref t from) (\<lambda>f. OUTCOME_TRY (deref t to) (\<lambda>g.
             if bi_slot (tn_index f) \<le> bi_slot (tn_index g) then Inr (False, visited)
             else (case TreeNode_parent t f of
                     None \<Rightarrow> Inl (Exn BadWeakPtr)
                   | Some p \<Rightarrow> descend_loop fuel t p to (visited @ [tn_index f]))))
      else Inr (True, visited))"

definition descend :: "CachedTree \<Rightarrow> hash \<Rightarrow> hash \<Rightarrow> (bool \<times> BlockIndex list) result" where
  "descend t from to = descend_loop (length (ct_nodes t) + 1) t from to []"

definition canDescend :: "CachedTree \<Rightarrow> hash \<Rightarrow> hash \<Rightarrow> bool result" where
  "canDescend t from to = OUTCOME_TRY (descend t from to) (\<lambda>r. Inr (fst r))"

subsection \<open>Best block\<close>

definition chooseBest :: "CachedTree \<Rightarrow> TreeNode \<Rightarrow> (bool \<times> CachedTree) result" where
  "chooseBest t node =
     (if tn_reverted node then Inr (False, t)
      else OUTCOME_TRY (deref t (ct_best t)) (\<lambda>best.
             if tn_reverted best then Inl (Exn AssertionFailed)
             else if TreeNode_weight node > TreeNode_weight best
             then Inr (True, t\<lparr>ct_best := bi_hash (tn_index node)\<rparr>)
             else Inr (False, t)))"

text \<open>
  \<^verbatim>\<open>std::set\<close> with the comparison \<^verbatim>\<open>Cmp\<close>: ordered by descending
  slot, and an element with a slot that is already present is not inserted.
\<close>

fun cand_emplace :: "TreeNode \<Rightarrow> TreeNode list \<Rightarrow> TreeNode list" where
  "cand_emplace n [] = [n]"
| "cand_emplace n (c # cs) =
     (if bi_slot (tn_index c) < bi_slot (tn_index n) then n # c # cs
      else if bi_slot (tn_index n) < bi_slot (tn_index c) then c # cand_emplace n cs
      else c # cs)"

definition leaf_candidates :: "CachedTree \<Rightarrow> TreeNode list result" where
  "leaf_candidates t =
     fold_result (\<lambda>key cs.
       case map_of (ct_nodes t) key of
         None \<Rightarrow> Inl (Exn AssertionFailed)
       | Some node \<Rightarrow> Inr (cand_emplace node cs)) (map fst (ct_leaves t)) []"

fun refresh_loop :: "nat \<Rightarrow> CachedTree \<Rightarrow> TreeNode list \<Rightarrow> TreeNode \<Rightarrow> TreeNode result" where
  "refresh_loop fuel t [] best = Inr best"
| "refresh_loop 0 t (node # cs) best = Inl (Exn Diverges)"
| "refresh_loop (Suc fuel) t (node # cs) best =
     (if tn_reverted node
      then refresh_loop fuel t
             (case TreeNode_parent t node of
                None \<Rightarrow> cs
              | Some p \<Rightarrow> (case map_of (ct_nodes t) p of
                             None \<Rightarrow> cs | Some parent \<Rightarrow> cand_emplace parent cs)) best
      else refresh_loop fuel t cs
             (if TreeNode_weight best < TreeNode_weight node then node else best))"

definition forceRefreshBest :: "CachedTree \<Rightarrow> CachedTree result" where
  "forceRefreshBest t =
     OUTCOME_TRY (leaf_candidates t) (\<lambda>candidates.
       OUTCOME_TRY (deref t (ct_root t)) (\<lambda>root.
         OUTCOME_TRY (refresh_loop (length (ct_nodes t) + 1) t candidates root) (\<lambda>best.
           Inr (t\<lparr>ct_best := bi_hash (tn_index best)\<rparr>))))"

fun bestWith_loop ::
  "nat \<Rightarrow> CachedTree \<Rightarrow> TreeNode \<Rightarrow> TreeNode list \<Rightarrow> TreeNode \<Rightarrow> TreeNode result" where
  "bestWith_loop fuel t required [] best = Inr best"
| "bestWith_loop 0 t required (node # cs) best = Inl (Exn Diverges)"
| "bestWith_loop (Suc fuel) t required (node # cs) best =
     (if bi_slot (tn_index node) \<le> bi_slot (tn_index required)
      then bestWith_loop fuel t required cs best
      else if tn_reverted node
      then bestWith_loop fuel t required
             (case TreeNode_parent t node of
                None \<Rightarrow> cs
              | Some p \<Rightarrow> (case map_of (ct_nodes t) p of
                             None \<Rightarrow> cs | Some parent \<Rightarrow> cand_emplace parent cs)) best
      else if TreeNode_weight node > TreeNode_weight best
      then OUTCOME_TRY (canDescend t (bi_hash (tn_index node)) (bi_hash (tn_index required)))
             (\<lambda>ok. bestWith_loop fuel t required cs (if ok then node else best))
      else bestWith_loop fuel t required cs best)"

definition bestWith :: "CachedTree \<Rightarrow> TreeNode \<Rightarrow> BlockIndex result" where
  "bestWith t required =
     OUTCOME_TRY (leaf_candidates t) (\<lambda>candidates.
       OUTCOME_TRY (bestWith_loop (length (ct_nodes t) + 1) t required candidates required)
         (\<lambda>best. Inr (tn_index best)))"

subsection \<open>Construction and queries\<close>

definition CachedTree_new :: "BlockIndex \<Rightarrow> CachedTree" where
  "CachedTree_new root =
     \<lparr>ct_root = bi_hash root, ct_justified = root, ct_best = bi_hash root,
      ct_nodes = [(bi_hash root, TreeNode_new root)],
      ct_leaves = [(bi_hash root, bi_slot root)]\<rparr>"

definition ct_finalized :: "CachedTree \<Rightarrow> BlockIndex result" where
  "ct_finalized t = OUTCOME_TRY (deref t (ct_root t)) (\<lambda>n. Inr (tn_index n))"

definition ct_best_index :: "CachedTree \<Rightarrow> BlockIndex result" where
  "ct_best_index t = OUTCOME_TRY (deref t (ct_best t)) (\<lambda>n. Inr (tn_index n))"

definition leafCount :: "CachedTree \<Rightarrow> nat" where
  "leafCount t = length (ct_leaves t)"

definition leafInfo :: "CachedTree \<Rightarrow> BlockIndex list" where
  "leafInfo t = map (\<lambda>v. \<lparr>bi_slot = snd v, bi_hash = fst v\<rparr>) (ct_leaves t)"

definition leafHashes :: "CachedTree \<Rightarrow> hash list" where
  "leafHashes t = map fst (ct_leaves t)"

definition isLeaf :: "CachedTree \<Rightarrow> hash \<Rightarrow> bool" where
  "isLeaf t h \<longleftrightarrow> map_of (ct_leaves t) h \<noteq> None"

definition find_node :: "CachedTree \<Rightarrow> hash \<Rightarrow> TreeNode option" where
  "find_node t h = map_of (ct_nodes t) h"

definition setJustified :: "TreeNode \<Rightarrow> CachedTree \<Rightarrow> CachedTree" where
  "setJustified n t = t\<lparr>ct_justified := tn_index n\<rparr>"

subsection \<open>Insertion\<close>

definition ct_add :: "TreeNode \<Rightarrow> CachedTree \<Rightarrow> (Reorg option \<times> CachedTree) result" where
  "ct_add new_node t =
     (let h = bi_hash (tn_index new_node) in
      if map_of (ct_nodes t) h \<noteq> None then Inr (None, t)
      else if tn_children new_node \<noteq> [] then Inl (Exn AssertionFailed)
      else case TreeNode_parent t new_node of
             None \<Rightarrow> Inl (Exn BadWeakPtr)
           | Some p \<Rightarrow> OUTCOME_TRY (deref t p) (\<lambda>parent.
               if h \<in> set (tn_children parent) then Inl (Exn AssertionFailed)
               else
                 let new_node1 = new_node\<lparr>tn_depth := (tn_depth parent + 1) mod 2 ^ 32\<rparr>;
                     t1 = set_node p (parent\<lparr>tn_children := tn_children parent @ [h]\<rparr>) t;
                     t2 = set_node h new_node1 t1;
                     t3 = t2\<lparr>ct_leaves := AList.update h (bi_slot (tn_index new_node))
                               (AList.delete p (ct_leaves t2))\<rparr>
                 in OUTCOME_TRY (deref t3 (ct_best t3)) (\<lambda>best.
                      if \<not> tn_reverted new_node \<and> TreeNode_weight new_node > TreeNode_weight best
                      then let t4 = t3\<lparr>ct_best := h\<rparr>
                           in OUTCOME_TRY (reorg t4 (ct_best t3) h) (\<lambda>r. Inr (Some r, t4))
                      else Inr (None, t3))))"

subsection \<open>Finalization\<close>

text \<open>The loop up the parents of the finalized node, with the queue it fills.\<close>

fun finalize_up ::
  "nat \<Rightarrow> hash \<Rightarrow> hash option \<Rightarrow> hash list \<Rightarrow> CachedTree \<Rightarrow> (hash list \<times> CachedTree) result" where
  "finalize_up fuel child None queue t = Inr (queue, t)"
| "finalize_up 0 child (Some p) queue t = Inl (Exn Diverges)"
| "finalize_up (Suc fuel) child (Some p) queue t =
     OUTCOME_TRY (deref t p) (\<lambda>parent.
       let t1 = erase_node p t
       in finalize_up fuel p (TreeNode_parent t1 parent)
            (queue @ filter (\<lambda>c. c \<noteq> child) (tn_children parent)) t1)"

text \<open>The loop that prunes the queued subtrees.\<close>

fun prune_loop ::
  "nat \<Rightarrow> hash list \<Rightarrow> BlockIndex list \<Rightarrow> CachedTree \<Rightarrow> (BlockIndex list \<times> CachedTree) result" where
  "prune_loop fuel [] prune t = Inr (prune, t)"
| "prune_loop 0 (h # queue) prune t = Inl (Exn Diverges)"
| "prune_loop (Suc fuel) (h # queue) prune t =
     OUTCOME_TRY (deref t h) (\<lambda>node.
       let t1 = (if tn_children node = []
                 then t\<lparr>ct_leaves := AList.delete h (ct_leaves t)\<rparr> else t)
       in prune_loop fuel (queue @ tn_children node) (prune @ [tn_index node])
            (erase_node h t1))"

definition ct_finalize :: "hash \<Rightarrow> CachedTree \<Rightarrow> (ReorgAndPrune \<times> CachedTree) result" where
  "ct_finalize new_finalized t =
     OUTCOME_TRY (deref t new_finalized) (\<lambda>node.
     OUTCOME_TRY (deref t (ct_root t)) (\<lambda>root.
       if bi_slot (tn_index node) < bi_slot (tn_index root) then Inl (Exn AssertionFailed)
       else if new_finalized = ct_root t then Inr (no_changes, t)
       else if TreeNode_parent t node = None then Inl (Exn AssertionFailed)
       else
         OUTCOME_TRY (canDescend t (ct_best t) new_finalized) (\<lambda>keeps_best.
         OUTCOME_TRY (if keeps_best then Inr None
                      else OUTCOME_TRY (reorg t (ct_best t) new_finalized) (\<lambda>r. Inr (Some r)))
           (\<lambda>ro.
         OUTCOME_TRY (finalize_up (length (ct_nodes t) + 1) new_finalized
                        (TreeNode_parent t node) [] t) (\<lambda>(queue, t1).
         OUTCOME_TRY (prune_loop (length (ct_nodes t) + 1) queue [] t1) (\<lambda>(prune, t2).
         OUTCOME_TRY (deref t2 new_finalized) (\<lambda>node2.
           let t3 = set_node new_finalized (node2\<lparr>tn_parent := None\<rparr>)
                      (t2\<lparr>ct_root := new_finalized\<rparr>)
           in case ro of
                None \<Rightarrow> Inr (\<lparr>rp_reorg = None, rp_prune = rev prune\<rparr>, t3)
              | Some r \<Rightarrow>
                  OUTCOME_TRY (forceRefreshBest t3) (\<lambda>t4.
                  OUTCOME_TRY (descend t4 (ct_best t4) new_finalized) (\<lambda>(ok, visited).
                    if \<not> ok then Inl (Exn AssertionFailed)
                    else Inr (\<lparr>rp_reorg = Some (r\<lparr>ro_apply := ro_apply r @ rev visited\<rparr>),
                               rp_prune = rev prune\<rparr>, t4))))))))))"

subsection \<open>Removal\<close>

definition removeLeaf :: "hash \<Rightarrow> CachedTree \<Rightarrow> (ReorgAndPrune \<times> CachedTree) result" where
  "removeLeaf h t =
     (case map_of (ct_nodes t) h of
        None \<Rightarrow> Inl (Exn AssertionFailed)
      | Some node \<Rightarrow>
          if map_of (ct_leaves t) h = None \<or> tn_children node \<noteq> [] then Inl (Exn AssertionFailed)
          else case TreeNode_parent t node of
                 None \<Rightarrow> Inl (Exn BadWeakPtr)
               | Some p \<Rightarrow> OUTCOME_TRY (deref t p) (\<lambda>parent.
                   if h \<notin> set (tn_children parent) then Inl (Exn AssertionFailed)
                   else
                     let parent1 = parent\<lparr>tn_children := remove1 h (tn_children parent)\<rparr>;
                         t1 = set_node p parent1 t;
                         t2 = (if tn_children parent1 = []
                               then t1\<lparr>ct_leaves := AList.update p (bi_slot (tn_index parent))
                                                      (ct_leaves t1)\<rparr>
                               else t1);
                         t3 = t2\<lparr>ct_leaves := AList.delete h (ct_leaves t2)\<rparr>
                     in if h = ct_best t3
                        then OUTCOME_TRY (forceRefreshBest t3) (\<lambda>t4.
                             OUTCOME_TRY (reorg t4 h (ct_best t4)) (\<lambda>r.
                               Inr (\<lparr>rp_reorg = Some r, rp_prune = [tn_index node]\<rparr>,
                                    erase_node h t4)))
                        else Inr (\<lparr>rp_reorg = None, rp_prune = [tn_index node]\<rparr>,
                                  erase_node h t3)))"

fun unfinalized_loop ::
  "nat \<Rightarrow> hash list \<Rightarrow> BlockIndex list \<Rightarrow> CachedTree \<Rightarrow> BlockIndex list result" where
  "unfinalized_loop fuel [] prune t = Inr prune"
| "unfinalized_loop 0 (h # queue) prune t = Inl (Exn Diverges)"
| "unfinalized_loop (Suc fuel) (h # queue) prune t =
     OUTCOME_TRY (deref t h) (\<lambda>node.
     OUTCOME_TRY (fold_result (\<lambda>c is. OUTCOME_TRY (deref t c) (\<lambda>n. Inr (is @ [tn_index n])))
                    (tn_children node) []) (\<lambda>is.
       unfinalized_loop fuel (queue @ tn_children node) (prune @ is)
         (set_node h (node\<lparr>tn_children := []\<rparr>) t)))"

definition removeUnfinalized :: "CachedTree \<Rightarrow> (ReorgAndPrune \<times> CachedTree) result" where
  "removeUnfinalized t =
     OUTCOME_TRY (if ct_best t \<noteq> ct_root t
                  then OUTCOME_TRY (reorg t (ct_best t) (ct_root t)) (\<lambda>r. Inr (Some r))
                  else Inr None) (\<lambda>ro.
     OUTCOME_TRY (unfinalized_loop (length (ct_nodes t) + 1) [ct_root t] [] t) (\<lambda>prune.
     OUTCOME_TRY (deref t (ct_root t)) (\<lambda>root.
       Inr (\<lparr>rp_reorg = ro, rp_prune = rev prune\<rparr>, CachedTree_new (tn_index root)))))"

end
