(* ===== verification/TreePaths.thy ===== *)
theory TreePaths
  imports CachedTree
begin

text \<open>
  The invariant of the cached block tree and what its loops over parents compute: on a
  well-formed tree \<open>reorg\<close> returns the two paths to the lowest common ancestor, \<open>descend\<close>
  decides ancestry, \<open>forceRefreshBest\<close> finds a block of maximal slot, and the fuel of
  their loops is never used up.
\<close>

declare map_of_eq_Some_iff [simp del]

subsection \<open>The invariant\<close>

abbreviation node_at :: "CachedTree \<Rightarrow> hash \<Rightarrow> TreeNode option" where
  "node_at t \<equiv> map_of (ct_nodes t)"

abbreviation node_slot :: "TreeNode \<Rightarrow> slot" where
  "node_slot n \<equiv> bi_slot (tn_index n)"

definition node_ok :: "CachedTree \<Rightarrow> hash \<Rightarrow> TreeNode \<Rightarrow> bool" where
  "node_ok t h n \<longleftrightarrow>
     bi_hash (tn_index n) = h \<and> \<not> tn_reverted n \<and> distinct (tn_children n) \<and>
     (\<forall>c \<in> set (tn_children n). \<exists>m. node_at t c = Some m \<and> tn_parent m = Some h) \<and>
     (case tn_parent n of
        None \<Rightarrow> h = ct_root t
      | Some p \<Rightarrow> h \<noteq> ct_root t \<and>
          (\<exists>m. node_at t p = Some m \<and> h \<in> set (tn_children m) \<and> node_slot m < node_slot n))"

definition tree_ok :: "CachedTree \<Rightarrow> bool" where
  "tree_ok t \<longleftrightarrow>
     distinct (map fst (ct_nodes t)) \<and> node_at t (ct_root t) \<noteq> None \<and>
     (\<forall>h n. node_at t h = Some n \<longrightarrow> node_ok t h n)"

definition leaves_ok :: "CachedTree \<Rightarrow> bool" where
  "leaves_ok t \<longleftrightarrow>
     distinct (map fst (ct_leaves t)) \<and>
     (\<forall>h s. map_of (ct_leaves t) h = Some s \<longleftrightarrow>
        (\<exists>n. node_at t h = Some n \<and> tn_children n = [] \<and> s = node_slot n))"

definition best_ok :: "CachedTree \<Rightarrow> bool" where
  "best_ok t \<longleftrightarrow>
     (\<exists>b. node_at t (ct_best t) = Some b \<and>
        (\<forall>h n. node_at t h = Some n \<longrightarrow> node_slot n \<le> node_slot b))"

definition ct_ok :: "CachedTree \<Rightarrow> bool" where
  "ct_ok t \<longleftrightarrow> tree_ok t \<and> leaves_ok t \<and> best_ok t"

lemma tree_ok_cong:
  "ct_nodes t' = ct_nodes t \<Longrightarrow> ct_root t' = ct_root t \<Longrightarrow> tree_ok t' = tree_ok t"
  by (simp only: tree_ok_def node_ok_def)

lemma leaves_ok_cong:
  "ct_nodes t' = ct_nodes t \<Longrightarrow> ct_leaves t' = ct_leaves t \<Longrightarrow> leaves_ok t' = leaves_ok t"
  by (simp only: leaves_ok_def)

lemma tree_okD:
  assumes "tree_ok t" "node_at t h = Some n"
  shows "bi_hash (tn_index n) = h" "\<not> tn_reverted n" "distinct (tn_children n)"
    and "c \<in> set (tn_children n) \<Longrightarrow> \<exists>m. node_at t c = Some m \<and> tn_parent m = Some h"
    and "tn_parent n = None \<longleftrightarrow> h = ct_root t"
    and "tn_parent n = Some p \<Longrightarrow>
      \<exists>m. node_at t p = Some m \<and> h \<in> set (tn_children m) \<and> node_slot m < node_slot n"
proof -
  from assms have ok: "node_ok t h n" unfolding tree_ok_def by blast
  show "bi_hash (tn_index n) = h" "\<not> tn_reverted n" "distinct (tn_children n)"
    "c \<in> set (tn_children n) \<Longrightarrow> \<exists>m. node_at t c = Some m \<and> tn_parent m = Some h"
    "tn_parent n = None \<longleftrightarrow> h = ct_root t"
    "tn_parent n = Some p \<Longrightarrow>
      \<exists>m. node_at t p = Some m \<and> h \<in> set (tn_children m) \<and> node_slot m < node_slot n"
    using ok unfolding node_ok_def by (auto split: option.splits)
qed

text \<open>The part of the invariant that concerns the parent links only.\<close>

definition up_ok :: "CachedTree \<Rightarrow> bool" where
  "up_ok t \<longleftrightarrow>
     node_at t (ct_root t) \<noteq> None \<and>
     (\<forall>h n. node_at t h = Some n \<longrightarrow>
        bi_hash (tn_index n) = h \<and> (tn_parent n = None \<longleftrightarrow> h = ct_root t) \<and>
        (\<forall>p. tn_parent n = Some p \<longrightarrow> (\<exists>m. node_at t p = Some m \<and> node_slot m < node_slot n)))"

lemma tree_ok_up_ok [intro]: "tree_ok t \<Longrightarrow> up_ok t"
  unfolding up_ok_def
proof (intro conjI allI impI)
  assume ok: "tree_ok t"
  then show "node_at t (ct_root t) \<noteq> None" unfolding tree_ok_def by blast
  fix h n assume n: "node_at t h = Some n"
  show "bi_hash (tn_index n) = h" "tn_parent n = None \<longleftrightarrow> h = ct_root t"
    by (rule tree_okD[OF ok n])+
  fix p assume "tn_parent n = Some p"
  with tree_okD(6)[OF ok n] show "\<exists>m. node_at t p = Some m \<and> node_slot m < node_slot n" by blast
qed

lemma up_okD:
  assumes "up_ok t" "node_at t h = Some n"
  shows "bi_hash (tn_index n) = h" "tn_parent n = None \<longleftrightarrow> h = ct_root t"
    and "tn_parent n = Some p \<Longrightarrow> \<exists>m. node_at t p = Some m \<and> node_slot m < node_slot n"
  using assms unfolding up_ok_def by blast+

lemma up_ok_root:
  assumes "up_ok t"
  shows "\<exists>r. node_at t (ct_root t) = Some r \<and> tn_parent r = None"
proof -
  from assms obtain r where r: "node_at t (ct_root t) = Some r" unfolding up_ok_def by blast
  with up_okD(2)[OF assms r] show ?thesis by blast
qed

lemma TreeNode_parent_ok:
  assumes "up_ok t" "node_at t h = Some n"
  shows "TreeNode_parent t n = tn_parent n"
proof (cases "tn_parent n")
  case (Some p)
  with up_okD(3)[OF assms] show ?thesis by (auto simp: TreeNode_parent_def)
qed (simp add: TreeNode_parent_def)

lemma deref_Some [simp]: "node_at t h = Some n \<Longrightarrow> deref t h = Inr n"
  by (simp add: deref_def)

subsection \<open>Ancestors\<close>

inductive anc :: "CachedTree \<Rightarrow> hash \<Rightarrow> hash \<Rightarrow> bool" for t a where
  anc_refl: "node_at t a = Some n \<Longrightarrow> anc t a a"
| anc_step: "node_at t h = Some n \<Longrightarrow> tn_parent n = Some p \<Longrightarrow> anc t a p \<Longrightarrow> anc t a h"

lemma anc_nodes: "anc t a h \<Longrightarrow> node_at t a \<noteq> None \<and> node_at t h \<noteq> None"
  by (induction rule: anc.induct) auto

lemma anc_cases:
  assumes "anc t a h"
  shows "a = h \<or> (\<exists>n p. node_at t h = Some n \<and> tn_parent n = Some p \<and> anc t a p)"
  using assms by cases auto

lemma anc_trans: "anc t b h \<Longrightarrow> anc t a b \<Longrightarrow> anc t a h"
  by (induction rule: anc.induct) (auto intro: anc_step)

lemma anc_slot:
  assumes "up_ok t" "anc t a h" "node_at t a = Some m" "node_at t h = Some n"
  shows "node_slot m \<le> node_slot n \<and> (a \<noteq> h \<longrightarrow> node_slot m < node_slot n)"
  using assms(2,4)
proof (induction arbitrary: n rule: anc.induct)
  case (anc_refl n')
  with assms(3) show ?case by simp
next
  case (anc_step h n' p)
  from anc_step.hyps anc_step.prems have "tn_parent n = Some p" by simp
  with up_okD(3)[OF assms(1) anc_step.prems] obtain q where
    q: "node_at t p = Some q" "node_slot q < node_slot n" by blast
  with anc_step.IH[OF q(1)] show ?case by auto
qed

lemma anc_linear:
  assumes "anc t a h" "anc t b h"
  shows "anc t a b \<or> anc t b a"
  using assms
proof (induction rule: anc.induct)
  case (anc_step h n p)
  from anc_cases[OF anc_step.prems] show ?case
  proof
    assume "b = h"
    with anc_step.hyps show ?thesis by (blast intro: anc.anc_step)
  next
    assume "\<exists>n p. node_at t h = Some n \<and> tn_parent n = Some p \<and> anc t b p"
    with anc_step.hyps anc_step.IH show ?thesis by auto
  qed
qed simp

lemma anc_antisym: "up_ok t \<Longrightarrow> anc t a b \<Longrightarrow> anc t b a \<Longrightarrow> a = b"
  using anc_slot anc_nodes by (metis leD option.exhaust_sel)

lemma root_anc:
  assumes ok: "up_ok t" and "node_at t h = Some n"
  shows "anc t (ct_root t) h"
  using assms(2)
proof (induction "node_slot n" arbitrary: h n rule: less_induct)
  case less
  show ?case
  proof (cases "tn_parent n")
    case None
    with up_okD(2)[OF ok less.prems] less.prems show ?thesis by (auto intro: anc_refl)
  next
    case (Some p)
    with up_okD(3)[OF ok less.prems] obtain m where
      "node_at t p = Some m" "node_slot m < node_slot n" by blast
    with less.hyps less.prems Some show ?thesis by (blast intro: anc_step)
  qed
qed

lemma anc_child: "tree_ok t \<Longrightarrow> node_at t h = Some n \<Longrightarrow> c \<in> set (tn_children n) \<Longrightarrow> anc t h c"
  by (metis anc_refl anc_step tree_okD(4))

text \<open>The number of nodes of smaller slot bounds the length of a walk up the parents.\<close>

definition rank :: "CachedTree \<Rightarrow> hash \<Rightarrow> nat" where
  "rank t h =
     card {x. \<exists>m n. node_at t x = Some m \<and> node_at t h = Some n \<and> node_slot m < node_slot n}"

lemma finite_node_at: "finite {x. \<exists>m. node_at t x = Some m \<and> P x m}"
  by (rule finite_subset[of _ "dom (node_at t)"]) (auto simp: finite_dom_map_of)

lemma rank_less:
  assumes "node_at t p = Some m" "node_at t h = Some n" "node_slot m < node_slot n"
  shows "rank t p < rank t h"
proof -
  let ?below = "\<lambda>k. {x. \<exists>m n. node_at t x = Some m \<and> node_at t k = Some n \<and> node_slot m < node_slot n}"
  have "?below p \<subseteq> ?below h" using assms by (auto intro: less_trans)
  moreover have "p \<in> ?below h" "p \<notin> ?below p" using assms by auto
  moreover have "finite (?below h)"
    by (rule finite_subset[of _ "dom (node_at t)"]) (auto simp: finite_dom_map_of)
  ultimately show ?thesis unfolding rank_def by (intro psubset_card_mono) blast+
qed

lemma rank_le: "rank t h \<le> length (ct_nodes t)"
proof -
  have "rank t h \<le> card (dom (node_at t))"
    unfolding rank_def by (rule card_mono) (auto simp: finite_dom_map_of)
  also have "\<dots> \<le> card (set (map fst (ct_nodes t)))"
    by (rule card_mono) (auto simp: dom_map_of_conv_image_fst)
  also have "\<dots> \<le> length (ct_nodes t)" using card_length[of "map fst (ct_nodes t)"] by simp
  finally show ?thesis .
qed

subsection \<open>Paths\<close>

text \<open>The block indices met on the way from \<open>h\<close> up to, and without, its ancestor \<open>a\<close>.\<close>

primrec up_path :: "CachedTree \<Rightarrow> hash \<Rightarrow> BlockIndex list \<Rightarrow> hash \<Rightarrow> bool" where
  "up_path t h [] a \<longleftrightarrow> h = a \<and> node_at t h \<noteq> None"
| "up_path t h (i # is) a \<longleftrightarrow>
     (\<exists>n p. node_at t h = Some n \<and> i = tn_index n \<and> tn_parent n = Some p \<and> up_path t p is a)"

lemma up_path_snoc:
  "up_path t h is b \<Longrightarrow> node_at t b = Some n \<Longrightarrow> tn_parent n = Some a \<Longrightarrow> node_at t a \<noteq> None \<Longrightarrow>
   up_path t h (is @ [tn_index n]) a"
  by (induction "is" arbitrary: h) auto

lemma up_path_anc: "up_path t h is a \<Longrightarrow> anc t a h"
  by (induction "is" arbitrary: h) (auto intro: anc.intros)

lemma up_path_append: "up_path t h is b \<Longrightarrow> up_path t b js a \<Longrightarrow> up_path t h (is @ js) a"
  by (induction "is" arbitrary: h) auto

text \<open>A path is determined by its ends.\<close>

lemma up_path_unique:
  assumes "up_ok t" "up_path t h is a" "up_path t h js a"
  shows "is = js"
  using assms(2,3)
proof (induction "is" arbitrary: h js)
  case Nil
  then show ?case
  proof (cases js)
    case (Cons j js')
    with Nil obtain n p where n: "node_at t h = Some n" "tn_parent n = Some p" "up_path t p js' h"
      by auto
    from up_okD(3)[OF assms(1) n(1,2)] obtain m where
      m: "node_at t p = Some m" "node_slot m < node_slot n" by blast
    from anc_slot[OF assms(1) up_path_anc[OF n(3)] n(1) m(1)] m(2) show ?thesis by simp
  qed simp
next
  case (Cons i "is")
  then obtain n p where n: "node_at t h = Some n" "i = tn_index n" "tn_parent n = Some p"
    "up_path t p is a" by auto
  show ?case
  proof (cases js)
    case Nil
    with Cons.prems(2) n have "up_path t p is h" by simp
    from up_okD(3)[OF assms(1) n(1,3)] obtain m where
      m: "node_at t p = Some m" "node_slot m < node_slot n" by blast
    from anc_slot[OF assms(1) up_path_anc[OF \<open>up_path t p is h\<close>] n(1) m(1)] m(2)
    show ?thesis by simp
  next
    case (Cons j js')
    with Cons.prems(2) n have "j = i" "up_path t p js' a" by auto
    with Cons.IH[OF n(4)] show ?thesis by (simp add: \<open>js = j # js'\<close>)
  qed
qed

subsection \<open>reorg\<close>

text \<open>What a reorganisation from one block to another is: the two paths to the lowest common ancestor.\<close>

definition reorg_correct :: "CachedTree \<Rightarrow> hash \<Rightarrow> hash \<Rightarrow> Reorg \<Rightarrow> bool" where
  "reorg_correct t from to r \<longleftrightarrow>
     (\<exists>n. node_at t (bi_hash (ro_common r)) = Some n \<and> tn_index n = ro_common r) \<and>
     up_path t from (ro_revert r) (bi_hash (ro_common r)) \<and>
     up_path t to (rev (ro_apply r)) (bi_hash (ro_common r)) \<and>
     (\<forall>a. anc t a from \<and> anc t a to \<longleftrightarrow> anc t a (bi_hash (ro_common r)))"

lemma parent_exists:
  assumes "up_ok t" "node_at t h = Some n" "h \<noteq> ct_root t"
  obtains p m where "tn_parent n = Some p" "TreeNode_parent t n = Some p" "node_at t p = Some m"
    "node_slot m < node_slot n"
  using up_okD(2,3)[OF assms(1,2)] TreeNode_parent_ok[OF assms(1,2)] assms(3)
  by (metis option.exhaust)

lemma root_slot_le:
  assumes "up_ok t" "node_at t h = Some n" "node_at t (ct_root t) = Some r"
  shows "node_slot r \<le> node_slot n \<and> (h \<noteq> ct_root t \<longrightarrow> node_slot r < node_slot n)"
  using anc_slot[OF assms(1) root_anc[OF assms(1,2)] assms(3,2)] by auto

lemma anc_parent_iff:
  assumes "node_at t h = Some n" "tn_parent n = Some p" "a \<noteq> h"
  shows "anc t a h \<longleftrightarrow> anc t a p"
  using assms anc_cases[of t a h] by (auto intro: anc_step)

lemma reorg_loop_correct:
  assumes ok: "up_ok t"
    and "up_path t from0 rvt from" "up_path t to0 app to" "rank t from + rank t to < fuel"
    and "\<forall>a. anc t a from0 \<and> anc t a to0 \<longleftrightarrow> anc t a from \<and> anc t a to"
  shows "\<exists>r. reorg_loop fuel t from to rvt app = Inr r \<and> reorg_correct t from0 to0 r"
  using assms(2-)
proof (induction fuel arbitrary: "from" to rvt app)
  case (Suc fuel)
  from anc_nodes[OF up_path_anc[OF Suc.prems(1)]] anc_nodes[OF up_path_anc[OF Suc.prems(2)]]
  obtain f g where f: "node_at t from = Some f" and g: "node_at t to = Some g" by blast
  obtain r where r: "node_at t (ct_root t) = Some r" using up_ok_root[OF ok] by blast
  show ?case
  proof (cases "from = to")
    case True
    have "bi_hash (tn_index g) = to" by (rule up_okD(1)[OF ok g])
    with True f g Suc.prems show ?thesis by (auto simp: reorg_correct_def)
  next
    case neq: False
    show ?thesis
    proof (cases "node_slot f > node_slot g")
      case True
      have "from \<noteq> ct_root t" using root_slot_le[OF ok g r] True f r by auto
      from parent_exists[OF ok f this] obtain p m where
        p: "tn_parent f = Some p" "TreeNode_parent t f = Some p" "node_at t p = Some m"
          "node_slot m < node_slot f" by blast
      have "a \<noteq> from" if "anc t a to" for a
        using anc_slot[OF ok that _ g] f True by auto
      then have eq: "\<forall>a. anc t a from \<and> anc t a to \<longleftrightarrow> anc t a p \<and> anc t a to"
        using anc_parent_iff[OF f p(1)] by blast
      have "\<exists>r. reorg_loop fuel t p to (rvt @ [tn_index f]) app = Inr r \<and> reorg_correct t from0 to0 r"
        using Suc.prems up_path_snoc[OF Suc.prems(1) f p(1)] p(3) rank_less[OF p(3) f p(4)] eq
        by (intro Suc.IH) auto
      then show ?thesis using neq f g True p(2) by simp
    next
      case False
      have "to \<noteq> ct_root t" using root_slot_le[OF ok f r] False g r neq by auto
      from parent_exists[OF ok g this] obtain p m where
        p: "tn_parent g = Some p" "TreeNode_parent t g = Some p" "node_at t p = Some m"
          "node_slot m < node_slot g" by blast
      have "a \<noteq> to" if "anc t a from" for a
        using anc_slot[OF ok that _ f] g False neq by auto
      then have eq: "\<forall>a. anc t a from \<and> anc t a to \<longleftrightarrow> anc t a from \<and> anc t a p"
        using anc_parent_iff[OF g p(1)] by blast
      have "\<exists>r. reorg_loop fuel t from p rvt (app @ [tn_index g]) = Inr r \<and> reorg_correct t from0 to0 r"
        using Suc.prems up_path_snoc[OF Suc.prems(2) g p(1)] p(3) rank_less[OF p(3) g p(4)] eq
        by (intro Suc.IH) auto
      then show ?thesis using neq f g False p(2) by simp
    qed
  qed
qed simp

lemma reorg_ok:
  assumes "up_ok t" "node_at t from \<noteq> None" "node_at t to \<noteq> None"
  shows "\<exists>r. reorg t from to = Inr r \<and> reorg_correct t from to r"
proof -
  have "rank t from + rank t to < 2 * length (ct_nodes t) + 1"
    using rank_le[of t "from"] rank_le[of t to] by linarith
  then show ?thesis
    unfolding reorg_def using assms by (intro reorg_loop_correct) auto
qed

subsection \<open>descend\<close>

lemma descend_loop_correct:
  assumes ok: "up_ok t" and to: "node_at t to = Some g"
    and "up_path t from0 vis from" "rank t from < fuel"
  shows "\<exists>vis'. descend_loop fuel t from to vis = Inr (anc t to from, vis') \<and>
    (anc t to from \<longrightarrow> up_path t from0 vis' to)"
  using assms(3,4)
proof (induction fuel arbitrary: "from" vis)
  case (Suc fuel)
  from anc_nodes[OF up_path_anc[OF Suc.prems(1)]] obtain f where f: "node_at t from = Some f"
    by blast
  obtain r where r: "node_at t (ct_root t) = Some r" using up_ok_root[OF ok] by blast
  show ?case
  proof (cases "from = to")
    case True
    then show ?thesis using Suc.prems f by (auto intro: anc_refl)
  next
    case neq: False
    show ?thesis
    proof (cases "node_slot f \<le> node_slot g")
      case True
      have "\<not> anc t to from" using anc_slot[OF ok _ to f] True neq by auto
      then show ?thesis using neq f to True by simp
    next
      case False
      have "from \<noteq> ct_root t" using root_slot_le[OF ok to r] False f r by auto
      from parent_exists[OF ok f this] obtain p m where
        p: "tn_parent f = Some p" "TreeNode_parent t f = Some p" "node_at t p = Some m"
          "node_slot m < node_slot f" by blast
      have "anc t to from \<longleftrightarrow> anc t to p" using anc_parent_iff[OF f p(1)] neq by auto
      then have "\<exists>vis'. descend_loop fuel t p to (vis @ [tn_index f]) = Inr (anc t to from, vis') \<and>
          (anc t to from \<longrightarrow> up_path t from0 vis' to)"
        using Suc.IH[of "vis @ [tn_index f]" p] Suc.prems
          up_path_snoc[OF Suc.prems(1) f p(1)] p(3) rank_less[OF p(3) f p(4)] by auto
      then show ?thesis using neq f to False p(2) by simp
    qed
  qed
qed simp

lemma descend_ok:
  assumes "up_ok t" "node_at t from \<noteq> None" "node_at t to \<noteq> None"
  shows "\<exists>vis. descend t from to = Inr (anc t to from, vis) \<and>
    (anc t to from \<longrightarrow> up_path t from vis to)"
proof -
  from assms(3) obtain g where g: "node_at t to = Some g" by blast
  have "up_path t from [] from" using assms(2) by simp
  moreover have "rank t from < length (ct_nodes t) + 1" using rank_le[of t "from"] by simp
  ultimately show ?thesis unfolding descend_def by (rule descend_loop_correct[OF assms(1) g])
qed

lemma canDescend_ok:
  assumes "up_ok t" "node_at t from \<noteq> None" "node_at t to \<noteq> None"
  shows "canDescend t from to = Inr (anc t to from)"
  using descend_ok[OF assms] by (auto simp: canDescend_def)

subsection \<open>The best block\<close>

lemma cand_emplace_set:
  "set cs \<subseteq> set (cand_emplace n cs) \<and> set (cand_emplace n cs) \<subseteq> insert n (set cs) \<and>
   (\<exists>c \<in> set (cand_emplace n cs). node_slot c = node_slot n)"
  by (induction n cs rule: cand_emplace.induct) auto

lemma cand_emplace_sorted:
  "sorted_wrt (>) (map node_slot cs) \<Longrightarrow> sorted_wrt (>) (map node_slot (cand_emplace n cs))"
proof (induction cs)
  case (Cons c cs)
  have "\<forall>x \<in> set (cand_emplace n cs). node_slot x < node_slot c"
    if "node_slot n < node_slot c" using cand_emplace_set[of cs n] Cons.prems that by auto
  then show ?case using Cons by auto
qed simp

lemma leaf_candidates_ok:
  assumes "\<forall>h \<in> fst ` set (ct_leaves t). node_at t h \<noteq> None"
  shows "\<exists>cs. leaf_candidates t = Inr cs \<and>
    (\<forall>c \<in> set cs. \<exists>h. h \<in> fst ` set (ct_leaves t) \<and> node_at t h = Some c) \<and>
    (\<forall>h \<in> fst ` set (ct_leaves t). \<exists>c \<in> set cs. node_slot c = node_slot (the (node_at t h))) \<and>
    length cs \<le> length (ct_leaves t)"
proof -
  let ?f = "\<lambda>key cs. case node_at t key of None \<Rightarrow> Inl (Exn AssertionFailed)
       | Some node \<Rightarrow> Inr (cand_emplace node cs)"
  have len: "length (cand_emplace n cs) \<le> Suc (length cs)" for n cs
    by (induction n cs rule: cand_emplace.induct) auto
  have "\<exists>cs. fold_result ?f ks acc = Inr cs \<and> sorted_wrt (>) (map node_slot cs) \<and>
      set acc \<subseteq> set cs \<and> (\<forall>c \<in> set cs. c \<in> set acc \<or> (\<exists>h \<in> set ks. node_at t h = Some c)) \<and>
      (\<forall>h \<in> set ks. \<exists>c \<in> set cs. node_slot c = node_slot (the (node_at t h))) \<and>
      length cs \<le> length acc + length ks"
    if "\<forall>h \<in> set ks. node_at t h \<noteq> None" "sorted_wrt (>) (map node_slot acc)" for ks acc
    using that
  proof (induction ks arbitrary: acc)
    case (Cons k ks)
    then obtain n where n: "node_at t k = Some n" by auto
    note ce = cand_emplace_set[of acc n]
    from Cons.IH[of "cand_emplace n acc"] Cons.prems(1)
      cand_emplace_sorted[OF Cons.prems(2)] obtain cs where
      cs: "fold_result ?f ks (cand_emplace n acc) = Inr cs" "sorted_wrt (>) (map node_slot cs)"
        "set (cand_emplace n acc) \<subseteq> set cs"
        "\<forall>c \<in> set cs. c \<in> set (cand_emplace n acc) \<or> (\<exists>h \<in> set ks. node_at t h = Some c)"
        "\<forall>h \<in> set ks. \<exists>c \<in> set cs. node_slot c = node_slot (the (node_at t h))"
        "length cs \<le> length (cand_emplace n acc) + length ks" by auto
    have "\<exists>c \<in> set cs. node_slot c = node_slot n" using ce cs(3) by blast
    then show ?case
      using cs ce len[of n acc] n by (intro exI[of _ cs]) (auto; fastforce)
  qed simp
  from this[of "map fst (ct_leaves t)" "[]"] assms show ?thesis
    unfolding leaf_candidates_def by auto
qed

lemma refresh_loop_ok:
  assumes "\<forall>c \<in> set cs. \<not> tn_reverted c" "length cs \<le> fuel"
  shows "\<exists>b. refresh_loop fuel t cs best = Inr b \<and> b \<in> insert best (set cs) \<and>
    (\<forall>c \<in> insert best (set cs). node_slot c \<le> node_slot b)"
  using assms
proof (induction cs arbitrary: fuel best)
  case (Cons c cs)
  then obtain k where fuel: "fuel = Suc k" by (cases fuel) auto
  let ?b = "if TreeNode_weight best < TreeNode_weight c then c else best"
  from Cons.IH[of k ?b] Cons.prems fuel obtain b where
    "refresh_loop k t cs ?b = Inr b" "b \<in> insert ?b (set cs)"
    "\<forall>x \<in> insert ?b (set cs). node_slot x \<le> node_slot b" by auto
  then show ?case
    using Cons.prems by (auto simp: fuel TreeNode_weight_def split: if_splits)
qed (cases fuel; simp)

lemma forceRefreshBest_general:
  assumes leaves: "\<And>h. h \<in> fst ` set (ct_leaves t) \<Longrightarrow>
      \<exists>n. node_at t h = Some n \<and> \<not> tn_reverted n \<and> bi_hash (tn_index n) = h"
    and root: "node_at t (ct_root t) = Some r" "bi_hash (tn_index r) = ct_root t"
    and len: "length (ct_leaves t) \<le> length (ct_nodes t) + 1"
  shows "\<exists>b nb. forceRefreshBest t = Inr (t\<lparr>ct_best := b\<rparr>) \<and>
    node_at t b = Some nb \<and> (b = ct_root t \<or> b \<in> fst ` set (ct_leaves t)) \<and>
    node_slot r \<le> node_slot nb \<and>
    (\<forall>h n. h \<in> fst ` set (ct_leaves t) \<longrightarrow> node_at t h = Some n \<longrightarrow> node_slot n \<le> node_slot nb)"
proof -
  have "\<forall>h \<in> fst ` set (ct_leaves t). node_at t h \<noteq> None" using leaves by blast
  from leaf_candidates_ok[OF this] obtain cs where
    cs: "leaf_candidates t = Inr cs"
      "\<forall>c \<in> set cs. \<exists>h. h \<in> fst ` set (ct_leaves t) \<and> node_at t h = Some c"
      "\<forall>h \<in> fst ` set (ct_leaves t). \<exists>c \<in> set cs. node_slot c = node_slot (the (node_at t h))"
      "length cs \<le> length (ct_leaves t)" by blast
  have "\<not> tn_reverted c" if "c \<in> set cs" for c using cs(2) leaves that by fastforce
  with refresh_loop_ok[of cs "length (ct_nodes t) + 1" t r] cs(4) len obtain nb where
    nb: "refresh_loop (length (ct_nodes t) + 1) t cs r = Inr nb" "nb \<in> insert r (set cs)"
      "\<forall>c \<in> insert r (set cs). node_slot c \<le> node_slot nb" by auto
  let ?b = "bi_hash (tn_index nb)"
  have b: "node_at t ?b = Some nb \<and> (?b = ct_root t \<or> ?b \<in> fst ` set (ct_leaves t))"
  proof (cases "nb = r")
    case False
    with nb(2) have "nb \<in> set cs" by simp
    with cs(2) obtain h where h: "h \<in> fst ` set (ct_leaves t)" "node_at t h = Some nb" by blast
    with leaves[OF h(1)] show ?thesis by auto
  qed (use root in auto)
  moreover have "forceRefreshBest t = Inr (t\<lparr>ct_best := ?b\<rparr>)"
    using cs(1) root(1) nb(1) by (simp add: forceRefreshBest_def)
  moreover have "node_slot n \<le> node_slot nb"
    if "h \<in> fst ` set (ct_leaves t)" "node_at t h = Some n" for h n
    using cs(3) nb(3) that by fastforce
  ultimately show ?thesis using nb(3) by blast
qed

lemma leaves_okD:
  assumes "leaves_ok t"
  shows "h \<in> fst ` set (ct_leaves t) \<longleftrightarrow> (\<exists>n. node_at t h = Some n \<and> tn_children n = [])"
proof -
  have "h \<in> fst ` set (ct_leaves t) \<longleftrightarrow> (\<exists>s. map_of (ct_leaves t) h = Some s)"
    by (metis map_of_eq_None_iff not_None_eq)
  also have "\<dots> \<longleftrightarrow> (\<exists>n. node_at t h = Some n \<and> tn_children n = [])"
    using assms unfolding leaves_ok_def by blast
  finally show ?thesis .
qed

lemma length_leaves_le:
  assumes "distinct (map fst (ct_leaves t))" "fst ` set (ct_leaves t) \<subseteq> dom (node_at t)"
  shows "length (ct_leaves t) \<le> length (ct_nodes t)"
proof -
  have "length (ct_leaves t) = card (fst ` set (ct_leaves t))"
    using assms(1) by (metis distinct_card length_map set_map)
  also have "\<dots> \<le> card (fst ` set (ct_nodes t))"
    using assms(2) by (intro card_mono) (auto simp: dom_map_of_conv_image_fst)
  also have "\<dots> \<le> length (ct_nodes t)" by (metis card_length length_map set_map)
  finally show ?thesis .
qed

text \<open>A block of maximal slot has no children, so the leaves reach the maximum.\<close>

lemma maximal_node_is_leaf:
  assumes ok: "tree_ok t" and lv: "leaves_ok t"
  obtains h n where "node_at t h = Some n" "tn_children n = []"
    "\<And>k m. node_at t k = Some m \<Longrightarrow> node_slot m \<le> node_slot n"
proof -
  let ?S = "{node_slot m | k m. node_at t k = Some m}"
  have fin: "finite ?S"
  proof -
    have "?S = (\<lambda>k. node_slot (the (node_at t k))) ` dom (node_at t)" by (force simp: image_iff)
    then show ?thesis by (simp add: finite_dom_map_of)
  qed
  obtain r where r: "node_at t (ct_root t) = Some r" using up_ok_root ok by blast
  then have "?S \<noteq> {}" by blast
  with fin have "Max ?S \<in> ?S" by (rule Max_in)
  then obtain h n where h: "node_at t h = Some n" "node_slot n = Max ?S" by auto
  have mx: "node_slot m \<le> node_slot n" if "node_at t k = Some m" for k m
    unfolding h(2) using fin that by (intro Max_ge) auto
  have "tn_children n = []"
  proof (rule ccontr)
    assume "tn_children n \<noteq> []"
    then obtain c where c: "c \<in> set (tn_children n)" by (metis last_in_set)
    from tree_okD(4)[OF ok h(1) c] obtain m where m: "node_at t c = Some m" "tn_parent m = Some h"
      by blast
    from tree_okD(6)[OF ok m] h(1) have "node_slot n < node_slot m" by auto
    with mx[OF m(1)] show False by simp
  qed
  with h(1) mx that show ?thesis by blast
qed

lemma forceRefreshBest_ok:
  assumes ok: "tree_ok t" and lv: "leaves_ok t"
  shows "\<exists>b. forceRefreshBest t = Inr (t\<lparr>ct_best := b\<rparr>) \<and> ct_ok (t\<lparr>ct_best := b\<rparr>)"
proof -
  obtain r where r: "node_at t (ct_root t) = Some r" using up_ok_root ok by blast
  have lvs: "\<exists>n. node_at t h = Some n \<and> \<not> tn_reverted n \<and> bi_hash (tn_index n) = h"
    if "h \<in> fst ` set (ct_leaves t)" for h
    using that tree_okD(1,2)[OF ok] unfolding leaves_okD[OF lv] by blast
  have "fst ` set (ct_leaves t) \<subseteq> dom (node_at t)" using lvs by blast
  then have "length (ct_leaves t) \<le> length (ct_nodes t) + 1"
    using length_leaves_le[of t] lv by (simp add: leaves_ok_def)
  from forceRefreshBest_general[OF lvs r tree_okD(1)[OF ok r] this] obtain b nb where
    b: "forceRefreshBest t = Inr (t\<lparr>ct_best := b\<rparr>)" "node_at t b = Some nb"
      "\<forall>h n. h \<in> fst ` set (ct_leaves t) \<longrightarrow> node_at t h = Some n \<longrightarrow> node_slot n \<le> node_slot nb"
    by blast
  obtain h n where h: "node_at t h = Some n" "tn_children n = []"
    "\<And>k m. node_at t k = Some m \<Longrightarrow> node_slot m \<le> node_slot n"
    using maximal_node_is_leaf[OF ok lv] by metis
  have "node_slot n \<le> node_slot nb" using b(3) h(1,2) leaves_okD[OF lv, of h] by blast
  then have "best_ok (t\<lparr>ct_best := b\<rparr>)"
    using b(2) h(3) unfolding best_ok_def by (auto intro: order_trans)
  moreover have "tree_ok (t\<lparr>ct_best := b\<rparr>)" "leaves_ok (t\<lparr>ct_best := b\<rparr>)"
    using ok lv tree_ok_cong[of "t\<lparr>ct_best := b\<rparr>" t] leaves_ok_cong[of "t\<lparr>ct_best := b\<rparr>" t]
    by simp_all
  ultimately show ?thesis using b(1) by (auto simp: ct_ok_def)
qed

end
