(* ===== verification/TreeOps.thy ===== *)
theory TreeOps
  imports TreePaths
begin

text \<open>
  The operations that change the cached block tree keep its invariant: insertion,
  finalization, removal of a leaf and removal of everything unfinalized.  Finalization
  keeps exactly the descendants of the finalized block and reports every other block that
  is not one of its ancestors, children before parents.
\<close>

subsection \<open>Updates of the node map\<close>

lemma node_at_set_node [simp]: "node_at (set_node h n t) = (node_at t)(h \<mapsto> n)"
  by (simp add: set_node_def update_conv')

lemma node_at_erase_node [simp]: "node_at (erase_node h t) = (node_at t)(h := None)"
  by (simp add: erase_node_def delete_conv')

lemma set_node_fields [simp]:
  "ct_root (set_node h n t) = ct_root t" "ct_best (set_node h n t) = ct_best t"
  "ct_leaves (set_node h n t) = ct_leaves t" "ct_justified (set_node h n t) = ct_justified t"
  by (simp_all add: set_node_def)

lemma erase_node_fields [simp]:
  "ct_root (erase_node h t) = ct_root t" "ct_best (erase_node h t) = ct_best t"
  "ct_leaves (erase_node h t) = ct_leaves t" "ct_justified (erase_node h t) = ct_justified t"
  by (simp_all add: erase_node_def)

lemma distinct_nodes_set_node [simp]:
  "distinct (map fst (ct_nodes t)) \<Longrightarrow> distinct (map fst (ct_nodes (set_node h n t)))"
  by (simp add: set_node_def distinct_update)

lemma distinct_nodes_erase_node [simp]:
  "distinct (map fst (ct_nodes t)) \<Longrightarrow> distinct (map fst (ct_nodes (erase_node h t)))"
  by (simp add: erase_node_def distinct_delete)

lemma tree_okI:
  assumes "distinct (map fst (ct_nodes t))" "node_at t (ct_root t) \<noteq> None"
    and "\<And>h n. node_at t h = Some n \<Longrightarrow> node_ok t h n"
  shows "tree_ok t"
  unfolding tree_ok_def using assms by blast

lemma node_okI:
  assumes "bi_hash (tn_index n) = h" "\<not> tn_reverted n" "distinct (tn_children n)"
    and "\<And>c. c \<in> set (tn_children n) \<Longrightarrow> \<exists>m. node_at t c = Some m \<and> tn_parent m = Some h"
    and "tn_parent n = None \<longleftrightarrow> h = ct_root t"
    and "\<And>p. tn_parent n = Some p \<Longrightarrow>
      \<exists>m. node_at t p = Some m \<and> h \<in> set (tn_children m) \<and> node_slot m < node_slot n"
  shows "node_ok t h n"
  using assms unfolding node_ok_def by (auto split: option.splits)

subsection \<open>Insertion\<close>

text \<open>A node that may be inserted below \<open>p\<close>.\<close>

definition fresh_child :: "CachedTree \<Rightarrow> TreeNode \<Rightarrow> hash \<Rightarrow> TreeNode \<Rightarrow> bool" where
  "fresh_child t new p parent \<longleftrightarrow>
     node_at t (bi_hash (tn_index new)) = None \<and> node_at t p = Some parent \<and>
     tn_parent new = Some p \<and> tn_children new = [] \<and> \<not> tn_reverted new \<and>
     node_slot parent < node_slot new"

definition linked :: "CachedTree \<Rightarrow> TreeNode \<Rightarrow> hash \<Rightarrow> TreeNode \<Rightarrow> CachedTree" where
  "linked t new p parent =
     (let h = bi_hash (tn_index new);
          t2 = set_node h (new\<lparr>tn_depth := (tn_depth parent + 1) mod 2 ^ 32\<rparr>)
                 (set_node p (parent\<lparr>tn_children := tn_children parent @ [h]\<rparr>) t)
      in t2\<lparr>ct_leaves := AList.update h (node_slot new) (AList.delete p (ct_leaves t2))\<rparr>)"

lemma node_at_linked:
  "node_at (linked t new p parent) =
     (node_at t)(p \<mapsto> parent\<lparr>tn_children := tn_children parent @ [bi_hash (tn_index new)]\<rparr>,
       bi_hash (tn_index new) \<mapsto> new\<lparr>tn_depth := (tn_depth parent + 1) mod 2 ^ 32\<rparr>)"
  using node_at_set_node by (simp add: linked_def Let_def)

lemma linked_fields [simp]:
  "ct_root (linked t new p parent) = ct_root t" "ct_best (linked t new p parent) = ct_best t"
  "ct_justified (linked t new p parent) = ct_justified t"
  by (simp_all add: linked_def Let_def)

lemma tree_ok_linked:
  assumes ok: "tree_ok t" and fr: "fresh_child t new p parent"
  shows "tree_ok (linked t new p parent)"
proof (rule tree_okI)
  let ?h = "bi_hash (tn_index new)" and ?t = "linked t new p parent"
  let ?parent = "parent\<lparr>tn_children := tn_children parent @ [?h]\<rparr>"
  let ?new = "new\<lparr>tn_depth := (tn_depth parent + 1) mod 2 ^ 32\<rparr>"
  from fr have f: "node_at t ?h = None" "node_at t p = Some parent" "tn_parent new = Some p"
    "tn_children new = []" "\<not> tn_reverted new" "node_slot parent < node_slot new"
    by (simp_all add: fresh_child_def)
  have ph: "p \<noteq> ?h" using f(1,2) by auto
  obtain r where r: "node_at t (ct_root t) = Some r" using up_ok_root ok by blast
  show "distinct (map fst (ct_nodes ?t))"
    using ok by (simp add: linked_def Let_def tree_ok_def)
  show "node_at ?t (ct_root ?t) \<noteq> None" using r by (simp add: node_at_linked)
  have child: "\<exists>m. node_at ?t c = Some m \<and> tn_parent m = tn_parent n" if "node_at t c = Some n" for c n
    using that f(1,2) by (cases "c = p") (auto simp: node_at_linked)
  have par: "\<exists>m'. node_at ?t q = Some m' \<and> set (tn_children m) \<subseteq> set (tn_children m') \<and>
      node_slot m' = node_slot m" if "node_at t q = Some m" for q m
    using that f(1,2) by (cases "q = p") (auto simp: node_at_linked)
  fix k n assume n: "node_at ?t k = Some n"
  have "k = ?h \<and> n = ?new \<or> k = p \<and> n = ?parent \<or> node_at t k = Some n"
    using n unfolding node_at_linked fun_upd_apply by (metis option.inject)
  then consider "k = ?h" "n = ?new" | "k = p" "n = ?parent" | "node_at t k = Some n" by blast
  then show "node_ok ?t k n"
  proof cases
    case 1
    have "?h \<noteq> ct_root t" using f(1) r by auto
    then show ?thesis
      unfolding 1 using f(3-6) ph by (intro node_okI) (simp_all add: node_at_linked)
  next
    case 2
    note d = tree_okD[OF ok f(2)]
    have h: "?h \<notin> set (tn_children parent)" using d(4)[of ?h] f(1) by auto
    show ?thesis
    proof (rule node_okI)
      fix c assume "c \<in> set (tn_children n)"
      then consider "c \<in> set (tn_children parent)" | "c = ?h" using 2 by auto
      then show "\<exists>m. node_at ?t c = Some m \<and> tn_parent m = Some k"
      proof cases
        case 1
        from d(4)[OF 1] obtain m where m: "node_at t c = Some m" "tn_parent m = Some p" by blast
        from child[OF m(1)] m(2) 2 show ?thesis by simp
      qed (use 2 f(3) in \<open>simp add: node_at_linked\<close>)
    next
      fix q assume "tn_parent n = Some q"
      with 2 d(6) obtain m where m: "node_at t q = Some m" "p \<in> set (tn_children m)"
        "node_slot m < node_slot parent" by auto
      from par[OF m(1)] m(2,3) 2
      show "\<exists>m. node_at ?t q = Some m \<and> k \<in> set (tn_children m) \<and> node_slot m < node_slot n"
        by auto
    qed (use 2 d(1,2,3,5) h in auto)
  next
    case 3
    note d = tree_okD[OF ok 3(1)]
    show ?thesis
    proof (rule node_okI)
      fix c assume c: "c \<in> set (tn_children n)"
      from d(4)[OF c] obtain m where m: "node_at t c = Some m" "tn_parent m = Some k" by blast
      from child[OF m(1)] m(2) show "\<exists>m. node_at ?t c = Some m \<and> tn_parent m = Some k" by simp
    next
      fix q assume q: "tn_parent n = Some q"
      from d(6)[OF q] obtain m where m: "node_at t q = Some m" "k \<in> set (tn_children m)"
        "node_slot m < node_slot n" by blast
      from par[OF m(1)] m(2,3)
      show "\<exists>m. node_at ?t q = Some m \<and> k \<in> set (tn_children m) \<and> node_slot m < node_slot n"
        by auto
    qed (use d(1,2,3,5) in auto)
  qed
qed

lemma leaves_ok_linked:
  assumes lv: "leaves_ok t" and fr: "fresh_child t new p parent"
  shows "leaves_ok (linked t new p parent)"
proof -
  let ?h = "bi_hash (tn_index new)"
  from fr have f: "node_at t ?h = None" "node_at t p = Some parent" "tn_children new = []"
    by (simp_all add: fresh_child_def)
  then have ph: "p \<noteq> ?h" by auto
  have l: "map_of (ct_leaves (linked t new p parent)) = (map_of (ct_leaves t))(p := None, ?h \<mapsto> node_slot new)"
    by (simp add: linked_def Let_def update_conv' delete_conv')
  have d: "distinct (map fst (ct_leaves (linked t new p parent)))"
    using lv by (simp add: linked_def Let_def leaves_ok_def distinct_update distinct_delete)
  have "map_of (ct_leaves (linked t new p parent)) k = Some s \<longleftrightarrow>
      (\<exists>n. node_at (linked t new p parent) k = Some n \<and> tn_children n = [] \<and> s = node_slot n)" for k s
    using lv f ph unfolding leaves_ok_def l node_at_linked by auto
  with d show ?thesis unfolding leaves_ok_def by blast
qed

lemma ct_add_ok:
  assumes ok: "ct_ok t" and fr: "fresh_child t new p parent"
    and best: "node_at t (ct_best t) = Some b"
  defines "t1 \<equiv> linked t new p parent" and "h \<equiv> bi_hash (tn_index new)"
  shows "if node_slot b < node_slot new
    then ct_ok (t1\<lparr>ct_best := h\<rparr>) \<and>
      (\<exists>r. ct_add new t = Inr (Some r, t1\<lparr>ct_best := h\<rparr>) \<and> reorg_correct (t1\<lparr>ct_best := h\<rparr>) (ct_best t) h r)
    else ct_ok t1 \<and> ct_add new t = Inr (None, t1)"
proof -
  from ok have oks: "tree_ok t" "leaves_ok t" "best_ok t" by (simp_all add: ct_ok_def)
  from fr have f: "node_at t h = None" "node_at t p = Some parent" "tn_parent new = Some p"
    "tn_children new = []" "\<not> tn_reverted new"
    by (simp_all add: fresh_child_def h_def)
  have t1: "tree_ok t1" "leaves_ok t1"
    unfolding t1_def by (rule tree_ok_linked[OF oks(1) fr]) (rule leaves_ok_linked[OF oks(2) fr])
  have hp: "h \<notin> set (tn_children parent)" using tree_okD(4)[OF oks(1) f(2), of h] f(1) by auto
  have b1: "\<exists>b1. node_at t1 (ct_best t) = Some b1 \<and> node_slot b1 = node_slot b"
    using best f(1,2) by (auto simp: t1_def node_at_linked h_def[symmetric])
  have max: "node_slot n \<le> max (node_slot b) (node_slot new)" if "node_at t1 k = Some n" for k n
    using that oks(3) best f(2)
    by (auto simp: t1_def node_at_linked best_ok_def le_max_iff_disj split: if_splits)
  have add: "ct_add new t = OUTCOME_TRY (deref t1 (ct_best t1)) (\<lambda>best.
      if TreeNode_weight new > TreeNode_weight best
      then OUTCOME_TRY (reorg (t1\<lparr>ct_best := h\<rparr>) (ct_best t1) h) (\<lambda>r. Inr (Some r, t1\<lparr>ct_best := h\<rparr>))
      else Inr (None, t1))"
    using f hp
    by (simp add: ct_add_def TreeNode_parent_def t1_def linked_def h_def Let_def cong: if_cong)
  have h1: "node_at t1 h \<noteq> None" by (simp add: t1_def node_at_linked h_def)
  let ?t2 = "t1\<lparr>ct_best := h\<rparr>"
  have t2: "tree_ok ?t2" "leaves_ok ?t2"
    using t1 tree_ok_cong[of ?t2 t1] leaves_ok_cong[of ?t2 t1] by simp_all
  show ?thesis
  proof (cases "node_slot b < node_slot new")
    case True
    have "best_ok ?t2"
      using max True unfolding best_ok_def by (fastforce simp: t1_def node_at_linked h_def)
    moreover from reorg_ok[OF tree_ok_up_ok[OF t2(1)], of "ct_best t" h] b1 h1 obtain r where
      "reorg ?t2 (ct_best t) h = Inr r" "reorg_correct ?t2 (ct_best t) h r" by auto
    ultimately show ?thesis
      using True t2 b1 by (auto simp: add ct_ok_def TreeNode_weight_def t1_def)
  next
    case False
    then have "best_ok t1" using max b1 unfolding best_ok_def by (fastforce simp: t1_def)
    with False t1 b1 show ?thesis by (auto simp: add ct_ok_def TreeNode_weight_def t1_def)
  qed
qed

subsection \<open>Finalization: the walk up\<close>

text \<open>The strict ancestors of a block, and the other children of the blocks of a set.\<close>

definition strict_anc :: "CachedTree \<Rightarrow> hash \<Rightarrow> hash set" where
  "strict_anc t h = {a. anc t a h \<and> a \<noteq> h}"

definition siblings_of :: "CachedTree \<Rightarrow> hash \<Rightarrow> hash set \<Rightarrow> hash set" where
  "siblings_of t nf A =
     {c. \<exists>a n. a \<in> A \<and> node_at t a = Some n \<and> c \<in> set (tn_children n) \<and> \<not> anc t c nf}"

lemma strict_anc_parent:
  assumes "up_ok t" "node_at t h = Some n" "tn_parent n = Some p"
  shows "strict_anc t h = insert p (strict_anc t p)"
proof -
  have ph: "p \<noteq> h" using up_okD(3)[OF assms(1-3)] assms(2) by auto
  have pn: "node_at t p \<noteq> None" using up_okD(3)[OF assms(1-3)] by auto
  have "\<not> anc t h p"
    using anc_slot[OF assms(1) _ assms(2), of p] up_okD(3)[OF assms(1-3)] by auto
  then have "a \<in> strict_anc t h \<longleftrightarrow> a = p \<or> a \<in> strict_anc t p" for a
    using anc_parent_iff[OF assms(2,3), of a] ph pn unfolding strict_anc_def
    by (cases "a = h") (auto intro: anc_refl)
  then show ?thesis by auto
qed

lemma strict_anc_root: "up_ok t \<Longrightarrow> node_at t h = Some n \<Longrightarrow> tn_parent n = None \<Longrightarrow> strict_anc t h = {}"
  using anc_cases[of t _ h] unfolding strict_anc_def by auto

text \<open>Only one child of a block can be an ancestor of a given block.\<close>

lemma one_child_on_path:
  assumes ok: "tree_ok t" and p: "node_at t p = Some n" "c \<in> set (tn_children n)" "d \<in> set (tn_children n)"
    and anc: "anc t c h" "anc t d h"
  shows "c = d"
proof (rule ccontr)
  assume neq: "c \<noteq> d"
  have up: "up_ok t" using ok by blast
  obtain m where m: "node_at t c = Some m" "tn_parent m = Some p" using tree_okD(4)[OF ok p(1,2)] by blast
  obtain k where k: "node_at t d = Some k" "tn_parent k = Some p" using tree_okD(4)[OF ok p(1,3)] by blast
  have "\<not> anc t c p" "\<not> anc t d p"
    using anc_slot[OF up _ m(1) p(1)] anc_slot[OF up _ k(1) p(1)] up_okD(3)[OF up m] up_okD(3)[OF up k] p(1)
    by auto
  with anc_linear[OF anc] anc_parent_iff[OF m] anc_parent_iff[OF k] neq show False by metis
qed

lemma finalize_up_ok:
  assumes ok: "tree_ok t" and nf: "anc t child nf" and nc: "node_at t child = Some nc"
    and fuel: "rank t child < fuel"
    and cur: "node_at cur = (\<lambda>h. if h \<in> R then None else node_at t h)"
    and R: "\<forall>a m. a \<in> R \<and> node_at t a = Some m \<longrightarrow> node_slot nc \<le> node_slot m"
    and d: "distinct (map fst (ct_nodes cur))"
  shows "\<exists>q nodes. finalize_up fuel child (tn_parent nc) queue cur = Inr (queue @ q, cur\<lparr>ct_nodes := nodes\<rparr>) \<and>
    map_of nodes = (\<lambda>h. if h \<in> R \<union> strict_anc t child then None else node_at t h) \<and>
    distinct (map fst nodes) \<and> distinct q \<and> set q = siblings_of t nf (strict_anc t child)"
  using nf nc fuel cur R d
proof (induction fuel arbitrary: child nc R queue cur)
  case (Suc fuel)
  have up: "up_ok t" using ok by blast
  note nc = Suc.prems(2)
  show ?case
  proof (cases "tn_parent nc")
    case None
    then show ?thesis
      using Suc.prems(4,6) strict_anc_root[OF up nc None]
      by (intro exI[of _ "[]"] exI[of _ "ct_nodes cur"]) (simp add: siblings_of_def)
  next
    case (Some p)
    from tree_okD(6)[OF ok nc Some] obtain np where
      np: "node_at t p = Some np" "child \<in> set (tn_children np)" "node_slot np < node_slot nc" by blast
    have pR: "p \<notin> R" using Suc.prems(5) np(1,3) by fastforce
    let ?t1 = "erase_node p cur"
    have cur1: "node_at ?t1 = (\<lambda>h. if h \<in> insert p R then None else node_at t h)"
      using Suc.prems(4) by (auto simp: fun_eq_iff)
    have par: "TreeNode_parent ?t1 np = tn_parent np"
    proof (cases "tn_parent np")
      case g: (Some g)
      from tree_okD(6)[OF ok np(1) g] obtain ng where
        ng: "node_at t g = Some ng" "node_slot ng < node_slot np" by blast
      have "g \<notin> insert p R" using Suc.prems(5) ng np(1,3) by fastforce
      then show ?thesis using ng by (simp add: TreeNode_parent_def g cur1 del: node_at_erase_node)
    qed (simp add: TreeNode_parent_def)
    let ?q1 = "filter (\<lambda>c. c \<noteq> child) (tn_children np)"
    have ap: "anc t p nf" using anc_child[OF ok np(1,2)] Suc.prems(1) by (blast intro: anc_trans)
    have fuel: "rank t p < fuel" using rank_less[OF np(1) nc np(3)] Suc.prems(3) by simp
    have R1: "\<forall>a m. a \<in> insert p R \<and> node_at t a = Some m \<longrightarrow> node_slot np \<le> node_slot m"
      using Suc.prems(5) np(1,3) by fastforce
    have d1: "distinct (map fst (ct_nodes ?t1))" using Suc.prems(6) by simp
    from Suc.IH[OF ap np(1) fuel cur1 R1 d1, where queue = "queue @ ?q1"] obtain q nodes where
      q: "finalize_up fuel p (tn_parent np) (queue @ ?q1) ?t1
            = Inr ((queue @ ?q1) @ q, ?t1\<lparr>ct_nodes := nodes\<rparr>)"
        "map_of nodes = (\<lambda>h. if h \<in> insert p R \<union> strict_anc t p then None else node_at t h)"
        "distinct (map fst nodes)" "distinct q" "set q = siblings_of t nf (strict_anc t p)"
      by blast
    have sa: "strict_anc t child = insert p (strict_anc t p)" by (rule strict_anc_parent[OF up nc Some])
    have only: "c \<noteq> child \<longleftrightarrow> \<not> anc t c nf" if "c \<in> set (tn_children np)" for c
      using one_child_on_path[OF ok np(1) that np(2)] Suc.prems(1) by auto
    have set: "set (?q1 @ q) = siblings_of t nf (strict_anc t child)"
      unfolding sa siblings_of_def set_append q(5) using only np(1) Suc.prems(1) by auto
    have disj: "set ?q1 \<inter> set q = {}"
    proof -
      have False if c: "c \<in> set (tn_children np)" "c \<in> siblings_of t nf (strict_anc t p)" for c
      proof -
        from c(2) obtain a n where a: "a \<in> strict_anc t p" "node_at t a = Some n" "c \<in> set (tn_children n)"
          by (auto simp: siblings_of_def)
        from tree_okD(4)[OF ok np(1) c(1)] tree_okD(4)[OF ok a(2,3)] have "a = p" by auto
        with a(1) show False by (simp add: strict_anc_def)
      qed
      with q(5) show ?thesis by auto
    qed
    have "distinct (?q1 @ q)" using disj q(4) tree_okD(3)[OF ok np(1)] by simp
    moreover have "finalize_up (Suc fuel) child (tn_parent nc) queue cur
        = Inr (queue @ (?q1 @ q), cur\<lparr>ct_nodes := nodes\<rparr>)"
      using q(1) pR np(1) Suc.prems(4) par by (simp add: Some deref_def Let_def erase_node_def)
    moreover have "map_of nodes = (\<lambda>h. if h \<in> R \<union> strict_anc t child then None else node_at t h)"
      unfolding q(2) sa by (auto simp: fun_eq_iff)
    ultimately show ?thesis using q(3) set by blast
  qed
qed simp

subsection \<open>Finalization: the pruning queue\<close>

text \<open>
  The state of the pruning loop: what is left of the tree is closed under children, the
  queued nodes and the finalized node are the ones whose parents are gone, and no queued
  node is related to the finalized one.
\<close>

definition prune_inv :: "CachedTree \<Rightarrow> hash \<Rightarrow> hash list \<Rightarrow> CachedTree \<Rightarrow> bool" where
  "prune_inv t nf queue cur \<longleftrightarrow>
     distinct (map fst (ct_nodes cur)) \<and> distinct (map fst (ct_leaves cur)) \<and> distinct queue \<and>
     (\<forall>h n. node_at cur h = Some n \<longrightarrow> node_at t h = Some n) \<and>
     node_at cur nf \<noteq> None \<and>
     (\<forall>q \<in> set queue. node_at cur q \<noteq> None \<and> \<not> anc t q nf \<and> \<not> anc t nf q) \<and>
     (\<forall>h n c. node_at cur h = Some n \<and> c \<in> set (tn_children n) \<longrightarrow> node_at cur c \<noteq> None) \<and>
     (\<forall>h n. node_at cur h = Some n \<longrightarrow>
        (h \<in> insert nf (set queue) \<longleftrightarrow> \<not> (\<exists>p. tn_parent n = Some p \<and> node_at cur p \<noteq> None))) \<and>
     (\<forall>h s. map_of (ct_leaves cur) h = Some s \<longleftrightarrow>
        (\<exists>n. node_at cur h = Some n \<and> tn_children n = [] \<and> s = node_slot n))"

lemma prune_invD:
  assumes "prune_inv t nf queue cur"
  shows "distinct (map fst (ct_nodes cur))" "distinct (map fst (ct_leaves cur))" "distinct queue"
    and "node_at cur h = Some n \<Longrightarrow> node_at t h = Some n"
    and "node_at cur nf \<noteq> None"
    and "q \<in> set queue \<Longrightarrow> node_at cur q \<noteq> None \<and> \<not> anc t q nf \<and> \<not> anc t nf q"
    and "node_at cur h = Some n \<Longrightarrow> c \<in> set (tn_children n) \<Longrightarrow> node_at cur c \<noteq> None"
    and "node_at cur h = Some n \<Longrightarrow>
      h \<in> insert nf (set queue) \<longleftrightarrow> \<not> (\<exists>p. tn_parent n = Some p \<and> node_at cur p \<noteq> None)"
    and "map_of (ct_leaves cur) h = Some s \<longleftrightarrow>
        (\<exists>n. node_at cur h = Some n \<and> tn_children n = [] \<and> s = node_slot n)"
  using assms unfolding prune_inv_def by blast+

definition prune_step :: "hash \<Rightarrow> TreeNode \<Rightarrow> CachedTree \<Rightarrow> CachedTree" where
  "prune_step h n cur =
     erase_node h (if tn_children n = [] then cur\<lparr>ct_leaves := AList.delete h (ct_leaves cur)\<rparr> else cur)"

lemma prune_step_fields [simp]:
  "node_at (prune_step h n cur) = (node_at cur)(h := None)"
  "ct_root (prune_step h n cur) = ct_root cur" "ct_best (prune_step h n cur) = ct_best cur"
  "ct_justified (prune_step h n cur) = ct_justified cur"
  by (simp_all add: prune_step_def erase_node_def delete_conv')

lemma prune_inv_step:
  assumes ok: "tree_ok t" and inv: "prune_inv t nf (h # queue) cur" and n: "node_at cur h = Some n"
  shows "prune_inv t nf (queue @ tn_children n) (prune_step h n cur)"
proof -
  note I = prune_invD[OF inv]
  have nt: "node_at t h = Some n" by (rule I(4)[OF n])
  have hq: "h \<notin> set queue" and dq: "distinct queue" using I(3) by auto
  have hnf: "\<not> anc t h nf" "\<not> anc t nf h" using I(6)[of h] by auto
  have h_ne: "h \<noteq> nf" using hnf(1) nt by (auto intro: anc_refl)
  have hpar: "\<not> (\<exists>p. tn_parent n = Some p \<and> node_at cur p \<noteq> None)" using I(8)[OF n] by auto
  have child: "\<exists>m. node_at cur c = Some m \<and> tn_parent m = Some h \<and> c \<noteq> h \<and> c \<notin> set queue \<and> c \<noteq> nf"
    if c: "c \<in> set (tn_children n)" for c
  proof -
    from I(7)[OF n c] obtain m where m: "node_at cur c = Some m" by auto
    from tree_okD(4)[OF ok nt c] I(4)[OF m] have p: "tn_parent m = Some h" by auto
    have "c \<notin> insert nf (set (h # queue))" using I(8)[OF m] p n by auto
    with m p show ?thesis by auto
  qed
  have unrelated: "\<not> anc t c nf \<and> \<not> anc t nf c" if c: "c \<in> set (tn_children n)" for c
  proof -
    from child[OF c] obtain m where m: "node_at t c = Some m" "tn_parent m = Some h" "c \<noteq> nf"
      using I(4) by blast
    have "\<not> anc t c nf" using anc_child[OF ok nt c] hnf(1) by (blast intro: anc_trans)
    moreover have "\<not> anc t nf c" using anc_parent_iff[OF m(1,2)] hnf(2) m(3) by auto
    ultimately show ?thesis by blast
  qed
  have sub: "node_at t k = Some m" if "node_at (prune_step h n cur) k = Some m" for k m
    using that I(4)[of k m] by (auto split: if_splits)
  have closed: "node_at (prune_step h n cur) c \<noteq> None"
    if k: "node_at (prune_step h n cur) k = Some m" and c: "c \<in> set (tn_children m)" for k m c
  proof -
    from k have k': "node_at cur k = Some m" by (auto split: if_splits)
    from tree_okD(4)[OF ok I(4)[OF k'] c] obtain mc where
      mc: "node_at t c = Some mc" "tn_parent mc = Some k" by blast
    have "c \<noteq> h" using mc nt hpar k' by auto
    with I(7)[OF k' c] show ?thesis by simp
  qed
  have front: "k \<in> insert nf (set (queue @ tn_children n)) \<longleftrightarrow>
      \<not> (\<exists>p. tn_parent m = Some p \<and> node_at (prune_step h n cur) p \<noteq> None)"
    if k: "node_at (prune_step h n cur) k = Some m" for k m
  proof -
    from k have k': "node_at cur k = Some m" "k \<noteq> h" by (auto split: if_splits)
    have "k \<in> set (tn_children n) \<longleftrightarrow> tn_parent m = Some h"
      using child[of k] k' tree_okD(6)[OF ok I(4)[OF k'(1)], of h] nt by auto
    with I(8)[OF k'(1)] k'(2) n show ?thesis by (auto split: if_splits)
  qed
  have lv: "map_of (ct_leaves (prune_step h n cur)) k = Some s \<longleftrightarrow>
      (\<exists>m. node_at (prune_step h n cur) k = Some m \<and> tn_children m = [] \<and> s = node_slot m)" for k s
    using I(9)[of k s] n by (auto simp: prune_step_def delete_conv')
  have dl: "distinct (map fst (ct_leaves (prune_step h n cur)))" "distinct (map fst (ct_nodes (prune_step h n cur)))"
    using I(1,2) by (auto simp: prune_step_def distinct_delete)
  have dq': "distinct (queue @ tn_children n)"
    using dq tree_okD(3)[OF ok nt] child by auto
  have q: "\<forall>q \<in> set (queue @ tn_children n). node_at (prune_step h n cur) q \<noteq> None \<and>
      \<not> anc t q nf \<and> \<not> anc t nf q"
    using I(6) hq child unrelated by fastforce
  have nfn: "node_at (prune_step h n cur) nf \<noteq> None" using I(5) h_ne by simp
  show ?thesis
    unfolding prune_inv_def
    by (intro conjI dl dq' nfn q) (use sub closed front lv in \<open>blast+\<close>)
qed

text \<open>When the queue is empty exactly the descendants of the finalized node are left.\<close>

lemma prune_inv_done:
  assumes ok: "tree_ok t" and inv: "prune_inv t nf [] cur"
  shows "node_at cur h \<noteq> None \<longleftrightarrow> anc t nf h"
proof
  note I = prune_invD[OF inv]
  show "anc t nf h" if "node_at cur h \<noteq> None"
  proof -
    from that obtain n where "node_at cur h = Some n" by blast
    then show ?thesis
    proof (induction "node_slot n" arbitrary: h n rule: less_induct)
      case less
      show ?case
      proof (cases "h = nf")
        case True
        then show ?thesis using I(4)[OF less.prems] by (auto intro: anc_refl)
      next
        case False
        with I(8)[OF less.prems] obtain p m where p: "tn_parent n = Some p" "node_at cur p = Some m"
          by auto
        from tree_okD(6)[OF ok I(4)[OF less.prems] p(1)] I(4)[OF p(2)]
        have "node_slot m < node_slot n" by auto
        from less.hyps[OF this p(2)] p(1) I(4)[OF less.prems] show ?thesis by (blast intro: anc_step)
      qed
    qed
  qed
  show "node_at cur h \<noteq> None" if "anc t nf h"
    using that
  proof (induction rule: anc.induct)
    case (anc_refl n)
    show ?case by (rule I(5))
  next
    case (anc_step h n p)
    then obtain m where m: "node_at cur p = Some m" by blast
    from tree_okD(6)[OF ok anc_step.hyps(1,2)] I(4)[OF m] have "h \<in> set (tn_children m)" by auto
    from I(7)[OF m this] show ?case .
  qed
qed

text \<open>The order of the queue: no node precedes its parent.\<close>

primrec parents_first :: "CachedTree \<Rightarrow> BlockIndex list \<Rightarrow> bool" where
  "parents_first t [] = True"
| "parents_first t (i # is) \<longleftrightarrow>
     (\<forall>n. node_at t (bi_hash i) = Some n \<longrightarrow> tn_parent n \<notin> Some ` bi_hash ` set is) \<and>
     parents_first t is"

lemma prune_loop_ok:
  assumes ok: "tree_ok t" and inv: "prune_inv t nf queue cur"
    and fuel: "card (dom (node_at cur)) \<le> fuel"
  shows "\<exists>ps cur'. prune_loop fuel queue prune cur = Inr (prune @ ps, cur') \<and>
    prune_inv t nf [] cur' \<and>
    set ps = {tn_index n | h n. node_at cur h = Some n \<and> node_at cur' h = None} \<and>
    distinct (map bi_hash ps) \<and> parents_first t ps \<and>
    ct_root cur' = ct_root cur \<and> ct_best cur' = ct_best cur \<and> ct_justified cur' = ct_justified cur \<and>
    (\<forall>h n. node_at cur' h = Some n \<longrightarrow> node_at cur h = Some n)"
  using inv fuel
proof (induction fuel arbitrary: queue cur prune)
  case 0
  have "queue = []"
  proof (cases queue)
    case (Cons h q)
    then have "h \<in> dom (node_at cur)" using prune_invD(6)[OF "0.prems"(1), of h] by auto
    with "0.prems"(2) show ?thesis by (simp add: finite_dom_map_of card_eq_0_iff)
  qed simp
  with "0.prems" show ?case by (intro exI[of _ "[]"] exI[of _ cur]) auto
next
  case (Suc fuel)
  show ?case
  proof (cases queue)
    case Nil
    with Suc.prems show ?thesis by (intro exI[of _ "[]"] exI[of _ cur]) auto
  next
    case (Cons h q)
    note I = prune_invD[OF Suc.prems(1)]
    from I(6)[of h] Cons obtain n where n: "node_at cur h = Some n" by auto
    let ?c1 = "prune_step h n cur"
    have inv1: "prune_inv t nf (q @ tn_children n) ?c1"
      using prune_inv_step[OF ok _ n] Suc.prems(1) Cons by simp
    have "card (dom (node_at ?c1)) < card (dom (node_at cur))"
      using n by (intro psubset_card_mono) (auto simp: finite_dom_map_of)
    then have "card (dom (node_at ?c1)) \<le> fuel" using Suc.prems(2) by simp
    from Suc.IH[OF inv1 this, of "prune @ [tn_index n]"] obtain ps cur' where
      r: "prune_loop fuel (q @ tn_children n) (prune @ [tn_index n]) ?c1
            = Inr ((prune @ [tn_index n]) @ ps, cur')"
        "prune_inv t nf [] cur'"
        "set ps = {tn_index n | h n. node_at ?c1 h = Some n \<and> node_at cur' h = None}"
        "distinct (map bi_hash ps)" "parents_first t ps"
        "ct_root cur' = ct_root ?c1" "ct_best cur' = ct_best ?c1" "ct_justified cur' = ct_justified ?c1"
        "\<forall>h n. node_at cur' h = Some n \<longrightarrow> node_at ?c1 h = Some n" by blast
    have hh: "bi_hash (tn_index n) = h" using tree_okD(1)[OF ok I(4)[OF n]] .
    have gone: "node_at cur' h = None" using r(9)[rule_format, of h] by (cases "node_at cur' h") auto
    have hash: "bi_hash i \<noteq> h \<and> node_at cur (bi_hash i) \<noteq> None" if "i \<in> set ps" for i
    proof -
      from that r(3) obtain k m where k: "i = tn_index m" "node_at ?c1 k = Some m" by auto
      then have "node_at cur k = Some m" "k \<noteq> h" by (auto split: if_splits)
      moreover from this have "bi_hash (tn_index m) = k" using tree_okD(1)[OF ok I(4)] by blast
      ultimately show ?thesis by (simp add: k(1))
    qed
    have "set (tn_index n # ps) = {tn_index n | h n. node_at cur h = Some n \<and> node_at cur' h = None}"
    proof (intro set_eqI iffI)
      fix i assume "i \<in> set (tn_index n # ps)"
      then show "i \<in> {tn_index n | h n. node_at cur h = Some n \<and> node_at cur' h = None}"
        using n gone by (auto simp: r(3) split: if_splits)
    next
      fix i assume "i \<in> {tn_index n | h n. node_at cur h = Some n \<and> node_at cur' h = None}"
      then obtain k m where k: "i = tn_index m" "node_at cur k = Some m" "node_at cur' k = None" by blast
      then show "i \<in> set (tn_index n # ps)"
      proof (cases "k = h")
        case False
        then have "node_at ?c1 k = Some m" using k(2) by simp
        with k(1,3) have "i \<in> set ps" unfolding r(3) by blast
        then show ?thesis by simp
      qed (use n in simp)
    qed
    moreover have "distinct (map bi_hash (tn_index n # ps))" using r(4) hh by (auto dest!: hash)
    moreover have "parents_first t (tn_index n # ps)"
    proof -
      have "\<not> (\<exists>p. tn_parent n = Some p \<and> node_at cur p \<noteq> None)" using I(8)[OF n] Cons by auto
      then have "tn_parent n \<notin> Some ` bi_hash ` set ps" by (auto dest!: hash)
      then show ?thesis using r(5) I(4)[OF n] hh by simp
    qed
    moreover have "prune_loop (Suc fuel) queue prune cur = Inr (prune @ (tn_index n # ps), cur')"
      using r(1) n by (simp add: Cons prune_step_def Let_def)
    moreover have "\<forall>h n. node_at cur' h = Some n \<longrightarrow> node_at cur h = Some n"
    proof (intro allI impI)
      fix k m assume "node_at cur' k = Some m"
      with r(9) have "node_at ?c1 k = Some m" by blast
      then show "node_at cur k = Some m" by (simp split: if_splits)
    qed
    ultimately show ?thesis using r(2,6-8) by (intro exI[of _ "tn_index n # ps"] exI[of _ cur']) simp
  qed
qed

subsection \<open>Finalization\<close>

lemma prune_inv_start:
  assumes ok: "tree_ok t" and lv: "leaves_ok t" and nf: "node_at t nf \<noteq> None"
    and nodes: "map_of (ct_nodes cur) = (\<lambda>h. if h \<in> strict_anc t nf then None else node_at t h)"
    and leaves: "ct_leaves cur = ct_leaves t"
    and d: "distinct (map fst (ct_nodes cur))" "distinct q" "set q = siblings_of t nf (strict_anc t nf)"
  shows "prune_inv t nf q cur"
proof -
  have up: "up_ok t" using ok by blast
  have in_cur: "node_at cur h = Some n \<longleftrightarrow> node_at t h = Some n \<and> h \<notin> strict_anc t nf" for h n
    by (simp add: nodes)
  have nf_cur: "node_at cur nf \<noteq> None" using nf by (simp add: nodes strict_anc_def)
  have queue: "\<forall>c \<in> set q. node_at cur c \<noteq> None \<and> \<not> anc t c nf \<and> \<not> anc t nf c"
  proof
    fix c assume "c \<in> set q"
    then obtain a n where a: "a \<in> strict_anc t nf" "node_at t a = Some n" "c \<in> set (tn_children n)"
      "\<not> anc t c nf" unfolding d(3) siblings_of_def by blast
    from tree_okD(4)[OF ok a(2,3)] obtain m where m: "node_at t c = Some m" "tn_parent m = Some a" by blast
    have "nf \<noteq> c" using a(4) m(1) by (auto intro: anc_refl)
    moreover have "\<not> anc t nf a" using a(1) anc_antisym[OF up] by (auto simp: strict_anc_def)
    ultimately have "\<not> anc t nf c" using anc_parent_iff[OF m] by auto
    with a(4) m(1) show "node_at cur c \<noteq> None \<and> \<not> anc t c nf \<and> \<not> anc t nf c"
      by (simp add: nodes strict_anc_def)
  qed
  have closed: "node_at cur c \<noteq> None" if "node_at cur h = Some n" "c \<in> set (tn_children n)" for h n c
  proof -
    from that have h: "node_at t h = Some n" "h \<notin> strict_anc t nf" by (simp_all add: in_cur)
    from tree_okD(4)[OF ok h(1) that(2)] obtain m where m: "node_at t c = Some m" "tn_parent m = Some h" by blast
    have "c \<notin> strict_anc t nf"
      using strict_anc_parent[OF up m] h(2) anc_trans[of t c nf h] anc_child[OF ok h(1) that(2)]
        anc_antisym[OF up, of h c] by (auto simp: strict_anc_def)
    with m(1) show ?thesis by (simp add: nodes)
  qed
  have front: "h \<in> insert nf (set q) \<longleftrightarrow> \<not> (\<exists>p. tn_parent n = Some p \<and> node_at cur p \<noteq> None)"
    if h: "node_at cur h = Some n" for h n
  proof -
    from h have ht: "node_at t h = Some n" "h \<notin> strict_anc t nf" by (simp_all add: in_cur)
    have left: "\<not> (\<exists>p. tn_parent n = Some p \<and> node_at cur p \<noteq> None) \<longleftrightarrow>
        (\<forall>p. tn_parent n = Some p \<longrightarrow> p \<in> strict_anc t nf)"
      using up_okD(3)[OF up ht(1)] by (auto simp: nodes)
    show ?thesis
    proof (cases "h = nf")
      case True
      then show ?thesis using left strict_anc_parent[OF up ht(1)] by auto
    next
      case False
      have na: "\<not> anc t h nf" using ht(2) False by (auto simp: strict_anc_def)
      then have "h \<noteq> ct_root t" using root_anc[OF up] nf by auto
      then obtain p where p: "tn_parent n = Some p" using up_okD(2)[OF up ht(1)] by auto
      have "h \<in> set q \<longleftrightarrow> p \<in> strict_anc t nf"
        unfolding d(3) siblings_of_def
        using tree_okD(6)[OF ok ht(1) p] tree_okD(4)[OF ok _ , of _ _ h] ht(1) p na by auto
      then show ?thesis using left p False by simp
    qed
  qed
  have lvs: "map_of (ct_leaves cur) h = Some s \<longleftrightarrow>
      (\<exists>n. node_at cur h = Some n \<and> tn_children n = [] \<and> s = node_slot n)" for h s
  proof -
    have "h \<notin> strict_anc t nf" if "node_at t h = Some n" "tn_children n = []" for n
    proof
      assume "h \<in> strict_anc t nf"
      then have a: "anc t h nf" "h \<noteq> nf" by (auto simp: strict_anc_def)
      have "nf = h \<or> (\<exists>c m. node_at t c = Some m \<and> tn_parent m = Some h)"
        using a(1) by (induction rule: anc.induct) auto
      with a(2) tree_okD(6)[OF ok] that show False by fastforce
    qed
    then show ?thesis using lv unfolding leaves leaves_ok_def in_cur by blast
  qed
  have dl: "distinct (map fst (ct_leaves cur))" using lv by (simp add: leaves leaves_ok_def)
  show ?thesis
    unfolding prune_inv_def
    by (intro conjI d(1,2) dl nf_cur queue) (use in_cur closed front lvs in \<open>blast+\<close>)
qed

text \<open>The subtree below the finalized node is a well-formed tree again.\<close>

lemma finalized_subtree_ok:
  assumes ok: "tree_ok t" and inv: "prune_inv t nf [] cur" and n: "node_at cur nf = Some n"
  defines "t3 \<equiv> set_node nf (n\<lparr>tn_parent := None\<rparr>) (cur\<lparr>ct_root := nf\<rparr>)"
  shows "tree_ok t3" "leaves_ok t3"
    and "node_at t3 h = (if h = nf then Some (n\<lparr>tn_parent := None\<rparr>) else if anc t nf h then node_at t h else None)"
proof -
  note I = prune_invD[OF inv]
  have n3: "node_at t3 = (node_at cur)(nf \<mapsto> n\<lparr>tn_parent := None\<rparr>)"
    using node_at_set_node[of nf "n\<lparr>tn_parent := None\<rparr>" "cur\<lparr>ct_root := nf\<rparr>"] by (simp add: t3_def)
  have root3: "ct_root t3 = nf" by (simp add: t3_def)
  have nt: "node_at t nf = Some n" by (rule I(4)[OF n])
  show "node_at t3 h = (if h = nf then Some (n\<lparr>tn_parent := None\<rparr>) else if anc t nf h then node_at t h else None)"
    using prune_inv_done[OF ok inv, of h] I(4)[of h] by (cases "node_at cur h") (auto simp: n3)
  show "tree_ok t3"
  proof (rule tree_okI)
    show "distinct (map fst (ct_nodes t3))" using I(1) by (simp add: t3_def)
    show "node_at t3 (ct_root t3) \<noteq> None" by (simp add: n3 root3)
    fix k m assume m: "node_at t3 k = Some m"
    then obtain mk where mk: "node_at cur k = Some mk" "tn_children m = tn_children mk"
        "tn_index m = tn_index mk" "tn_reverted m = tn_reverted mk"
        "tn_parent m = (if k = nf then None else tn_parent mk)"
      using n by (auto simp: n3 split: if_splits)
    note d = tree_okD[OF ok I(4)[OF mk(1)]]
    show "node_ok t3 k m"
    proof (rule node_okI)
      fix c assume "c \<in> set (tn_children m)"
      then have c: "c \<in> set (tn_children mk)" by (simp add: mk)
      from I(7)[OF mk(1) c] obtain mc where mc: "node_at cur c = Some mc" by blast
      from d(4)[OF c] I(4)[OF mc] have pc: "tn_parent mc = Some k" by auto
      have "c \<noteq> nf" using I(8)[OF mc] pc mk(1) by auto
      with mc pc show "\<exists>m. node_at t3 c = Some m \<and> tn_parent m = Some k" by (simp add: n3)
    next
      fix p assume p: "tn_parent m = Some p"
      then have kp: "k \<noteq> nf" "tn_parent mk = Some p" by (auto simp: mk(5) split: if_splits)
      from I(8)[OF mk(1)] kp obtain mp where mp: "node_at cur p = Some mp" by auto
      from d(6)[OF kp(2)] I(4)[OF mp] have "k \<in> set (tn_children mp)" "node_slot mp < node_slot mk" by auto
      with mp n show "\<exists>q. node_at t3 p = Some q \<and> k \<in> set (tn_children q) \<and> node_slot q < node_slot m"
        by (auto simp: n3 mk(3))
    next
      show "tn_parent m = None \<longleftrightarrow> k = ct_root t3" using I(8)[OF mk(1)] by (auto simp: mk(5) root3)
    qed (use d(1-3) mk in auto)
  qed
  have "map_of (ct_leaves t3) k = Some s \<longleftrightarrow>
      (\<exists>m. node_at t3 k = Some m \<and> tn_children m = [] \<and> s = node_slot m)" for k s
    using I(9)[of k s] n by (auto simp: n3 t3_def)
  then show "leaves_ok t3" using I(2) unfolding leaves_ok_def by (simp add: t3_def)
qed

lemma up_path_subtree:
  assumes "up_path t3 h is nf" "\<And>k n. k \<noteq> nf \<Longrightarrow> node_at t3 k = Some n \<Longrightarrow> node_at t k = Some n"
    and "\<And>n. node_at t3 nf = Some n \<Longrightarrow> tn_parent n = None" "node_at t nf \<noteq> None"
  shows "up_path t h is nf"
  using assms(1)
proof (induction "is" arbitrary: h)
  case (Cons i "is")
  then obtain n p where "node_at t3 h = Some n" "i = tn_index n" "tn_parent n = Some p" "up_path t3 p is nf"
    by auto
  moreover from this assms(3) have "h \<noteq> nf" by auto
  ultimately show ?case using Cons.IH assms(2) by auto
qed (use assms(4) in simp)

text \<open>What finalization of a block does to a well-formed tree.\<close>

definition finalize_spec :: "CachedTree \<Rightarrow> hash \<Rightarrow> ReorgAndPrune \<Rightarrow> CachedTree \<Rightarrow> bool" where
  "finalize_spec t nf ch t' \<longleftrightarrow>
     ct_root t' = nf \<and> (\<forall>h. node_at t' h \<noteq> None \<longleftrightarrow> anc t nf h) \<and>
     set (rp_prune ch) = {tn_index m | h m. node_at t h = Some m \<and> \<not> anc t nf h \<and> \<not> anc t h nf} \<and>
     distinct (map bi_hash (rp_prune ch)) \<and> parents_first t (rev (rp_prune ch)) \<and>
     ct_justified t' = ct_justified t \<and>
     (case rp_reorg ch of
        None \<Rightarrow> anc t nf (ct_best t) \<and> ct_best t' = ct_best t
      | Some r \<Rightarrow> \<not> anc t nf (ct_best t) \<and>
          (let c = bi_hash (ro_common r) in
           up_path t (ct_best t) (ro_revert r) c \<and> up_path t (ct_best t') (rev (ro_apply r)) c \<and>
           (\<forall>a. anc t a (ct_best t) \<and> anc t a nf \<longleftrightarrow> anc t a c)))"

lemma finalize_prune_phase:
  assumes ok: "tree_ok t" and lv: "leaves_ok t" and n: "node_at t nf = Some n"
  obtains q t1 ps t2 where
    "finalize_up (length (ct_nodes t) + 1) nf (TreeNode_parent t n) [] t = Inr (q, t1)"
    "prune_loop (length (ct_nodes t) + 1) q [] t1 = Inr (ps, t2)"
    "prune_inv t nf [] t2" "ct_root t2 = ct_root t" "ct_best t2 = ct_best t"
    "ct_justified t2 = ct_justified t"
    "set ps = {tn_index m | h m. node_at t h = Some m \<and> \<not> anc t nf h \<and> \<not> anc t h nf}"
    "distinct (map bi_hash ps)" "parents_first t ps"
proof -
  have up: "up_ok t" using ok by blast
  have par: "TreeNode_parent t n = tn_parent n" by (rule TreeNode_parent_ok[OF up n])
  have anc: "anc t nf nf" using n by (rule anc_refl)
  have rk: "rank t nf < length (ct_nodes t) + 1" using rank_le[of t nf] by simp
  have "distinct (map fst (ct_nodes t))" using ok by (simp add: tree_ok_def)
  from finalize_up_ok[OF ok anc n rk, of t "{}", OF _ _ this, of "[]"] obtain q nodes where
    q: "finalize_up (length (ct_nodes t) + 1) nf (tn_parent n) [] t = Inr (q, t\<lparr>ct_nodes := nodes\<rparr>)"
      "map_of nodes = (\<lambda>h. if h \<in> strict_anc t nf then None else node_at t h)"
      "distinct (map fst nodes)" "distinct q" "set q = siblings_of t nf (strict_anc t nf)"
    by auto
  let ?t1 = "t\<lparr>ct_nodes := nodes\<rparr>"
  have nn: "node_at t nf \<noteq> None" using n by simp
  have inv: "prune_inv t nf q ?t1"
    by (rule prune_inv_start[OF ok lv nn]) (use q in simp_all)
  have dom: "dom (node_at ?t1) \<subseteq> dom (node_at t)" by (auto simp: q(2) split: if_splits)
  have "card (dom (node_at ?t1)) \<le> card (dom (node_at t))"
    by (rule card_mono[OF _ dom]) (simp add: finite_dom_map_of)
  also have "\<dots> \<le> length (ct_nodes t)"
    using card_length[of "map fst (ct_nodes t)"] by (simp add: dom_map_of_conv_image_fst)
  finally have "card (dom (node_at ?t1)) \<le> length (ct_nodes t) + 1" by simp
  from prune_loop_ok[OF ok inv this, of "[]"] obtain ps t2 where
    p: "prune_loop (length (ct_nodes t) + 1) q [] ?t1 = Inr (ps, t2)" "prune_inv t nf [] t2"
      "set ps = {tn_index n | h n. node_at ?t1 h = Some n \<and> node_at t2 h = None}"
      "distinct (map bi_hash ps)" "parents_first t ps"
      "ct_root t2 = ct_root ?t1" "ct_best t2 = ct_best ?t1" "ct_justified t2 = ct_justified ?t1" by auto
  have left: "node_at t2 h = None \<longleftrightarrow> \<not> anc t nf h" for h
    using prune_inv_done[OF ok p(2), of h] by auto
  have "node_at ?t1 h = Some m \<and> node_at t2 h = None \<longleftrightarrow>
      node_at t h = Some m \<and> \<not> anc t nf h \<and> \<not> anc t h nf" for h m
    using left[of h] anc by (auto simp: q(2) strict_anc_def split: if_splits)
  then have "set ps = {tn_index m | h m. node_at t h = Some m \<and> \<not> anc t nf h \<and> \<not> anc t h nf}"
    unfolding p(3) by simp
  with q(1) p par that show ?thesis by simp
qed

lemma ct_finalize_ok:
  assumes ok: "ct_ok t" and n: "node_at t nf = Some n"
  shows "\<exists>ch t'. ct_finalize nf t = Inr (ch, t') \<and> ct_ok t' \<and> finalize_spec t nf ch t'"
proof (cases "nf = ct_root t")
  case True
  from ok have oks: "tree_ok t" "best_ok t" by (simp_all add: ct_ok_def)
  have up: "up_ok t" using oks(1) by blast
  have all: "anc t nf h \<longleftrightarrow> node_at t h \<noteq> None" for h
    using root_anc[OF up] anc_nodes[of t nf h] True by blast
  have "finalize_spec t nf no_changes t"
    using all True oks(2) by (auto simp: finalize_spec_def no_changes_def best_ok_def)
  then show ?thesis using True n ok by (simp add: ct_finalize_def)
next
  case False
  from ok have oks: "tree_ok t" "leaves_ok t" "best_ok t" by (simp_all add: ct_ok_def)
  have up: "up_ok t" using oks(1) by blast
  obtain r where r: "node_at t (ct_root t) = Some r" using up_ok_root[OF up] by blast
  have slot: "\<not> node_slot n < node_slot r" using root_slot_le[OF up n r] by auto
  have par: "TreeNode_parent t n \<noteq> None" using parent_exists[OF up n False] by (metis option.distinct(1))
  obtain b where b: "node_at t (ct_best t) = Some b"
      "\<And>h m. node_at t h = Some m \<Longrightarrow> node_slot m \<le> node_slot b"
    using oks(3) by (auto simp: best_ok_def)
  obtain q t1 ps t2 where p:
    "finalize_up (length (ct_nodes t) + 1) nf (TreeNode_parent t n) [] t = Inr (q, t1)"
    "prune_loop (length (ct_nodes t) + 1) q [] t1 = Inr (ps, t2)"
    "prune_inv t nf [] t2" "ct_root t2 = ct_root t" "ct_best t2 = ct_best t"
    "ct_justified t2 = ct_justified t"
    "set ps = {tn_index m | h m. node_at t h = Some m \<and> \<not> anc t nf h \<and> \<not> anc t h nf}"
    "distinct (map bi_hash ps)" "parents_first t ps"
    by (rule finalize_prune_phase[OF oks(1,2) n])
  have n2: "node_at t2 nf = Some n" using prune_invD(4,5)[OF p(3)] n by (metis not_Some_eq option.inject)
  define t3 where "t3 = set_node nf (n\<lparr>tn_parent := None\<rparr>) (t2\<lparr>ct_root := nf\<rparr>)"
  have t3: "tree_ok t3" "leaves_ok t3"
    "\<And>h. node_at t3 h = (if h = nf then Some (n\<lparr>tn_parent := None\<rparr>) else if anc t nf h then node_at t h else None)"
    unfolding t3_def by (rule finalized_subtree_ok[OF oks(1) p(3) n2])+
  have f3: "ct_root t3 = nf" "ct_best t3 = ct_best t" "ct_justified t3 = ct_justified t"
    using p(5,6) by (simp_all add: t3_def)
  have nodes3: "node_at t3 h \<noteq> None \<longleftrightarrow> anc t nf h" for h
    using t3(3)[of h] anc_nodes[of t nf h] anc_refl[OF n] by auto
  have can: "canDescend t (ct_best t) nf = Inr (anc t nf (ct_best t))"
    using canDescend_ok[OF up] b(1) n by simp
  note pq = p(1,2)[unfolded Suc_eq_plus1[symmetric]]
  note unfold = ct_finalize_def n r slot False par can pq n2 t3_def[symmetric]
  show ?thesis
  proof (cases "anc t nf (ct_best t)")
    case True
    let ?ch = "\<lparr>rp_reorg = None, rp_prune = rev ps\<rparr>"
    have "ct_finalize nf t = Inr (?ch, t3)"
      using True slot par by (simp add: unfold)
    moreover have "best_ok t3"
    proof -
      have bs: "\<exists>b'. node_at t3 (ct_best t) = Some b' \<and> node_slot b' = node_slot b"
        using True b(1) n t3(3)[of "ct_best t"] by auto
      have "node_slot m \<le> node_slot b" if "node_at t3 h = Some m" for h m
        using that t3(3)[of h] b(2)[of h] b(2)[OF n] by (auto split: if_splits)
      with bs f3(2) show ?thesis unfolding best_ok_def by auto
    qed
    moreover have "finalize_spec t nf ?ch t3"
      using True nodes3 p(7-9) f3 by (simp add: finalize_spec_def rev_map[symmetric])
    ultimately show ?thesis using t3(1,2) by (auto simp: ct_ok_def)
  next
    case False
    from reorg_ok[OF up, of "ct_best t" nf] b(1) n obtain ro where
      ro: "reorg t (ct_best t) nf = Inr ro" "reorg_correct t (ct_best t) nf ro" by auto
    from forceRefreshBest_ok[OF t3(1,2)] obtain nb where
      nb: "forceRefreshBest t3 = Inr (t3\<lparr>ct_best := nb\<rparr>)" "ct_ok (t3\<lparr>ct_best := nb\<rparr>)" by blast
    let ?t4 = "t3\<lparr>ct_best := nb\<rparr>"
    have up4: "up_ok ?t4" using nb(2) by (auto simp: ct_ok_def)
    have nb4: "node_at ?t4 nb \<noteq> None" using nb(2) by (auto simp: ct_ok_def best_ok_def)
    have nf4: "node_at ?t4 nf \<noteq> None" using t3(3)[of nf] by simp
    have "anc ?t4 nf nb" using root_anc[OF up4] nb4 f3(1) by auto
    with descend_ok[OF up4 nb4 nf4] obtain vis where
      vis: "descend ?t4 nb nf = Inr (True, vis)" "up_path ?t4 nb vis nf" by auto
    have "up_path t nb vis nf"
      by (rule up_path_subtree[OF vis(2)]) (use t3(3) n in \<open>auto split: if_splits\<close>)
    then have path: "up_path t nb (vis @ rev (ro_apply ro)) (bi_hash (ro_common ro))"
      using ro(2) by (auto simp: reorg_correct_def intro: up_path_append)
    let ?ch = "\<lparr>rp_reorg = Some (ro\<lparr>ro_apply := ro_apply ro @ rev vis\<rparr>), rp_prune = rev ps\<rparr>"
    have "ct_finalize nf t = Inr (?ch, ?t4)"
      using False slot par by (simp add: unfold ro(1) nb(1) vis(1))
    moreover have "finalize_spec t nf ?ch ?t4"
      using False nodes3 p(7-9) f3 path ro(2)
      by (simp add: finalize_spec_def rev_map[symmetric] reorg_correct_def Let_def)
    ultimately show ?thesis using nb(2) by blast
  qed
qed

end
