(* ===== verification/TreeReach.thy ===== *)
theory TreeReach
  imports TreeOps
begin

text \<open>
  Removal of a leaf, the steps of a cached tree from its construction, and the properties
  of the trees those steps reach.
\<close>

subsection \<open>Removal of a leaf\<close>

definition unlinked :: "CachedTree \<Rightarrow> hash \<Rightarrow> hash \<Rightarrow> TreeNode \<Rightarrow> CachedTree" where
  "unlinked t h p parent =
     (let parent1 = parent\<lparr>tn_children := remove1 h (tn_children parent)\<rparr>;
          t1 = set_node p parent1 t;
          t2 = (if tn_children parent1 = []
                then t1\<lparr>ct_leaves := AList.update p (node_slot parent) (ct_leaves t1)\<rparr> else t1)
      in t2\<lparr>ct_leaves := AList.delete h (ct_leaves t2)\<rparr>)"

lemma node_at_unlinked:
  "node_at (unlinked t h p parent) =
     (node_at t)(p \<mapsto> parent\<lparr>tn_children := remove1 h (tn_children parent)\<rparr>)"
  using node_at_set_node[of p "parent\<lparr>tn_children := remove1 h (tn_children parent)\<rparr>" t]
  by (simp add: unlinked_def Let_def)

lemma unlinked_fields [simp]:
  "ct_root (unlinked t h p parent) = ct_root t" "ct_best (unlinked t h p parent) = ct_best t"
  "ct_justified (unlinked t h p parent) = ct_justified t"
  by (simp_all add: unlinked_def Let_def)

lemma leaves_unlinked:
  "map_of (ct_leaves (unlinked t h p parent)) =
     (if remove1 h (tn_children parent) = [] then (map_of (ct_leaves t))(p \<mapsto> node_slot parent)
      else map_of (ct_leaves t))(h := None)"
  by (simp add: unlinked_def Let_def update_conv' delete_conv')

definition leaf_below :: "CachedTree \<Rightarrow> hash \<Rightarrow> TreeNode \<Rightarrow> hash \<Rightarrow> TreeNode \<Rightarrow> bool" where
  "leaf_below t h n p parent \<longleftrightarrow>
     node_at t h = Some n \<and> tn_children n = [] \<and> tn_parent n = Some p \<and>
     node_at t p = Some parent \<and> h \<in> set (tn_children parent) \<and> node_slot parent < node_slot n"

lemma leaf_belowI:
  assumes "tree_ok t" "node_at t h = Some n" "tn_children n = []" "h \<noteq> ct_root t"
  obtains p parent where "leaf_below t h n p parent"
  using tree_okD(5,6)[OF assms(1,2)] assms that by (cases "tn_parent n") (auto simp: leaf_below_def)

lemma tree_ok_unlinked:
  assumes ok: "tree_ok t" and lb: "leaf_below t h n p parent"
  shows "tree_ok (erase_node h (unlinked t h p parent))" (is "tree_ok ?t")
proof (rule tree_okI)
  from lb have l: "node_at t h = Some n" "tn_children n = []" "tn_parent n = Some p"
    "node_at t p = Some parent" "h \<in> set (tn_children parent)" "node_slot parent < node_slot n"
    by (simp_all add: leaf_below_def)
  let ?p = "parent\<lparr>tn_children := remove1 h (tn_children parent)\<rparr>"
  have ph: "p \<noteq> h" using l by auto
  have at: "node_at ?t k = (if k = h then None else if k = p then Some ?p else node_at t k)" for k
    by (simp add: node_at_unlinked)
  have root: "h \<noteq> ct_root t" using tree_okD(5)[OF ok l(1)] l(3) by auto
  show "distinct (map fst (ct_nodes ?t))"
    using ok by (simp add: unlinked_def Let_def tree_ok_def erase_node_def distinct_delete)
  show "node_at ?t (ct_root ?t) \<noteq> None"
    using ok root unfolding at by (simp add: tree_ok_def)
  have keep: "\<exists>m'. node_at ?t k = Some m' \<and> tn_parent m' = tn_parent m \<and> node_slot m' = node_slot m \<and>
      (\<forall>c \<noteq> h. c \<in> set (tn_children m) \<longrightarrow> c \<in> set (tn_children m'))"
    if "node_at t k = Some m" "k \<noteq> h" for k m
    using that l(4) unfolding at by auto
  fix k m assume m: "node_at ?t k = Some m"
  then obtain m0 where m0: "node_at t k = Some m0" "tn_index m = tn_index m0" "k \<noteq> h"
    "tn_parent m = tn_parent m0" "tn_reverted m = tn_reverted m0" "distinct (tn_children m0) \<Longrightarrow> distinct (tn_children m)"
    "distinct (tn_children m0) \<Longrightarrow> set (tn_children m) \<subseteq> set (tn_children m0)"
    "k = p \<Longrightarrow> distinct (tn_children m0) \<Longrightarrow> h \<notin> set (tn_children m)" 
    using l(4) unfolding at by (auto split: if_splits)
  note d = tree_okD[OF ok m0(1)]
  show "node_ok ?t k m"
  proof (rule node_okI)
    fix c assume c: "c \<in> set (tn_children m)"
    with m0(7) d(3) have "c \<in> set (tn_children m0)" by blast
    from d(4)[OF this] obtain x where x: "node_at t c = Some x" "tn_parent x = Some k" by blast
    have "c \<noteq> h"
    proof
      assume "c = h"
      with x l have "k = p" by simp
      with m0(8) d(3) c \<open>c = h\<close> show False by blast
    qed
    from keep[OF x(1) this] x(2) show "\<exists>m. node_at ?t c = Some m \<and> tn_parent m = Some k" by auto
  next
    fix q assume "tn_parent m = Some q"
    then have q: "tn_parent m0 = Some q" using m0(4) by simp
    from d(6)[OF q] obtain x where x: "node_at t q = Some x" "k \<in> set (tn_children x)"
      "node_slot x < node_slot m0" by blast
    have "q \<noteq> h" using x(1,2) l(1,2) by auto
    from keep[OF x(1) this] x(2,3) m0(2,3)
    show "\<exists>x. node_at ?t q = Some x \<and> k \<in> set (tn_children x) \<and> node_slot x < node_slot m" by auto
  qed (use d(1,2,3,5) m0 in auto)
qed

lemma leaves_ok_unlinked:
  assumes ok: "tree_ok t" and lv: "leaves_ok t" and lb: "leaf_below t h n p parent"
  shows "leaves_ok (erase_node h (unlinked t h p parent))" (is "leaves_ok ?t")
proof -
  from lb have l: "node_at t h = Some n" "node_at t p = Some parent" "h \<in> set (tn_children parent)"
    "tn_children n = []"
    by (simp_all add: leaf_below_def)
  then have ph: "p \<noteq> h" by auto
  have at: "node_at ?t k = (if k = h then None else if k = p
      then Some (parent\<lparr>tn_children := remove1 h (tn_children parent)\<rparr>) else node_at t k)" for k
    by (simp add: node_at_unlinked)
  have "map_of (ct_leaves t) p = None"
    using lv l(2,3) by (cases "map_of (ct_leaves t) p") (auto simp: leaves_ok_def)
  then have "map_of (ct_leaves ?t) k = Some s \<longleftrightarrow>
      (\<exists>n. node_at ?t k = Some n \<and> tn_children n = [] \<and> s = node_slot n)" for k s
    using lv l ph unfolding leaves_ok_def at by (auto simp: leaves_unlinked)
  moreover have "distinct (map fst (ct_leaves ?t))"
    using lv by (simp add: unlinked_def Let_def leaves_ok_def distinct_update distinct_delete)
  ultimately show ?thesis unfolding leaves_ok_def by blast
qed

text \<open>Ancestry and paths only read the parent links and the block indices.\<close>

definition same_links :: "CachedTree \<Rightarrow> CachedTree \<Rightarrow> bool" where
  "same_links t t' \<longleftrightarrow>
     (\<forall>k. map_option (\<lambda>n. (tn_index n, tn_parent n)) (node_at t k) =
          map_option (\<lambda>n. (tn_index n, tn_parent n)) (node_at t' k))"

lemma same_links_sym: "same_links t t' \<Longrightarrow> same_links t' t"
  by (simp add: same_links_def)

lemma same_linksE:
  assumes "same_links t t'" "node_at t k = Some n"
  obtains n' where "node_at t' k = Some n'" "tn_index n' = tn_index n" "tn_parent n' = tn_parent n"
  using assms(1)[unfolded same_links_def, rule_format, of k] assms(2) that
  by (cases "node_at t' k") auto

lemma same_links_anc_imp: "anc t a h \<Longrightarrow> same_links t t' \<Longrightarrow> anc t' a h"
proof (induction rule: anc.induct)
  case (anc_refl n)
  from same_linksE[OF anc_refl.prems anc_refl.hyps] obtain n' where "node_at t' a = Some n'" by blast
  then show ?case by (rule anc.anc_refl)
next
  case (anc_step h n p)
  from same_linksE[OF anc_step.prems anc_step.hyps(1)] obtain n' where
    n': "node_at t' h = Some n'" "tn_parent n' = tn_parent n" by blast
  with anc_step.hyps(2) have "tn_parent n' = Some p" by simp
  from anc.anc_step[OF n'(1) this anc_step.IH[OF anc_step.prems]] show ?case .
qed

lemma same_links_anc: "same_links t t' \<Longrightarrow> anc t a h = anc t' a h"
  using same_links_anc_imp same_links_sym by blast

lemma same_links_up_path: "up_path t h is a \<Longrightarrow> same_links t t' \<Longrightarrow> up_path t' h is a"
proof (induction "is" arbitrary: h)
  case Nil
  then obtain n where n: "node_at t h = Some n" "h = a" by auto
  from same_linksE[OF Nil.prems(2) n(1)] obtain n' where "node_at t' h = Some n'" by blast
  with n(2) show ?case by simp
next
  case (Cons i "is")
  then obtain n p where n: "node_at t h = Some n" "i = tn_index n" "tn_parent n = Some p"
    "up_path t p is a" by auto
  from same_linksE[OF Cons.prems(2) n(1)] obtain n' where
    "node_at t' h = Some n'" "tn_index n' = tn_index n" "tn_parent n' = tn_parent n" by blast
  with n Cons.IH[OF n(4) Cons.prems(2)] show ?case by auto
qed

lemma same_links_reorg_correct:
  assumes "reorg_correct t from to r" "same_links t t'"
  shows "reorg_correct t' from to r"
proof -
  from assms(1) obtain n where n: "node_at t (bi_hash (ro_common r)) = Some n" "tn_index n = ro_common r"
    by (auto simp: reorg_correct_def)
  obtain n' where "node_at t' (bi_hash (ro_common r)) = Some n'" "tn_index n' = tn_index n"
    using same_linksE[OF assms(2) n(1)] by blast
  with n assms same_links_up_path[OF _ assms(2)] same_links_anc[OF assms(2)] show ?thesis
    by (auto simp: reorg_correct_def)
qed

lemma same_links_up_ok:
  assumes "up_ok t" "same_links t t'" "ct_root t' = ct_root t"
  shows "up_ok t'"
  unfolding up_ok_def
proof (intro conjI allI impI)
  show "node_at t' (ct_root t') \<noteq> None"
  proof -
    obtain r where "node_at t (ct_root t) = Some r" using up_ok_root[OF assms(1)] by blast
    from same_linksE[OF assms(2) this] obtain r' where "node_at t' (ct_root t) = Some r'" by blast
    with assms(3) show ?thesis by simp
  qed
  fix h n assume n: "node_at t' h = Some n"
  from same_linksE[OF same_links_sym[OF assms(2)] n] obtain m where
    m: "node_at t h = Some m" "tn_index m = tn_index n" "tn_parent m = tn_parent n" by blast
  from up_okD(1,2)[OF assms(1) m(1)] m(2,3) assms(3)
  show "bi_hash (tn_index n) = h" "(tn_parent n = None) = (h = ct_root t')" by auto
  fix p assume "tn_parent n = Some p"
  with up_okD(3)[OF assms(1) m(1)] m(2,3) obtain q where
    q: "node_at t p = Some q" "node_slot q < node_slot n" by auto
  from same_linksE[OF assms(2) q(1)] obtain q' where
    "node_at t' p = Some q'" "tn_index q' = tn_index q" by blast
  with q(2) show "\<exists>m. node_at t' p = Some m \<and> node_slot m < node_slot n" by auto
qed

definition removeLeaf_spec :: "CachedTree \<Rightarrow> hash \<Rightarrow> ReorgAndPrune \<Rightarrow> CachedTree \<Rightarrow> bool" where
  "removeLeaf_spec t h ch t' \<longleftrightarrow>
     ct_root t' = ct_root t \<and> (\<forall>k. node_at t' k \<noteq> None \<longleftrightarrow> k \<noteq> h \<and> node_at t k \<noteq> None) \<and>
     map bi_hash (rp_prune ch) = [h] \<and>
     (case rp_reorg ch of
        None \<Rightarrow> h \<noteq> ct_best t \<and> ct_best t' = ct_best t
      | Some r \<Rightarrow> h = ct_best t \<and> reorg_correct t h (ct_best t') r)"

lemma removeLeaf_unfold:
  assumes "tree_ok t" "leaves_ok t" "leaf_below t h n p parent"
  shows "removeLeaf h t =
    (if h = ct_best t
     then OUTCOME_TRY (forceRefreshBest (unlinked t h p parent)) (\<lambda>t4.
          OUTCOME_TRY (reorg t4 h (ct_best t4)) (\<lambda>r.
            Inr (\<lparr>rp_reorg = Some r, rp_prune = [tn_index n]\<rparr>, erase_node h t4)))
     else Inr (\<lparr>rp_reorg = None, rp_prune = [tn_index n]\<rparr>, erase_node h (unlinked t h p parent)))"
proof -
  from assms(3) have l: "node_at t h = Some n" "tn_children n = []" "tn_parent n = Some p"
    "node_at t p = Some parent" "h \<in> set (tn_children parent)"
    by (simp_all add: leaf_below_def)
  have "map_of (ct_leaves t) h = Some (node_slot n)" using assms(2) l(1,2) by (simp add: leaves_ok_def)
  moreover have "TreeNode_parent t n = Some p"
    using TreeNode_parent_ok[OF _ l(1)] assms(1) l(3) by auto
  ultimately show ?thesis
    using l by (simp add: removeLeaf_def unlinked_def Let_def)
qed

lemma unlinked_links:
  assumes "leaf_below t h n p parent" shows "same_links t (unlinked t h p parent)"
  using assms by (auto simp: same_links_def node_at_unlinked leaf_below_def)

lemma removeLeaf_best_ok:
  assumes ok: "ct_ok t" and lb: "leaf_below t h n p parent" and best: "h \<noteq> ct_best t"
  shows "best_ok (erase_node h (unlinked t h p parent))"
  using assms unfolding ct_ok_def best_ok_def leaf_below_def
  by (auto simp: node_at_unlinked)

lemma removeLeaf_refresh:
  assumes ok: "ct_ok t" and lb: "leaf_below t h n p parent"
  shows "\<exists>b. forceRefreshBest (unlinked t h p parent) = Inr ((unlinked t h p parent)\<lparr>ct_best := b\<rparr>) \<and>
    b \<noteq> h \<and> node_at t b \<noteq> None \<and> ct_ok (erase_node h ((unlinked t h p parent)\<lparr>ct_best := b\<rparr>))"
proof -
  let ?u = "unlinked t h p parent" and ?t = "erase_node h (unlinked t h p parent)"
  from ok have oks: "tree_ok t" "leaves_ok t" by (simp_all add: ct_ok_def)
  have t: "tree_ok ?t" "leaves_ok ?t"
    by (rule tree_ok_unlinked[OF oks(1) lb], rule leaves_ok_unlinked[OF oks lb])
  have lvs: "\<exists>n. node_at ?u k = Some n \<and> \<not> tn_reverted n \<and> bi_hash (tn_index n) = k \<and> k \<noteq> h"
    if "k \<in> fst ` set (ct_leaves ?u)" for k
  proof -
    have "k \<in> fst ` set (ct_leaves ?t)" using that by simp
    then obtain n where n: "node_at ?t k = Some n" unfolding leaves_okD[OF t(2)] by blast
    with tree_okD(1,2)[OF t(1) n] show ?thesis by (auto split: if_splits)
  qed
  obtain r where r: "node_at ?t (ct_root ?t) = Some r" using up_ok_root t(1) by blast
  then have r': "node_at ?u (ct_root ?u) = Some r" "ct_root t \<noteq> h" by (auto split: if_splits)
  have "length (ct_leaves ?u) \<le> length (ct_nodes ?u)"
    by (rule length_leaves_le)
      (use t(2) lvs in \<open>simp add: leaves_ok_def\<close>, use lvs in blast)
  then have len: "length (ct_leaves ?u) \<le> length (ct_nodes ?u) + 1" by simp
  have lvs1: "\<exists>n. node_at ?u k = Some n \<and> \<not> tn_reverted n \<and> bi_hash (tn_index n) = k"
    if "k \<in> fst ` set (ct_leaves ?u)" for k using lvs[OF that] by blast
  have "bi_hash (tn_index r) = ct_root ?u" using tree_okD(1)[OF t(1) r] by simp
  from forceRefreshBest_general[OF lvs1 r'(1) this len] obtain b nb where
    b: "forceRefreshBest ?u = Inr (?u\<lparr>ct_best := b\<rparr>)" "node_at ?u b = Some nb"
      "b = ct_root ?u \<or> b \<in> fst ` set (ct_leaves ?u)"
      "\<forall>h n. h \<in> fst ` set (ct_leaves ?u) \<longrightarrow> node_at ?u h = Some n \<longrightarrow> node_slot n \<le> node_slot nb"
    by blast
  have bh: "b \<noteq> h" using b(3) lvs r'(2) by auto
  have nbt: "node_at t b \<noteq> None" using b(2) lb by (auto simp: node_at_unlinked leaf_below_def split: if_splits)
  obtain k m where k: "node_at ?t k = Some m" "tn_children m = []"
    "\<And>k' m'. node_at ?t k' = Some m' \<Longrightarrow> node_slot m' \<le> node_slot m"
    using maximal_node_is_leaf[OF t] by metis
  have ku: "k \<in> fst ` set (ct_leaves ?u)" using leaves_okD[OF t(2), of k] k(1,2) by simp
  have "node_at ?u k = Some m" using k(1) by (auto split: if_splits)
  with b(4) ku have le: "node_slot m \<le> node_slot nb" by blast
  have mx: "node_at ?t b = Some nb" "\<forall>k' m'. node_at ?t k' = Some m' \<longrightarrow> node_slot m' \<le> node_slot nb"
    using b(2) bh k(3) le by (simp, blast intro: order_trans)
  let ?r = "erase_node h (?u\<lparr>ct_best := b\<rparr>)"
  have same: "ct_nodes ?r = ct_nodes ?t" "ct_root ?r = ct_root ?t" "ct_leaves ?r = ct_leaves ?t" "ct_best ?r = b"
    by (simp_all add: erase_node_def)
  have "tree_ok ?r" "leaves_ok ?r"
    using tree_ok_cong[OF same(1,2)] leaves_ok_cong[OF same(1,3)] t by blast+
  moreover have "best_ok ?r" unfolding best_ok_def same(1,4) using mx by blast
  ultimately show ?thesis using b(1) bh nbt by (auto simp: ct_ok_def)
qed

lemma removeLeaf_ok:
  assumes ok: "ct_ok t" and n: "node_at t h = Some n" "tn_children n = []" "h \<noteq> ct_root t"
  shows "\<exists>ch t'. removeLeaf h t = Inr (ch, t') \<and> ct_ok t' \<and> removeLeaf_spec t h ch t'"
proof -
  from ok have oks: "tree_ok t" "leaves_ok t" by (simp_all add: ct_ok_def)
  obtain p parent where lb: "leaf_below t h n p parent" by (rule leaf_belowI[OF oks(1) n])
  let ?u = "unlinked t h p parent"
  note unfold = removeLeaf_unfold[OF oks lb]
  have idx: "bi_hash (tn_index n) = h" by (rule tree_okD(1)[OF oks(1) n(1)])
  have pn: "node_at t p \<noteq> None" using lb by (simp add: leaf_below_def)
  have nodes: "node_at (erase_node h ?u) k \<noteq> None \<longleftrightarrow> k \<noteq> h \<and> node_at t k \<noteq> None" for k
    using pn by (auto simp: node_at_unlinked)
  show ?thesis
  proof (cases "h = ct_best t")
    case False
    let ?ch = "\<lparr>rp_reorg = None, rp_prune = [tn_index n]\<rparr>"
    have "removeLeaf_spec t h ?ch (erase_node h ?u)"
      using nodes False idx unfolding removeLeaf_spec_def by simp
    moreover have "ct_ok (erase_node h ?u)"
      using tree_ok_unlinked[OF oks(1) lb] leaves_ok_unlinked[OF oks lb] removeLeaf_best_ok[OF ok lb False]
      by (simp add: ct_ok_def)
    ultimately show ?thesis using unfold False by simp
  next
    case True
    from removeLeaf_refresh[OF ok lb] obtain b where
      b: "forceRefreshBest ?u = Inr (?u\<lparr>ct_best := b\<rparr>)" "b \<noteq> h" "node_at t b \<noteq> None"
        "ct_ok (erase_node h (?u\<lparr>ct_best := b\<rparr>))" by blast
    let ?u4 = "?u\<lparr>ct_best := b\<rparr>"
    have links: "same_links t ?u4" using unlinked_links[OF lb] by (simp add: same_links_def)
    have up: "up_ok ?u4" by (rule same_links_up_ok[OF _ links]) (use oks(1) in auto)
    have "node_at ?u4 h \<noteq> None" "node_at ?u4 b \<noteq> None"
      using same_linksE[OF links n(1)] same_linksE[OF links] b(3) by (metis not_Some_eq)+
    from reorg_ok[OF up this] obtain r where r: "reorg ?u4 h b = Inr r" "reorg_correct ?u4 h b r" by blast
    have rc: "reorg_correct t h b r"
      by (rule same_links_reorg_correct[OF r(2) same_links_sym[OF links]])
    let ?ch = "\<lparr>rp_reorg = Some r, rp_prune = [tn_index n]\<rparr>"
    have "removeLeaf_spec t h ?ch (erase_node h ?u4)"
      using nodes True idx rc unfolding removeLeaf_spec_def by (simp add: erase_node_def)
    with unfold True b(1,4) r(1) show ?thesis by simp
  qed
qed

subsection \<open>Construction and steps\<close>

lemma CachedTree_new_ok: "ct_ok (CachedTree_new r)"
  by (auto simp: ct_ok_def tree_ok_def node_ok_def leaves_ok_def best_ok_def CachedTree_new_def
      TreeNode_new_def)

text \<open>
  The steps of a tree: the calls \<^verbatim>\<open>BlockTreeImpl\<close> makes.  A block is added below a
  block of the tree with a lower slot, the new node being built by \<open>TreeNode_child\<close>.
\<close>

inductive tree_step :: "CachedTree \<Rightarrow> CachedTree \<Rightarrow> bool" where
  step_add: "node_at t p = Some parent \<Longrightarrow> node_slot parent < bi_slot i \<Longrightarrow>
    ct_add (TreeNode_child i parent) t = Inr (r, t') \<Longrightarrow> tree_step t t'"
| step_justify: "tree_step t (setJustified n t)"
| step_finalize: "node_at t h \<noteq> None \<Longrightarrow> ct_finalize h t = Inr (ch, t') \<Longrightarrow> tree_step t t'"
| step_removeLeaf: "removeLeaf h t = Inr (ch, t') \<Longrightarrow> tree_step t t'"
| step_removeUnfinalized: "removeUnfinalized t = Inr (ch, t') \<Longrightarrow> tree_step t t'"

inductive tree_reachable :: "CachedTree \<Rightarrow> bool" where
  reach_new: "tree_reachable (CachedTree_new root)"
| reach_step: "tree_reachable t \<Longrightarrow> tree_step t t' \<Longrightarrow> tree_reachable t'"

lemma fresh_child_new:
  assumes ok: "ct_ok t" and p: "node_at t p = Some parent" and s: "node_slot parent < bi_slot i"
    and fresh: "node_at t (bi_hash i) = None"
  shows "fresh_child t (TreeNode_child i parent) p parent"
proof -
  have t: "tree_ok t" using ok by (simp add: ct_ok_def)
  from tree_okD(1,2)[OF t p] p s fresh show ?thesis by (simp add: fresh_child_def TreeNode_child_def)
qed

lemma ct_add_child_ok:
  assumes ok: "ct_ok t" and p: "node_at t p = Some parent" and s: "node_slot parent < bi_slot i"
  shows "\<exists>r t'. ct_add (TreeNode_child i parent) t = Inr (r, t') \<and> ct_ok t' \<and> ct_root t' = ct_root t \<and>
    (\<forall>h. node_at t' h \<noteq> None \<longleftrightarrow> h = bi_hash i \<or> node_at t h \<noteq> None) \<and>
    (case r of None \<Rightarrow> ct_best t' = ct_best t
     | Some ro \<Rightarrow> ct_best t' = bi_hash i \<and> reorg_correct t' (ct_best t) (bi_hash i) ro)"
proof (cases "node_at t (bi_hash i)")
  case (Some n)
  then have "ct_add (TreeNode_child i parent) t = Inr (None, t)"
    by (simp add: ct_add_def TreeNode_child_def)
  with ok Some show ?thesis by auto
next
  case None
  let ?new = "TreeNode_child i parent"
  note fr = fresh_child_new[OF ok p s None]
  obtain b where b: "node_at t (ct_best t) = Some b" using ok by (auto simp: ct_ok_def best_ok_def)
  have idx: "tn_index ?new = i" by (simp add: TreeNode_child_def)
  have nodes: "node_at (linked t ?new p parent) h \<noteq> None \<longleftrightarrow> h = bi_hash i \<or> node_at t h \<noteq> None" for h
    using p by (simp add: node_at_linked idx)
  note add = ct_add_ok[OF ok fr b, unfolded idx]
  show ?thesis
  proof (cases "node_slot b < bi_slot i")
    case True
    let ?t = "(linked t ?new p parent)\<lparr>ct_best := bi_hash i\<rparr>"
    from add True obtain r where r: "ct_ok ?t" "ct_add ?new t = Inr (Some r, ?t)"
      "reorg_correct ?t (ct_best t) (bi_hash i) r" by auto
    have "node_at ?t h \<noteq> None \<longleftrightarrow> h = bi_hash i \<or> node_at t h \<noteq> None" for h using nodes by simp
    with r show ?thesis by (intro exI[of _ "Some r"] exI[of _ ?t]) simp
  next
    case False
    let ?t = "linked t ?new p parent"
    from add False have r: "ct_ok ?t" "ct_add ?new t = Inr (None, ?t)" by auto
    with nodes show ?thesis by (intro exI[of _ None] exI[of _ ?t]) simp
  qed
qed

lemma removeLeaf_requires:
  assumes "removeLeaf h t = Inr x" "ct_ok t"
  shows "\<exists>n. node_at t h = Some n \<and> tn_children n = [] \<and> h \<noteq> ct_root t"
proof -
  from assms(1) obtain n p where n: "node_at t h = Some n" "tn_children n = []" "TreeNode_parent t n = Some p"
    by (auto simp: removeLeaf_def split: option.splits if_splits)
  have ok: "tree_ok t" using assms(2) by (simp add: ct_ok_def)
  have "tn_parent n \<noteq> None" using n(3) by (cases "tn_parent n") (auto simp: TreeNode_parent_def)
  with tree_okD(5)[OF ok n(1)] n(1,2) show ?thesis by blast
qed

lemma removeUnfinalized_fresh:
  assumes "removeUnfinalized t = Inr (ch, t')"
  shows "\<exists>r. t' = CachedTree_new r"
  using assms unfolding removeUnfinalized_def result_iffs by auto

lemma tree_step_ok: "tree_step t t' \<Longrightarrow> ct_ok t \<Longrightarrow> ct_ok t'"
proof (induction rule: tree_step.induct)
  case (step_add t p parent i r t')
  from ct_add_child_ok[OF step_add.prems step_add.hyps(1,2)] step_add.hyps(3) show ?case by auto
next
  case (step_justify t n)
  then show ?case
    using tree_ok_cong[of "setJustified n t" t] leaves_ok_cong[of "setJustified n t" t]
    by (simp add: ct_ok_def best_ok_def setJustified_def)
next
  case (step_finalize t h ch t')
  then obtain n where "node_at t h = Some n" by blast
  from ct_finalize_ok[OF step_finalize.prems this] step_finalize.hyps(2) show ?case by auto
next
  case (step_removeLeaf h t ch t')
  from removeLeaf_requires[OF step_removeLeaf.hyps step_removeLeaf.prems] obtain n where
    "node_at t h = Some n" "tn_children n = []" "h \<noteq> ct_root t" by blast
  from removeLeaf_ok[OF step_removeLeaf.prems this] step_removeLeaf.hyps show ?case by auto
next
  case (step_removeUnfinalized t ch t')
  from removeUnfinalized_fresh[OF step_removeUnfinalized.hyps] show ?case using CachedTree_new_ok by blast
qed

lemma tree_reachable_ok: "tree_reachable t \<Longrightarrow> ct_ok t"
  by (induction rule: tree_reachable.induct) (auto intro: CachedTree_new_ok tree_step_ok)

subsection \<open>Properties of the cached tree\<close>

text \<open>A tree with a fork below its root: \<open>1 - 2 - 4\<close> and \<open>1 - 3\<close>, the best block being 4.\<close>

definition demo_tree :: CachedTree where
  "demo_tree =
     \<lparr>ct_root = 1, ct_justified = \<lparr>bi_slot = 0, bi_hash = 1\<rparr>, ct_best = 4,
      ct_nodes =
        [(1, \<lparr>tn_index = \<lparr>bi_slot = 0, bi_hash = 1\<rparr>, tn_parent = None, tn_depth = 0,
              tn_reverted = False, tn_children = [2, 3]\<rparr>),
         (2, \<lparr>tn_index = \<lparr>bi_slot = 1, bi_hash = 2\<rparr>, tn_parent = Some 1, tn_depth = 1,
              tn_reverted = False, tn_children = [4]\<rparr>),
         (3, \<lparr>tn_index = \<lparr>bi_slot = 2, bi_hash = 3\<rparr>, tn_parent = Some 1, tn_depth = 1,
              tn_reverted = False, tn_children = []\<rparr>),
         (4, \<lparr>tn_index = \<lparr>bi_slot = 3, bi_hash = 4\<rparr>, tn_parent = Some 2, tn_depth = 2,
              tn_reverted = False, tn_children = []\<rparr>)],
      ct_leaves = [(3, 2), (4, 3)]\<rparr>"

lemma demo_tree_ok: "ct_ok demo_tree"
  by (auto simp: demo_tree_def ct_ok_def tree_ok_def node_ok_def leaves_ok_def best_ok_def
      split: if_splits)

lemma demo_tree_nodes:
  "node_at demo_tree 1 \<noteq> None" "node_at demo_tree 3 \<noteq> None" "node_at demo_tree 4 \<noteq> None"
  by (simp_all add: demo_tree_def)

text \<open>
  C32. Every tree that \<^verbatim>\<open>CachedTree\<close>'s constructor and operations produce is
  well formed: each node is a child of its parent and has a higher slot, only the root has
  no parent, the leaf map holds exactly the childless blocks with their slots, and the best
  block has the greatest slot of the tree.
\<close>

theorem tree_reachable_invariant:
  assumes "tree_reachable t"
  shows "ct_ok t"
  using assms by (rule tree_reachable_ok)

theorem tree_reachable_invariant_witness:
  "ct_ok (snd (projr (ct_add (TreeNode_child \<lparr>bi_slot = 7, bi_hash = 9\<rparr> (TreeNode_new \<lparr>bi_slot = 5, bi_hash = 8\<rparr>))
      (CachedTree_new \<lparr>bi_slot = 5, bi_hash = 8\<rparr>))))"
proof -
  let ?i = "\<lparr>bi_slot = 7, bi_hash = 9\<rparr>" and ?r = "\<lparr>bi_slot = 5, bi_hash = 8\<rparr>"
  have p: "node_at (CachedTree_new ?r) 8 = Some (TreeNode_new ?r)" by (simp add: CachedTree_new_def)
  have s: "node_slot (TreeNode_new ?r) < bi_slot ?i" by (simp add: TreeNode_new_def)
  obtain r t' where add: "ct_add (TreeNode_child ?i (TreeNode_new ?r)) (CachedTree_new ?r) = Inr (r, t')"
    using ct_add_child_ok[OF CachedTree_new_ok p s] by blast
  show ?thesis
    unfolding add
    using tree_reachable_invariant[OF reach_step[OF reach_new step_add[OF p s add]]] by simp
qed

text \<open>
  C34. Adding a block below a block of the tree never fails on a well-formed tree.  The
  tree then also holds the new block; the best block changes only to the new block, and
  then the reported reorganisation gives the blocks to revert and to apply: the paths from
  the old and the new best block to their lowest common ancestor.
\<close>

theorem ct_add_correct:
  assumes "ct_ok t" "map_of (ct_nodes t) p = Some parent" "bi_slot (tn_index parent) < bi_slot i"
  shows "\<exists>r t'. ct_add (TreeNode_child i parent) t = Inr (r, t') \<and> ct_ok t' \<and> ct_root t' = ct_root t \<and>
    (\<forall>h. find_node t' h \<noteq> None \<longleftrightarrow> h = bi_hash i \<or> find_node t h \<noteq> None) \<and>
    (case r of None \<Rightarrow> ct_best t' = ct_best t
     | Some ro \<Rightarrow> ct_best t' = bi_hash i \<and> reorg_correct t' (ct_best t) (bi_hash i) ro)"
  using ct_add_child_ok[OF assms] by (simp add: find_node_def)

theorem ct_add_correct_witness:
  "\<exists>n r t'. ct_add (TreeNode_child \<lparr>bi_slot = 9, bi_hash = 5\<rparr> n) demo_tree = Inr (r, t') \<and> ct_ok t' \<and>
     find_node t' 5 \<noteq> None \<and> find_node t' 4 \<noteq> None"
proof -
  obtain n where n: "node_at demo_tree 3 = Some n" "node_slot n = 2" by (simp add: demo_tree_def)
  then have s: "node_slot n < bi_slot \<lparr>bi_slot = 9, bi_hash = 5\<rparr>" by simp
  have "find_node demo_tree 4 \<noteq> None" using demo_tree_nodes(3) by (simp add: find_node_def)
  moreover obtain r t' where t': "ct_add (TreeNode_child \<lparr>bi_slot = 9, bi_hash = 5\<rparr> n) demo_tree = Inr (r, t')"
    "ct_ok t'" "\<forall>h. find_node t' h \<noteq> None \<longleftrightarrow> h = 5 \<or> find_node demo_tree h \<noteq> None"
    using ct_add_correct[OF demo_tree_ok n(1) s] by auto
  ultimately have "find_node t' 5 \<noteq> None" "find_node t' 4 \<noteq> None" by simp_all
  with t'(1,2) show ?thesis by blast
qed

text \<open>
  C33. Finalizing a block of a well-formed tree never fails.  The finalized block becomes
  the root and exactly its descendants stay; the reported list holds every other block that
  is not an ancestor of it, once each and children before parents; the best block stays
  when it descends from the finalized block, and otherwise the reported reorganisation
  leads from the old to the new best block through their common ancestor.
\<close>

theorem ct_finalize_correct:
  assumes "ct_ok t" "map_of (ct_nodes t) h \<noteq> None"
  shows "\<exists>ch t'. ct_finalize h t = Inr (ch, t') \<and> ct_ok t' \<and> finalize_spec t h ch t'"
  using assms ct_finalize_ok by blast

theorem ct_finalize_correct_witness:
  "\<exists>ch t'. ct_finalize 3 demo_tree = Inr (ch, t') \<and> ct_ok t' \<and> finalize_spec demo_tree 3 ch t'"
  using ct_finalize_correct[OF demo_tree_ok demo_tree_nodes(2)] .

text \<open>
  Removing a leaf other than the root of a well-formed tree never fails: exactly that
  block disappears and is reported, and when it was the best block the reorganisation leads
  to the new best block.
\<close>

theorem removeLeaf_correct:
  assumes "ct_ok t" "map_of (ct_nodes t) h = Some n" "tn_children n = []" "h \<noteq> ct_root t"
  shows "\<exists>ch t'. removeLeaf h t = Inr (ch, t') \<and> ct_ok t' \<and> removeLeaf_spec t h ch t'"
  using assms by (rule removeLeaf_ok)

theorem removeLeaf_correct_witness:
  "\<exists>ch t'. removeLeaf 4 demo_tree = Inr (ch, t') \<and> ct_ok t' \<and> removeLeaf_spec demo_tree 4 ch t'"
proof -
  obtain n where n: "node_at demo_tree 4 = Some n" "tn_children n = []" by (simp add: demo_tree_def)
  have "4 \<noteq> ct_root demo_tree" by (simp add: demo_tree_def)
  from removeLeaf_correct[OF demo_tree_ok n this] show ?thesis .
qed

text \<open>
  The walk of \<^verbatim>\<open>reorg\<close> over the parent links always ends between two
  blocks of a well-formed tree: it returns their lowest common ancestor and the paths from
  both to it, and never dereferences a null parent.
\<close>

theorem reorg_terminates:
  assumes "ct_ok t" "map_of (ct_nodes t) from \<noteq> None" "map_of (ct_nodes t) to \<noteq> None"
  shows "\<exists>r. reorg t from to = Inr r \<and> reorg_correct t from to r"
  using reorg_ok[OF _ assms(2,3)] assms(1) by (auto simp: ct_ok_def)

theorem reorg_terminates_witness: "\<exists>r. reorg demo_tree 4 3 = Inr r \<and> reorg_correct demo_tree 4 3 r"
  using reorg_terminates[OF demo_tree_ok demo_tree_nodes(3,2)] .

end
