(* ===== verification/Storage.thy ===== *)
theory Storage
  imports ChainTypes "HOL-Library.List_Lexorder"
begin

text \<open>
  Key-value storage.  First the actions of stateful code: a call takes the state and
  returns its outcome with the state it leaves, also when it fails.  Then the in-memory
  storage of \<^verbatim>\<open>storage/in_memory\<close> with its cursor, its batch and the table of
  spaces, and the interface \<^verbatim>\<open>SpacedStorage\<close> the block storage is written
  against: its operations are the fields of the record \<open>SpacedStorage\<close>, and its laws the
  locale \<open>spaced_storage\<close>, interpreted below on the in-memory storage.

  A key of \<^verbatim>\<open>std::map<std::string, ByteVec>\<close> is the hexadecimal text of the
  key bytes; the order of these texts is the lexicographic order of the bytes, so the map
  is keyed by the bytes.
\<close>

subsection \<open>Actions\<close>

type_synonym ('s, 'a) action = "'s \<Rightarrow> 'a result \<times> 's"

definition OK :: "'a \<Rightarrow> ('s, 'a) action" where
  "OK x s = (Inr x, s)"

definition FAIL :: "error \<Rightarrow> ('s, 'a) action" where
  "FAIL e s = (Inl e, s)"

definition LIFT :: "'a result \<Rightarrow> ('s, 'a) action" where
  "LIFT r s = (r, s)"

definition TRY :: "('s, 'a) action \<Rightarrow> ('a \<Rightarrow> ('s, 'b) action) \<Rightarrow> ('s, 'b) action" where
  "TRY m f s = (case m s of (Inl e, s') \<Rightarrow> (Inl e, s') | (Inr x, s') \<Rightarrow> f x s')"

text \<open>
  A handler of an error code.  An exception passes it, as no code of the sources catches
  one here.
\<close>

definition CATCH :: "('s, 'a) action \<Rightarrow> (error \<Rightarrow> ('s, 'a) action) \<Rightarrow> ('s, 'a) action" where
  "CATCH m h s =
     (case m s of (Inl e, s') \<Rightarrow> if is_exn e then (Inl e, s') else h e s' | (Inr x, s') \<Rightarrow> (Inr x, s'))"

fun FOREACH :: "('x \<Rightarrow> ('s, unit) action) \<Rightarrow> 'x list \<Rightarrow> ('s, unit) action" where
  "FOREACH f [] = OK ()"
| "FOREACH f (x # xs) = TRY (f x) (\<lambda>_. FOREACH f xs)"

named_theorems action_simps \<open>evaluation of actions\<close>
lemmas [action_simps] = OK_def FAIL_def LIFT_def

lemma TRY_eq_Inr [action_simps]:
  "TRY m f s = (Inr y, s'') \<longleftrightarrow> (\<exists>x s'. m s = (Inr x, s') \<and> f x s' = (Inr y, s''))"
  by (auto simp: TRY_def split: sum.splits prod.splits)

lemma TRY_eq_Inl:
  "TRY m f s = (Inl e, s'') \<longleftrightarrow>
     m s = (Inl e, s'') \<or> (\<exists>x s'. m s = (Inr x, s') \<and> f x s' = (Inl e, s''))"
  by (auto simp: TRY_def split: sum.splits prod.splits)

lemma TRY_run:
  "m s = (Inr x, s') \<Longrightarrow> TRY m f s = f x s'"
  "m s = (Inl e, s') \<Longrightarrow> TRY m f s = (Inl e, s')"
  by (simp_all add: TRY_def)

lemma TRY_cong [fundef_cong]:
  "m s = m' s \<Longrightarrow> s = s2 \<Longrightarrow> (\<And>x s'. m' s2 = (Inr x, s') \<Longrightarrow> f x s' = g x s') \<Longrightarrow> TRY m f s = TRY m' g s2"
  by (auto simp: TRY_def split: sum.splits prod.splits)

text \<open>
  An invariant of the state that every step of an action keeps, whether it fails or not.
\<close>

definition keeps :: "('s \<Rightarrow> bool) \<Rightarrow> ('s, 'a) action \<Rightarrow> bool" where
  "keeps I m \<longleftrightarrow> (\<forall>s. I s \<longrightarrow> I (snd (m s)))"

named_theorems keeps_intros \<open>invariants of actions\<close>

lemma keeps_pure [keeps_intros]:
  "keeps I (OK x)" "keeps I (FAIL e)" "keeps I (LIFT r)"
  by (simp_all add: keeps_def action_simps)

lemma keeps_TRY [keeps_intros]: "keeps I m \<Longrightarrow> (\<And>x. keeps I (f x)) \<Longrightarrow> keeps I (TRY m f)"
  unfolding keeps_def TRY_def by (auto split: sum.splits prod.splits)

lemma keeps_CATCH [keeps_intros]: "keeps I m \<Longrightarrow> (\<And>e. keeps I (h e)) \<Longrightarrow> keeps I (CATCH m h)"
  unfolding keeps_def CATCH_def by (auto split: sum.splits prod.splits)

lemma keeps_FOREACH [keeps_intros]:
  assumes "\<And>x. x \<in> set xs \<Longrightarrow> keeps I (f x)"
  shows "keeps I (FOREACH f xs)"
  using assms by (induction xs) (auto intro: keeps_intros)

lemma keeps_if [keeps_intros]: "(b \<Longrightarrow> keeps I m) \<Longrightarrow> (\<not> b \<Longrightarrow> keeps I m') \<Longrightarrow> keeps I (if b then m else m')"
  by simp

lemma keeps_option [keeps_intros]:
  "(x = None \<Longrightarrow> keeps I m) \<Longrightarrow> (\<And>y. x = Some y \<Longrightarrow> keeps I (f y)) \<Longrightarrow>
   keeps I (case x of None \<Rightarrow> m | Some y \<Rightarrow> f y)"
  by (cases x) auto

lemma keepsD: "keeps I m \<Longrightarrow> I s \<Longrightarrow> m s = (r, s') \<Longrightarrow> I s'"
  unfolding keeps_def by (metis snd_conv)

subsection \<open>In-memory storage\<close>

record InMemoryStorage =
  ims_storage :: "(bytes, bytes) omap"
  ims_size :: nat

definition ims_empty :: InMemoryStorage where
  "ims_empty = \<lparr>ims_storage = [], ims_size = 0\<rparr>"

definition ims_get :: "InMemoryStorage \<Rightarrow> bytes \<Rightarrow> bytes result" where
  "ims_get db key =
     (case map_of (ims_storage db) key of None \<Rightarrow> Inl (E_ST ST_NOT_FOUND) | Some v \<Rightarrow> Inr v)"

definition ims_tryGet :: "InMemoryStorage \<Rightarrow> bytes \<Rightarrow> bytes option result" where
  "ims_tryGet db key =
     (case map_of (ims_storage db) key of Some v \<Rightarrow> Inr (Some v) | None \<Rightarrow> Inr None)"

definition ims_put :: "bytes \<Rightarrow> bytes \<Rightarrow> (InMemoryStorage, unit) action" where
  "ims_put key value db =
     (case map_of (ims_storage db) key of
        Some old \<Rightarrow>
          if \<not> ims_size db \<ge> length old then (Inl (Exn AssertionFailed), db)
          else (Inr (), db\<lparr>ims_size := u64_add (ims_size db - length old) (length value),
                           ims_storage := omap_put key value (ims_storage db)\<rparr>)
      | None \<Rightarrow>
          (Inr (), db\<lparr>ims_size := u64_add (ims_size db) (length value),
                      ims_storage := omap_put key value (ims_storage db)\<rparr>))"

definition ims_contains :: "InMemoryStorage \<Rightarrow> bytes \<Rightarrow> bool result" where
  "ims_contains db key = Inr (map_of (ims_storage db) key \<noteq> None)"

definition ims_remove :: "bytes \<Rightarrow> (InMemoryStorage, unit) action" where
  "ims_remove key db =
     (case map_of (ims_storage db) key of
        Some old \<Rightarrow> (Inr (), db\<lparr>ims_size := u64_sub (ims_size db) (length old),
                                ims_storage := omap_erase key (ims_storage db)\<rparr>)
      | None \<Rightarrow> (Inr (), db))"

definition ims_byteSizeHint :: "InMemoryStorage \<Rightarrow> nat option" where
  "ims_byteSizeHint db = Some (ims_size db)"

subsection \<open>Batch\<close>

definition batch_put :: "bytes \<Rightarrow> bytes \<Rightarrow> (bytes, bytes) omap \<Rightarrow> (bytes, bytes) omap" where
  "batch_put key value entries = omap_put key value entries"

definition batch_remove :: "bytes \<Rightarrow> (bytes, bytes) omap \<Rightarrow> (bytes, bytes) omap" where
  "batch_remove key entries = omap_erase key entries"

definition batch_commit :: "(bytes, bytes) omap \<Rightarrow> (InMemoryStorage, unit) action" where
  "batch_commit entries = FOREACH (\<lambda>(key, value). ims_put key value) entries"

definition batch_clear :: "(bytes, bytes) omap \<Rightarrow> (bytes, bytes) omap" where
  "batch_clear entries = []"

subsection \<open>Cursor\<close>

text \<open>
  A cursor holds a copy of the pair it stands on, or nothing.  Both \<open>next\<close> and \<open>prev\<close>
  read the pair without a check.
\<close>

type_synonym InMemoryCursor = "(bytes \<times> bytes) option"

fun lower_bound :: "bytes \<Rightarrow> (bytes, bytes) omap \<Rightarrow> (bytes \<times> bytes) option" where
  "lower_bound key [] = None"
| "lower_bound key (kv # m) = (if fst kv < key then lower_bound key m else Some kv)"

fun upper_bound :: "bytes \<Rightarrow> (bytes, bytes) omap \<Rightarrow> (bytes \<times> bytes) option" where
  "upper_bound key [] = None"
| "upper_bound key (kv # m) = (if key < fst kv then Some kv else upper_bound key m)"

text \<open>\<^verbatim>\<open>std::prev(lower_bound(key))\<close>: the last entry below the key.\<close>

fun before_bound :: "bytes \<Rightarrow> (bytes, bytes) omap \<Rightarrow> (bytes \<times> bytes) option" where
  "before_bound key [] = None"
| "before_bound key (kv # m) =
     (if fst kv < key then (case before_bound key m of None \<Rightarrow> Some kv | Some x \<Rightarrow> Some x) else None)"

definition cursor_seekFirst :: "InMemoryStorage \<Rightarrow> InMemoryCursor" where
  "cursor_seekFirst db = (case ims_storage db of [] \<Rightarrow> None | kv # _ \<Rightarrow> Some kv)"

definition cursor_seek :: "InMemoryStorage \<Rightarrow> bytes \<Rightarrow> InMemoryCursor" where
  "cursor_seek db key = lower_bound key (ims_storage db)"

definition cursor_seekLast :: "InMemoryStorage \<Rightarrow> InMemoryCursor" where
  "cursor_seekLast db = (if ims_storage db = [] then None else Some (last (ims_storage db)))"

definition cursor_isValid :: "InMemoryCursor \<Rightarrow> bool" where
  "cursor_isValid kv \<longleftrightarrow> kv \<noteq> None"

definition cursor_next :: "InMemoryStorage \<Rightarrow> InMemoryCursor \<Rightarrow> InMemoryCursor result" where
  "cursor_next db kv =
     (case kv of None \<Rightarrow> Inl (Exn UndefinedBehaviour)
      | Some p \<Rightarrow> Inr (upper_bound (fst p) (ims_storage db)))"

definition cursor_prev :: "InMemoryStorage \<Rightarrow> InMemoryCursor \<Rightarrow> InMemoryCursor result" where
  "cursor_prev db kv =
     (case kv of None \<Rightarrow> Inl (Exn UndefinedBehaviour)
      | Some p \<Rightarrow> Inr (before_bound (fst p) (ims_storage db)))"

definition cursor_key :: "InMemoryCursor \<Rightarrow> bytes option" where
  "cursor_key kv = map_option fst kv"

definition cursor_value :: "InMemoryCursor \<Rightarrow> bytes option" where
  "cursor_value kv = map_option snd kv"

subsection \<open>Spaces\<close>

datatype Space = Default | SlotToHashes | Header | AttestationSpace | SignatureSpace | Body | StateSpace

type_synonym InMemorySpacedStorage = "(Space \<times> InMemoryStorage) list"

text \<open>A space that was never asked for is created empty.\<close>

definition getSpace :: "Space \<Rightarrow> InMemorySpacedStorage \<Rightarrow> InMemoryStorage" where
  "getSpace space st = (case map_of st space of Some db \<Rightarrow> db | None \<Rightarrow> ims_empty)"

definition in_space ::
  "Space \<Rightarrow> (InMemoryStorage, 'a) action \<Rightarrow> (InMemorySpacedStorage, 'a) action" where
  "in_space space m st = (case m (getSpace space st) of (r, db) \<Rightarrow> (r, AList.update space db st))"

text \<open>
  The interface \<^verbatim>\<open>SpacedStorage\<close> as far as the block storage calls it.
  \<open>sp_last\<close> is the pair a cursor of the space stands on after \<open>seekLast\<close>, and
  \<open>sp_prev\<close> the pair it stands on after a step back.
\<close>

record 's SpacedStorage =
  sp_tryGet :: "'s \<Rightarrow> Space \<Rightarrow> bytes \<Rightarrow> bytes option result"
  sp_contains :: "'s \<Rightarrow> Space \<Rightarrow> bytes \<Rightarrow> bool result"
  sp_put :: "Space \<Rightarrow> bytes \<Rightarrow> bytes \<Rightarrow> ('s, unit) action"
  sp_remove :: "Space \<Rightarrow> bytes \<Rightarrow> ('s, unit) action"
  sp_last :: "'s \<Rightarrow> Space \<Rightarrow> (bytes \<times> bytes) option result"
  sp_prev :: "'s \<Rightarrow> Space \<Rightarrow> (bytes \<times> bytes) option \<Rightarrow> (bytes \<times> bytes) option result"

definition in_memory :: "InMemorySpacedStorage SpacedStorage" where
  "in_memory =
     \<lparr>sp_tryGet = (\<lambda>st space key. ims_tryGet (getSpace space st) key),
      sp_contains = (\<lambda>st space key. ims_contains (getSpace space st) key),
      sp_put = (\<lambda>space key value. in_space space (ims_put key value)),
      sp_remove = (\<lambda>space key. in_space space (ims_remove key)),
      sp_last = (\<lambda>st space. Inr (cursor_seekLast (getSpace space st))),
      sp_prev = (\<lambda>st space kv. cursor_prev (getSpace space st) kv)\<rparr>"

subsection \<open>What the in-memory storage guarantees\<close>

text \<open>
  Well-formedness: the map is sorted and the size counter is the sum of the lengths of the
  values, which fits into 64 bits.
\<close>

definition total_size :: "(bytes, bytes) omap \<Rightarrow> nat" where
  "total_size m = sum_list (map (\<lambda>kv. length (snd kv)) m)"

definition ims_ok :: "InMemoryStorage \<Rightarrow> bool" where
  "ims_ok db \<longleftrightarrow> omap_wf (ims_storage db) \<and> ims_size db = total_size (ims_storage db) \<and>
     total_size (ims_storage db) < 2 ^ 64"

lemma total_size_put:
  "omap_wf m \<Longrightarrow> total_size (omap_put k v m) + (case map_of m k of None \<Rightarrow> 0 | Some old \<Rightarrow> length old) =
     total_size m + length v"
proof (induction k v m rule: omap_put.induct)
  case (2 k v k' v' m)
  have "map_of m k = None" if "k < k'" using that "2.prems" by (auto simp: map_of_eq_None_iff)
  moreover have "map_of m k' = None" using "2.prems" by (auto simp: map_of_eq_None_iff)
  ultimately show ?case using 2 by (auto simp: total_size_def)
qed (simp add: total_size_def)

lemma total_size_erase:
  "omap_wf m \<Longrightarrow> map_of m k = Some old \<Longrightarrow> total_size (omap_erase k m) + length old = total_size m"
proof (induction m)
  case (Cons kv m)
  obtain k' v' where kv: "kv = (k', v')" by force
  show ?case
  proof (cases "k' = k")
    case True
    then have "k \<notin> fst ` set m" using Cons.prems(1) kv by auto
    then have "filter (\<lambda>p. fst p \<noteq> k) m = m" by (auto simp: filter_id_conv)
    with True kv Cons.prems show ?thesis by (simp add: omap_erase_def total_size_def)
  qed (use kv Cons in \<open>simp add: omap_erase_def total_size_def\<close>)
qed simp

lemma ims_put_fits:
  assumes ok: "ims_ok db" and fits: "total_size (omap_put k v (ims_storage db)) < 2 ^ 64"
  shows "\<exists>db'. ims_put k v db = (Inr (), db') \<and> ims_ok db' \<and> ims_storage db' = omap_put k v (ims_storage db)"
proof -
  let ?m = "ims_storage db"
  from ok have wf: "omap_wf ?m" and sz: "ims_size db = total_size ?m" by (simp_all add: ims_ok_def)
  show ?thesis
  proof (cases "map_of ?m k")
    case None
    with total_size_put[OF wf, of k v] sz wf fits show ?thesis
      by (auto simp: ims_put_def ims_ok_def u64_simps omap_put_wf)
  next
    case (Some old)
    have old: "length old \<le> total_size ?m" using total_size_erase[OF wf Some] by simp
    have "total_size (omap_put k v ?m) = (total_size ?m - length old) + length v"
      using total_size_put[OF wf, of k v] Some old by simp
    with Some old sz wf fits show ?thesis
      by (auto simp: ims_put_def ims_ok_def u64_simps omap_put_wf)
  qed
qed

lemma ims_remove_ok:
  assumes ok: "ims_ok db"
  shows "\<exists>db'. ims_remove k db = (Inr (), db') \<and> ims_ok db' \<and>
    ims_storage db' = omap_erase k (ims_storage db)"
proof (cases "map_of (ims_storage db) k")
  case None
  then have "omap_erase k (ims_storage db) = ims_storage db"
    by (force simp: omap_erase_def filter_id_conv map_of_eq_None_iff)
  with None ok show ?thesis by (simp add: ims_remove_def)
next
  case (Some old)
  let ?m = "ims_storage db"
  from ok have wf: "omap_wf ?m" by (simp add: ims_ok_def)
  from total_size_erase[OF wf Some] ok Some show ?thesis
    by (auto simp: ims_remove_def ims_ok_def u64_simps omap_erase_wf)
qed

subsection \<open>The contract of a spaced storage\<close>

text \<open>
  What the block storage relies on: a read that succeeds returns what the space holds, a
  write that succeeds changes exactly its key, and one that fails changes nothing.  Any
  operation may fail.
\<close>

locale spaced_storage =
  fixes ops :: "'s SpacedStorage"
    and view :: "'s \<Rightarrow> Space \<Rightarrow> bytes \<Rightarrow> bytes option"
    and valid :: "'s \<Rightarrow> bool"
  assumes tryGet: "valid s \<Longrightarrow> sp_tryGet ops s space k = Inr x \<Longrightarrow> x = view s space k"
    and contains_law: "valid s \<Longrightarrow> sp_contains ops s space k = Inr b \<Longrightarrow> b = (view s space k \<noteq> None)"
    and put: "valid s \<Longrightarrow> sp_put ops space k v s = (r, s') \<Longrightarrow>
      valid s' \<and> view s' = (if r = Inr () then (view s)(space := (view s space)(k \<mapsto> v)) else view s)"
    and remove: "valid s \<Longrightarrow> sp_remove ops space k s = (r, s') \<Longrightarrow>
      valid s' \<and> view s' = (if r = Inr () then (view s)(space := (view s space)(k := None)) else view s)"
begin

lemma put_ok:
  assumes "valid s" "sp_put ops space k v s = (Inr (), s')"
  shows "valid s'" "view s' = (view s)(space := (view s space)(k \<mapsto> v))"
  using put[OF assms] by simp_all

lemma remove_ok:
  assumes "valid s" "sp_remove ops space k s = (Inr (), s')"
  shows "valid s'" "view s' = (view s)(space := (view s space)(k := None))"
  using remove[OF assms] by simp_all

lemma failed:
  assumes "valid s" "sp_put ops space k v s = (Inl e, s') \<or> sp_remove ops space k s = (Inl e, s')"
  shows "valid s'" "view s' = view s"
  using assms put[of s space k v "Inl e" s'] remove[of s space k "Inl e" s'] by auto

end

text \<open>A storage whose operations never fail.\<close>

locale reliable_storage = spaced_storage ops view valid
  for ops :: "'s SpacedStorage" and view and valid +
  assumes tryGet_total: "valid s \<Longrightarrow> sp_tryGet ops s space k = Inr (view s space k)"
    and remove_total: "valid s \<Longrightarrow> \<exists>s'. sp_remove ops space k s = (Inr (), s')"

text \<open>The in-memory storage satisfies both.\<close>

definition mem_view :: "InMemorySpacedStorage \<Rightarrow> Space \<Rightarrow> bytes \<Rightarrow> bytes option" where
  "mem_view st space = map_of (ims_storage (getSpace space st))"

lemma mem_view_update:
  "mem_view (AList.update space db st) = (mem_view st)(space := map_of (ims_storage db))"
  by (auto simp: mem_view_def getSpace_def update_conv' fun_eq_iff)

lemma ims_put_storage:
  "ims_put k v db = (r, db') \<Longrightarrow>
   map_of (ims_storage db') = (if r = Inr () then (map_of (ims_storage db))(k \<mapsto> v) else map_of (ims_storage db))"
  by (auto simp: ims_put_def omap_put_lookup split: option.splits if_splits)

lemma ims_remove_storage:
  "ims_remove k db = (r, db') \<Longrightarrow> r = Inr () \<and> map_of (ims_storage db') = (map_of (ims_storage db))(k := None)"
  by (auto simp: ims_remove_def omap_erase_lookup fun_upd_idem split: option.splits)

interpretation mem: reliable_storage in_memory mem_view "\<lambda>_. True"
proof unfold_locales
  fix s space k x
  show "sp_tryGet in_memory s space k = Inr (mem_view s space k)"
    by (auto simp: in_memory_def ims_tryGet_def mem_view_def split: option.splits)
  then show "sp_tryGet in_memory s space k = Inr x \<Longrightarrow> x = mem_view s space k" by simp
next
  fix s space k b
  show "sp_contains in_memory s space k = Inr b \<Longrightarrow> b = (mem_view s space k \<noteq> None)"
    by (auto simp: in_memory_def ims_contains_def mem_view_def)
next
  fix s space k v r s'
  assume "sp_put in_memory space k v s = (r, s')"
  then obtain db where db: "ims_put k v (getSpace space s) = (r, db)" "s' = AList.update space db s"
    by (auto simp: in_memory_def in_space_def split: prod.splits)
  from ims_put_storage[OF db(1)]
  show "True \<and> mem_view s' = (if r = Inr () then (mem_view s)(space := (mem_view s space)(k \<mapsto> v)) else mem_view s)"
    by (auto simp: db(2) mem_view_update mem_view_def fun_eq_iff)
next
  fix s space k r s'
  assume "sp_remove in_memory space k s = (r, s')"
  then obtain db where db: "ims_remove k (getSpace space s) = (r, db)" "s' = AList.update space db s"
    by (auto simp: in_memory_def in_space_def split: prod.splits)
  from ims_remove_storage[OF db(1)]
  show "True \<and> mem_view s' = (if r = Inr () then (mem_view s)(space := (mem_view s space)(k := None)) else mem_view s)"
    by (auto simp: db(2) mem_view_update mem_view_def fun_eq_iff)
next
  fix s space k
  show "\<exists>s'. sp_remove in_memory space k s = (Inr (), s')"
    by (auto simp: in_memory_def in_space_def ims_remove_def split: prod.splits option.splits)
qed

subsection \<open>Batches and cursors\<close>

lemma batch_commit_ok:
  assumes "batch_commit entries db = (Inr (), db')" "distinct (map fst entries)"
  shows "map_of (ims_storage db') = map_of (ims_storage db) ++ map_of entries"
  using assms unfolding batch_commit_def
proof (induction entries arbitrary: db)
  case (Cons e es)
  obtain k v where e: "e = (k, v)" by force
  from Cons.prems e obtain db1 where db1: "ims_put k v db = (Inr (), db1)"
    "FOREACH (\<lambda>(key, value). ims_put key value) es db1 = (Inr (), db')"
    by (auto simp: action_simps)
  have "map_of es k = None" using Cons.prems(2) e by (simp add: map_of_eq_None_iff)
  with Cons.IH[OF db1(2)] Cons.prems(2) ims_put_storage[OF db1(1)] e show ?case
    by (auto simp: fun_eq_iff map_add_def split: option.splits)
qed (simp add: action_simps)

lemma cursor_seekLast_greatest:
  assumes "omap_wf (ims_storage db)" "cursor_seekLast db = Some kv" "k \<in> fst ` set (ims_storage db)"
  shows "k \<le> fst kv"
proof -
  from assms(2) have ne: "ims_storage db \<noteq> []" "kv = last (ims_storage db)"
    by (auto simp: cursor_seekLast_def split: if_splits)
  then have "ims_storage db = butlast (ims_storage db) @ [kv]" by simp
  then obtain m where m: "ims_storage db = m @ [kv]" by blast
  with assms(1) have "\<forall>k' \<in> fst ` set m. k' < fst kv" by (metis omap_wf_append prod.collapse)
  with assms(3) show ?thesis unfolding m by (auto intro: less_imp_le)
qed

subsection \<open>Properties of the in-memory storage\<close>

text \<open>
  While the values of an in-memory storage take less than \<open>2 ^ 64\<close> bytes, the size
  counter is exactly their total length: its subtraction never wraps, the assertion of
  \<^verbatim>\<open>put\<close> never fails, and both \<^verbatim>\<open>put\<close> and
  \<^verbatim>\<open>remove\<close> keep the counter exact and the map sorted.
\<close>

theorem ims_size_exact:
  assumes "ims_ok db" "total_size (omap_put key value (ims_storage db)) < 2 ^ 64"
  shows "\<exists>db1 db2. ims_put key value db = (Inr (), db1) \<and> ims_ok db1 \<and>
    ims_byteSizeHint db1 = Some (total_size (omap_put key value (ims_storage db))) \<and>
    ims_get db1 key = Inr value \<and>
    ims_remove key db1 = (Inr (), db2) \<and> ims_ok db2 \<and> ims_tryGet db2 key = Inr None \<and>
    ims_byteSizeHint db2 = Some (total_size (omap_erase key (ims_storage db)))"
proof -
  from ims_put_fits[OF assms] obtain db1 where
    db1: "ims_put key value db = (Inr (), db1)" "ims_ok db1" "ims_storage db1 = omap_put key value (ims_storage db)"
    by blast
  from ims_remove_ok[OF db1(2), of key] obtain db2 where
    db2: "ims_remove key db1 = (Inr (), db2)" "ims_ok db2" "ims_storage db2 = omap_erase key (ims_storage db1)"
    by blast
  have "ims_get db1 key = Inr value" by (simp add: ims_get_def db1(3) omap_put_lookup)
  moreover have "ims_tryGet db2 key = Inr None"
    unfolding ims_tryGet_def db2(3) omap_erase_lookup by simp
  moreover have "ims_byteSizeHint db1 = Some (total_size (omap_put key value (ims_storage db)))"
    using db1(2,3) by (simp add: ims_byteSizeHint_def ims_ok_def)
  moreover have "ims_byteSizeHint db2 = Some (total_size (omap_erase key (ims_storage db)))"
    using db2(2,3) db1(3) by (simp add: ims_byteSizeHint_def ims_ok_def omap_erase_put)
  ultimately show ?thesis using db1(1,2) db2(1,2) by blast
qed

theorem ims_size_exact_witness:
  "\<exists>db1 db2. ims_put [1] [2, 3] ims_empty = (Inr (), db1) \<and> ims_ok db1 \<and>
    ims_byteSizeHint db1 = Some 2 \<and> ims_get db1 [1] = Inr [2, 3] \<and>
    ims_remove [1] db1 = (Inr (), db2) \<and> ims_ok db2 \<and> ims_byteSizeHint db2 = Some 0"
proof -
  have "ims_ok ims_empty" "total_size (omap_put [1] [2, 3] (ims_storage ims_empty)) = 2"
    "total_size (omap_erase [1] (ims_storage ims_empty)) = 0"
    by (simp_all add: ims_ok_def ims_empty_def total_size_def omap_erase_def)
  with ims_size_exact[of ims_empty "[1]" "[2, 3]"] show ?thesis by auto
qed

text \<open>
  Committing a batch writes exactly its pending entries over the storage.  In
  particular a key that was passed to the batch's \<^verbatim>\<open>remove\<close> is only dropped
  from the pending entries: after the commit the storage still holds its old value.
\<close>

theorem batch_commit_entries:
  assumes "batch_commit (batch_remove key entries) db = (Inr (), db')" "omap_wf entries"
  shows "map_of (ims_storage db') = map_of (ims_storage db) ++ (map_of entries)(key := None) \<and>
    ims_tryGet db' key = ims_tryGet db key"
proof
  show view: "map_of (ims_storage db') = map_of (ims_storage db) ++ (map_of entries)(key := None)"
  proof -
    have "distinct (map fst (omap_erase key entries))" using assms(2) omap_erase_wf by blast
    from batch_commit_ok[OF assms(1)[unfolded batch_remove_def] this] show ?thesis
      by (simp add: omap_erase_lookup)
  qed
  show "ims_tryGet db' key = ims_tryGet db key"
    unfolding ims_tryGet_def view by (simp add: map_add_def)
qed

theorem batch_commit_entries_witness:
  "\<exists>db'. batch_commit (batch_remove [1] [([1], [7])]) \<lparr>ims_storage = [([1], [5])], ims_size = 1\<rparr> = (Inr (), db') \<and>
     ims_tryGet db' [1] = Inr (Some [5])"
proof -
  let ?db = "\<lparr>ims_storage = [([1], [5])], ims_size = 1\<rparr> :: InMemoryStorage"
  have run: "batch_commit (batch_remove [1] [([1], [7])]) ?db = (Inr (), ?db)"
    by (simp add: batch_commit_def batch_remove_def omap_erase_def OK_def)
  from batch_commit_entries[OF run] run show ?thesis by (simp add: ims_tryGet_def)
qed

end
