(* ===== verification/BlockStorage.thy ===== *)
theory BlockStorage
  imports Storage
begin

text \<open>
  The block storage of \<^verbatim>\<open>block_storage_impl.cpp\<close> on top of a spaced storage,
  the helpers of \<^verbatim>\<open>storage_util\<close> and the initialisation with the anchor block.
  The storage behind the interface is the parameter \<open>db\<close>; what is proved holds for every
  storage that satisfies the locale \<open>spaced_storage\<close>, failures included, and is
  instantiated with the in-memory storage.
\<close>

subsection \<open>Keys\<close>

definition hash_bytes :: "hash \<Rightarrow> bytes" where
  "hash_bytes h = map (\<lambda>i. of_nat (h div 256 ^ (31 - i))) [0..<32]"

definition slotToHashLookupKey :: "slot \<Rightarrow> bytes" where
  "slotToHashLookupKey slot = map (\<lambda>i. of_nat (slot div 256 ^ i)) [0..<8]"

definition kBlockTreeLeavesLookupKey :: bytes where
  "kBlockTreeLeavesLookupKey = map (\<lambda>c. of_nat (of_char c)) '':lean:block_tree_leaves''"

subsection \<open>Access to a space\<close>

definition hasInSpace :: "'s SpacedStorage \<Rightarrow> 's \<Rightarrow> Space \<Rightarrow> hash \<Rightarrow> bool result" where
  "hasInSpace db st space block_hash = sp_contains db st space (hash_bytes block_hash)"

definition putToSpace :: "'s SpacedStorage \<Rightarrow> Space \<Rightarrow> hash \<Rightarrow> bytes \<Rightarrow> ('s, unit) action" where
  "putToSpace db space block_hash value = sp_put db space (hash_bytes block_hash) value"

definition getFromSpace :: "'s SpacedStorage \<Rightarrow> 's \<Rightarrow> Space \<Rightarrow> hash \<Rightarrow> bytes option result" where
  "getFromSpace db st space block_hash = sp_tryGet db st space (hash_bytes block_hash)"

definition removeFromSpace :: "'s SpacedStorage \<Rightarrow> Space \<Rightarrow> hash \<Rightarrow> ('s, unit) action" where
  "removeFromSpace db space block_hash = sp_remove db space (hash_bytes block_hash)"

subsection \<open>State and decoding\<close>

record 's BlockStorage =
  bst_storage :: 's
  bst_block_tree_leaves :: "hash list option"

definition decode :: "(bytes \<Rightarrow> 'a option) \<Rightarrow> bytes \<Rightarrow> 'a result" where
  "decode dec b = (case dec b of None \<Rightarrow> Inl (E_SSZ SszDecodeError) | Some x \<Rightarrow> Inr x)"

definition on_storage :: "('s, 'a) action \<Rightarrow> ('s BlockStorage, 'a) action" where
  "on_storage m st = (case m (bst_storage st) of (r, s) \<Rightarrow> (r, st\<lparr>bst_storage := s\<rparr>))"

text \<open>A call that only reads the storage.\<close>

definition READ :: "('t \<Rightarrow> 'a result) \<Rightarrow> ('t, 'a) action" where
  "READ f st = (f st, st)"

subsection \<open>Leaves\<close>

definition getBlockTreeLeaves :: "ssz \<Rightarrow> 's SpacedStorage \<Rightarrow> ('s BlockStorage, hash list) action" where
  "getBlockTreeLeaves z db st =
     (case bst_block_tree_leaves st of
        Some leaves \<Rightarrow> (Inr leaves, st)
      | None \<Rightarrow>
          TRY (READ (\<lambda>st. sp_tryGet db (bst_storage st) Default kBlockTreeLeavesLookupKey)) (\<lambda>leaves_opt.
          case leaves_opt of
            None \<Rightarrow> FAIL (E_BS BS_BLOCK_TREE_LEAVES_NOT_FOUND)
          | Some encoded_leaves \<Rightarrow>
              TRY (LIFT (decode (dec_hashes z) encoded_leaves)) (\<lambda>leaves st.
                (Inr leaves, st\<lparr>bst_block_tree_leaves := Some leaves\<rparr>))) st)"

definition setBlockTreeLeaves ::
  "ssz \<Rightarrow> 's SpacedStorage \<Rightarrow> hash list \<Rightarrow> ('s BlockStorage, unit) action" where
  "setBlockTreeLeaves z db leaves0 st =
     (let leaves = sort leaves0 in
      if bst_block_tree_leaves st = Some leaves then (Inr (), st)
      else TRY (on_storage (sp_put db Default kBlockTreeLeavesLookupKey (enc_hashes z leaves)))
             (\<lambda>_ st. (Inr (), st\<lparr>bst_block_tree_leaves := Some leaves\<rparr>)) st)"

subsection \<open>Slots\<close>

definition getBlockHash :: "ssz \<Rightarrow> 's SpacedStorage \<Rightarrow> slot \<Rightarrow> 's BlockStorage \<Rightarrow> hash list result" where
  "getBlockHash z db slot st =
     OUTCOME_TRY (sp_tryGet db (bst_storage st) SlotToHashes (slotToHashLookupKey slot)) (\<lambda>data_opt.
       case data_opt of Some b \<Rightarrow> decode (dec_hashes z) b | None \<Rightarrow> Inr [])"

definition assignHashToSlot ::
  "ssz \<Rightarrow> 's SpacedStorage \<Rightarrow> BlockIndex \<Rightarrow> ('s BlockStorage, unit) action" where
  "assignHashToSlot z db i =
     TRY (READ (getBlockHash z db (bi_slot i))) (\<lambda>hashes.
       if bi_hash i \<notin> set hashes
       then on_storage (sp_put db SlotToHashes (slotToHashLookupKey (bi_slot i)) (hash_bytes (bi_hash i)))
       else OK ())"

definition deassignHashToSlot ::
  "ssz \<Rightarrow> 's SpacedStorage \<Rightarrow> BlockIndex \<Rightarrow> ('s BlockStorage, unit) action" where
  "deassignHashToSlot z db i =
     TRY (READ (getBlockHash z db (bi_slot i))) (\<lambda>hashes.
       if bi_hash i \<in> set hashes
       then let hashes' = filter (\<lambda>h. h \<noteq> bi_hash i) hashes in
            if hashes' = []
            then on_storage (sp_remove db SlotToHashes (slotToHashLookupKey (bi_slot i)))
            else on_storage (sp_put db SlotToHashes (slotToHashLookupKey (bi_slot i)) (enc_hashes z hashes'))
       else OK ())"

definition seekLastSlot :: "'s SpacedStorage \<Rightarrow> 's BlockStorage \<Rightarrow> (bytes \<times> bytes) option result" where
  "seekLastSlot db st = sp_last db (bst_storage st) SlotToHashes"

text \<open>\<^verbatim>\<open>SlotIterator::slot\<close>: the key as a little-endian number.\<close>

definition SlotIterator_slot :: "(bytes \<times> bytes) option \<Rightarrow> slot result" where
  "SlotIterator_slot it =
     (case it of None \<Rightarrow> Inl (Exn AssertionFailed)
      | Some (k, _) \<Rightarrow> if length k = 8
          then Inr (\<Sum>i < 8. unat (k ! i) * 256 ^ i) else Inl (Exn SystemError))"

definition SlotIterator_hashes :: "ssz \<Rightarrow> (bytes \<times> bytes) option \<Rightarrow> hash list result" where
  "SlotIterator_hashes z it =
     (case it of None \<Rightarrow> Inl (Exn AssertionFailed)
      | Some (_, v) \<Rightarrow> (case dec_hashes z v of None \<Rightarrow> Inl (Exn SystemError) | Some hs \<Rightarrow> Inr hs))"

subsection \<open>Headers\<close>

definition fetchBlockHeader ::
  "ssz \<Rightarrow> 's SpacedStorage \<Rightarrow> hash \<Rightarrow> 's BlockStorage \<Rightarrow> BlockHeader option result" where
  "fetchBlockHeader z db block_hash st =
     OUTCOME_TRY (getFromSpace db (bst_storage st) Header block_hash) (\<lambda>opt.
       case opt of
         Some encoded_header \<Rightarrow>
           OUTCOME_TRY (decode (dec_header z) encoded_header) (\<lambda>header.
             if hash_header z header = block_hash then Inr (Some header)
             else Inl (Exn AssertionFailed))
       | None \<Rightarrow> Inr None)"

definition hasBlockHeader :: "'s SpacedStorage \<Rightarrow> hash \<Rightarrow> 's BlockStorage \<Rightarrow> bool result" where
  "hasBlockHeader db block_hash st = hasInSpace db (bst_storage st) Header block_hash"

definition putBlockHeader ::
  "ssz \<Rightarrow> 's SpacedStorage \<Rightarrow> BlockHeader \<Rightarrow> ('s BlockStorage, hash) action" where
  "putBlockHeader z db header =
     TRY (on_storage (putToSpace db Header (hash_header z header) (enc_header z header)))
       (\<lambda>_. OK (hash_header z header))"

definition getBlockHeader ::
  "ssz \<Rightarrow> 's SpacedStorage \<Rightarrow> hash \<Rightarrow> 's BlockStorage \<Rightarrow> BlockHeader result" where
  "getBlockHeader z db block_hash st =
     OUTCOME_TRY (fetchBlockHeader z db block_hash st) (\<lambda>header_opt.
       case header_opt of Some header \<Rightarrow> Inr header | None \<Rightarrow> Inl (E_BS BS_HEADER_NOT_FOUND))"

definition tryGetBlockHeader ::
  "ssz \<Rightarrow> 's SpacedStorage \<Rightarrow> hash \<Rightarrow> 's BlockStorage \<Rightarrow> BlockHeader option result" where
  "tryGetBlockHeader z db block_hash st = fetchBlockHeader z db block_hash st"

subsection \<open>Bodies and states\<close>

definition putBlockBody ::
  "ssz \<Rightarrow> 's SpacedStorage \<Rightarrow> hash \<Rightarrow> BlockBody \<Rightarrow> ('s BlockStorage, unit) action" where
  "putBlockBody z db block_hash body = on_storage (putToSpace db Body block_hash (enc_body z body))"

definition getBlockBody ::
  "ssz \<Rightarrow> 's SpacedStorage \<Rightarrow> hash \<Rightarrow> 's BlockStorage \<Rightarrow> BlockBody option result" where
  "getBlockBody z db block_hash st =
     OUTCOME_TRY (getFromSpace db (bst_storage st) Body block_hash) (\<lambda>opt.
       case opt of
         Some b \<Rightarrow> OUTCOME_TRY (decode (dec_body z) b) (\<lambda>body. Inr (Some body))
       | None \<Rightarrow> Inr None)"

definition removeBlockBody :: "'s SpacedStorage \<Rightarrow> hash \<Rightarrow> ('s BlockStorage, unit) action" where
  "removeBlockBody db block_hash = on_storage (sp_remove db Body (hash_bytes block_hash))"

definition putState ::
  "ssz \<Rightarrow> 's SpacedStorage \<Rightarrow> hash \<Rightarrow> State \<Rightarrow> ('s BlockStorage, unit) action" where
  "putState z db block_hash state = on_storage (putToSpace db StateSpace block_hash (enc_state z state))"

definition getState ::
  "ssz \<Rightarrow> 's SpacedStorage \<Rightarrow> hash \<Rightarrow> 's BlockStorage \<Rightarrow> State option result" where
  "getState z db block_hash st =
     OUTCOME_TRY (getFromSpace db (bst_storage st) StateSpace block_hash) (\<lambda>opt.
       case opt of
         Some b \<Rightarrow> OUTCOME_TRY (decode (dec_state z) b) (\<lambda>state. Inr (Some state))
       | None \<Rightarrow> Inr None)"

definition removeState :: "'s SpacedStorage \<Rightarrow> hash \<Rightarrow> ('s BlockStorage, unit) action" where
  "removeState db block_hash = on_storage (sp_remove db StateSpace (hash_bytes block_hash))"

subsection \<open>Blocks\<close>

text \<open>The removal of everything stored of a block whose header was found.\<close>

definition removeBlock_entries ::
  "'s SpacedStorage \<Rightarrow> hash \<Rightarrow> BlockIndex \<Rightarrow> ('s BlockStorage, unit) action" where
  "removeBlock_entries db block_hash block_index =
     (let key = slotToHashLookupKey (bi_slot block_index);
          remove = (\<lambda>space. on_storage (sp_remove db space (hash_bytes (bi_hash block_index))))
      in TRY (READ (\<lambda>st. sp_tryGet db (bst_storage st) SlotToHashes key)) (\<lambda>hash_opt.
         TRY (if hash_opt = Some (hash_bytes block_hash)
              then on_storage (sp_remove db SlotToHashes key) else OK ()) (\<lambda>_.
         TRY (removeBlockBody db (bi_hash block_index)) (\<lambda>_.
         TRY (remove StateSpace) (\<lambda>_.
         TRY (remove SignatureSpace) (\<lambda>_.
         TRY (remove AttestationSpace) (\<lambda>_.
         remove Header)))))))"

definition removeBlock :: "ssz \<Rightarrow> 's SpacedStorage \<Rightarrow> hash \<Rightarrow> ('s BlockStorage, unit) action" where
  "removeBlock z db block_hash =
     TRY (READ (fetchBlockHeader z db block_hash)) (\<lambda>header_opt.
     case header_opt of
       None \<Rightarrow> OK ()
     | Some header \<Rightarrow> removeBlock_entries db block_hash (BlockHeader_index z header))"

definition putBlock_parts ::
  "ssz \<Rightarrow> 's SpacedStorage \<Rightarrow> BlockHeader \<Rightarrow> BlockData \<Rightarrow> ('s BlockStorage, hash) action" where
  "putBlock_parts z db header block =
     TRY (putBlockHeader z db header) (\<lambda>block_hash.
     TRY (case data_signature block of
            Some sig \<Rightarrow> on_storage (putToSpace db SignatureSpace block_hash (enc_signatures z sig))
          | None \<Rightarrow> OK ()) (\<lambda>_.
     TRY (case data_body block of
            Some body \<Rightarrow> on_storage (putToSpace db Body block_hash (enc_body z body))
          | None \<Rightarrow> OK ()) (\<lambda>_.
     OK block_hash)))"

text \<open>On an error code the block is removed again; how that ends is ignored.\<close>

definition putBlock :: "ssz \<Rightarrow> 's SpacedStorage \<Rightarrow> BlockData \<Rightarrow> ('s BlockStorage, hash) action" where
  "putBlock z db block =
     (case data_header block of
        None \<Rightarrow> FAIL (Exn UndefinedBehaviour)
      | Some header \<Rightarrow>
          CATCH (putBlock_parts z db header block) (\<lambda>e.
            TRY (CATCH (removeBlock z db (hash_header z header)) (\<lambda>_. OK ())) (\<lambda>_. FAIL e)))"

definition BlockParts_HEADER :: nat where
  "BlockParts_HEADER = 0"

definition BlockParts_SIGNATURES :: nat where
  "BlockParts_SIGNATURES = 2"

definition BlockParts_BODY :: nat where
  "BlockParts_BODY = 3"

definition BlockParts_ALL :: nat where
  "BlockParts_ALL = 2 ^ BlockParts_HEADER + 2 ^ BlockParts_SIGNATURES + 2 ^ BlockParts_BODY"

definition getBlock ::
  "ssz \<Rightarrow> 's SpacedStorage \<Rightarrow> hash \<Rightarrow> nat \<Rightarrow> 's BlockStorage \<Rightarrow> BlockData result" where
  "getBlock z db block_hash parts st =
     OUTCOME_TRY (if bit parts BlockParts_HEADER
                  then OUTCOME_TRY (getBlockHeader z db block_hash st) (\<lambda>h. Inr (Some h))
                  else Inr None) (\<lambda>header.
     OUTCOME_TRY (if bit parts BlockParts_SIGNATURES
                  then OUTCOME_TRY (getFromSpace db (bst_storage st) SignatureSpace block_hash) (\<lambda>opt.
                         case opt of
                           Some b \<Rightarrow> OUTCOME_TRY (decode (dec_signatures z) b) (\<lambda>s. Inr (Some s))
                         | None \<Rightarrow> Inl (E_BS BS_SIGNATURE_NOT_FOUND))
                  else Inr None) (\<lambda>sig.
     OUTCOME_TRY (if bit parts BlockParts_BODY
                  then OUTCOME_TRY (getFromSpace db (bst_storage st) Body block_hash) (\<lambda>opt.
                         case opt of
                           Some b \<Rightarrow> OUTCOME_TRY (decode (dec_body z) b) (\<lambda>x. Inr (Some x))
                         | None \<Rightarrow> Inl (E_BS BS_BODY_NOT_FOUND))
                  else Inr None) (\<lambda>body.
     Inr \<lparr>data_hash = block_hash, data_header = header, data_body = body, data_signature = sig\<rparr>)))"

definition getSignedBlock ::
  "ssz \<Rightarrow> 's SpacedStorage \<Rightarrow> hash \<Rightarrow> 's BlockStorage \<Rightarrow> SignedBlock result" where
  "getSignedBlock z db block_hash st =
     OUTCOME_TRY (getBlock z db block_hash BlockParts_ALL st) (\<lambda>data.
       case (data_header data, data_signature data, data_body data) of
         (Some header, Some sig, Some body) \<Rightarrow>
           Inr \<lparr>sb_block = \<lparr>blk_slot = hdr_slot header, blk_proposer_index = hdr_proposer_index header,
                              blk_parent_root = hdr_parent_root header,
                              blk_state_root = hdr_state_root header, blk_body = body\<rparr>,
                sb_signature = sig\<rparr>
       | _ \<Rightarrow> Inl (Exn UndefinedBehaviour))"

subsection \<open>Initialisation with the anchor block\<close>

text \<open>\<^verbatim>\<open>qtils::raise\<close> of an error code.\<close>

definition RAISE :: "('s, 'a) action \<Rightarrow> ('s, 'a) action" where
  "RAISE m = CATCH m (\<lambda>_. FAIL (Exn SystemError))"

definition init_anchor ::
  "ssz \<Rightarrow> 's SpacedStorage \<Rightarrow> BlockHeader \<Rightarrow> State \<Rightarrow> ('s BlockStorage, unit) action" where
  "init_anchor z db anchor_block anchor_state =
     (let anchor_block_hash = hash_header z anchor_block in
      TRY (RAISE (READ (hasBlockHeader db anchor_block_hash))) (\<lambda>anchor_header_is_exist.
      if anchor_header_is_exist then OK ()
      else
        TRY (RAISE (putBlock z db \<lparr>data_hash = anchor_block_hash, data_header = Some anchor_block,
                                    data_body = None, data_signature = None\<rparr>)) (\<lambda>h.
        if h \<noteq> anchor_block_hash then FAIL (Exn AssertionFailed)
        else
        TRY (RAISE (assignHashToSlot z db (BlockHeader_index z anchor_block))) (\<lambda>_.
        TRY (RAISE (setBlockTreeLeaves z db [anchor_block_hash])) (\<lambda>_.
        RAISE (putState z db anchor_block_hash anchor_state))))))"

text \<open>It runs on a temporary block storage, whose cached leaves are dropped at the end.\<close>

definition BlockStorageInitializer ::
  "ssz \<Rightarrow> 's SpacedStorage \<Rightarrow> BlockHeader \<Rightarrow> State \<Rightarrow> ('s, unit) action" where
  "BlockStorageInitializer z db anchor_block anchor_state s =
     (case init_anchor z db anchor_block anchor_state \<lparr>bst_storage = s, bst_block_tree_leaves = None\<rparr> of
        (r, st) \<Rightarrow> (r, bst_storage st))"

subsection \<open>Keys are distinct\<close>

lemma digits_determine:
  assumes "\<And>j. j < n \<Longrightarrow> (a div 256 ^ j) mod 256 = (b div 256 ^ j) mod (256 :: nat)"
  shows "a mod 256 ^ n = b mod 256 ^ n"
  using assms
proof (induction n)
  case (Suc n)
  then have "a mod 256 ^ n = b mod 256 ^ n" "(a div 256 ^ n) mod 256 = (b div 256 ^ n) mod 256" by simp_all
  then show ?case by (simp add: mod_mult2_eq mult.commute[of 256])
qed simp

lemma of_nat_byte_eq: "(of_nat a :: 8 word) = of_nat b \<longleftrightarrow> a mod 256 = b mod 256"
  by (simp add: word_of_nat_eq_iff take_bit_eq_mod)

lemma hash_bytes_inj:
  assumes "hash_bytes a = hash_bytes b" "a < 2 ^ 256" "b < 2 ^ 256"
  shows "a = b"
proof -
  have "(a div 256 ^ j) mod 256 = (b div 256 ^ j) mod 256" if "j < 32" for j
  proof -
    have "hash_bytes a ! (31 - j) = hash_bytes b ! (31 - j)" using assms(1) by simp
    then show ?thesis
      using that nth_upt[of 0 "31 - j" 32] by (simp add: hash_bytes_def of_nat_byte_eq)
  qed
  from digits_determine[of 32, OF this] assms(2,3) show ?thesis by simp
qed

lemma slot_key_inj:
  assumes "slotToHashLookupKey a = slotToHashLookupKey b" "a < 2 ^ 64" "b < 2 ^ 64"
  shows "a = b"
proof -
  have "(a div 256 ^ j) mod 256 = (b div 256 ^ j) mod 256" if "j < 8" for j
  proof -
    have "slotToHashLookupKey a ! j = slotToHashLookupKey b ! j" using assms(1) by simp
    then show ?thesis using that by (simp add: slotToHashLookupKey_def of_nat_byte_eq)
  qed
  from digits_determine[of 8, OF this] assms(2,3) show ?thesis by simp
qed

subsection \<open>Frames and round trips\<close>

lemma on_storage_eq:
  "on_storage m st = (r, st') \<longleftrightarrow>
     (\<exists>s. m (bst_storage st) = (r, s) \<and> st' = st\<lparr>bst_storage := s\<rparr>)"
  by (auto simp: on_storage_def split: prod.splits)

lemma READ_eq [action_simps]: "READ f st = (r, st') \<longleftrightarrow> f st = r \<and> st' = st"
  by (auto simp: READ_def)

lemma TRY_unit_eq_Inr:
  "TRY m f s = (Inr y, s'') \<longleftrightarrow> (\<exists>s'. m s = (Inr (), s') \<and> f () s' = (Inr y, s''))"
  by (auto simp: TRY_eq_Inr)

lemma keeps_READ [keeps_intros]: "keeps I (READ f)"
  by (simp add: keeps_def READ_def)

lemma keeps_TRY_READ:
  "(\<And>x st. f st = Inr x \<Longrightarrow> keeps I (m x)) \<Longrightarrow> keeps I (TRY (READ f) m)"
  by (auto simp: keeps_def TRY_def READ_def split: sum.splits)

lemma keeps_RAISE [keeps_intros]: "keeps I m \<Longrightarrow> keeps I (RAISE m)"
  unfolding RAISE_def by (intro keeps_intros)

lemma CATCH_eq_Inr:
  "CATCH m h s = (Inr x, s'') \<longleftrightarrow>
     m s = (Inr x, s'') \<or> (\<exists>e s'. m s = (Inl e, s') \<and> \<not> is_exn e \<and> h e s' = (Inr x, s''))"
  by (auto simp: CATCH_def split: sum.splits prod.splits if_splits)

lemma RAISE_eq_Inr: "RAISE m s = (Inr x, s') \<longleftrightarrow> m s = (Inr x, s')"
  by (simp add: RAISE_def CATCH_eq_Inr FAIL_def)

text \<open>A block as \<^verbatim>\<open>addBlock\<close> hands it to the storage.\<close>

definition BlockData_of :: "ssz \<Rightarrow> SignedBlock \<Rightarrow> BlockData" where
  "BlockData_of z sb =
     \<lparr>data_hash = Block_hash z (sb_block sb), data_header = Some (getHeader z (sb_block sb)),
      data_body = Some (blk_body (sb_block sb)), data_signature = Some (sb_signature sb)\<rparr>"

text \<open>The SSZ library decodes what it encoded, for the parts of this block.\<close>

definition ssz_decodes :: "ssz \<Rightarrow> SignedBlock \<Rightarrow> bool" where
  "ssz_decodes z sb \<longleftrightarrow>
     dec_header z (enc_header z (getHeader z (sb_block sb))) = Some (getHeader z (sb_block sb)) \<and>
     dec_body z (enc_body z (blk_body (sb_block sb))) = Some (blk_body (sb_block sb)) \<and>
     dec_signatures z (enc_signatures z (sb_signature sb)) = Some (sb_signature sb)"

context spaced_storage
begin

definition bview :: "'s BlockStorage \<Rightarrow> Space \<Rightarrow> bytes \<Rightarrow> bytes option" where
  "bview st = view (bst_storage st)"

definition bvalid :: "'s BlockStorage \<Rightarrow> bool" where
  "bvalid st \<longleftrightarrow> valid (bst_storage st)"

lemma on_storage_put:
  assumes "bvalid st" "on_storage (sp_put ops space k v) st = (Inr (), st')"
  shows "bvalid st'" "bview st' = (bview st)(space := (bview st space)(k \<mapsto> v))"
    "bst_block_tree_leaves st' = bst_block_tree_leaves st"
  using assms put_ok[of "bst_storage st" space k v]
  by (auto simp: on_storage_eq bvalid_def bview_def)

lemma on_storage_remove:
  assumes "bvalid st" "on_storage (sp_remove ops space k) st = (Inr (), st')"
  shows "bvalid st'" "bview st' = (bview st)(space := (bview st space)(k := None))"
    "bst_block_tree_leaves st' = bst_block_tree_leaves st"
  using assms remove_ok[of "bst_storage st" space k]
  by (auto simp: on_storage_eq bvalid_def bview_def)

lemma keeps_write:
  assumes "\<And>st s. I st \<Longrightarrow> valid s \<Longrightarrow> view s = bview st \<Longrightarrow> I (st\<lparr>bst_storage := s\<rparr>)"
    and "\<And>st. I st \<Longrightarrow> bvalid st"
    and "\<And>st s v. I st \<Longrightarrow> valid s \<Longrightarrow> view s = (bview st)(space := (bview st space)(k := v)) \<Longrightarrow>
      I (st\<lparr>bst_storage := s\<rparr>)"
  shows "keeps I (on_storage (sp_put ops space k v))" "keeps I (on_storage (sp_remove ops space k))"
  unfolding keeps_def
proof (safe)
  fix st assume st: "I st"
  obtain r s where rs: "sp_put ops space k v (bst_storage st) = (r, s)" by force
  have "valid (bst_storage st)" using assms(2)[OF st] by (simp add: bvalid_def)
  from put[OF this rs] assms(1,3)[OF st] show "I (snd (on_storage (sp_put ops space k v) st))"
    by (auto simp: on_storage_def rs bview_def split: if_splits)
next
  fix st assume st: "I st"
  obtain r s where rs: "sp_remove ops space k (bst_storage st) = (r, s)" by force
  have "valid (bst_storage st)" using assms(2)[OF st] by (simp add: bvalid_def)
  from remove[OF this rs] assms(1,3)[OF st] show "I (snd (on_storage (sp_remove ops space k) st))"
    by (auto simp: on_storage_def rs bview_def split: if_splits)
qed

text \<open>Only entries of the block \<open>h\<close> and of its slot may differ.\<close>

definition frame :: "hash \<Rightarrow> 's BlockStorage \<Rightarrow> 's BlockStorage \<Rightarrow> bool" where
  "frame h st0 st \<longleftrightarrow>
     bvalid st \<and> bst_block_tree_leaves st = bst_block_tree_leaves st0 \<and> bview st Default = bview st0 Default \<and>
     (\<forall>space k. space \<noteq> SlotToHashes \<longrightarrow> k \<noteq> hash_bytes h \<longrightarrow> bview st space k = bview st0 space k)"

lemma frame_write:
  assumes "space \<noteq> Default" "space = SlotToHashes \<or> k = hash_bytes h"
  shows "keeps (frame h st0) (on_storage (sp_put ops space k v))"
    "keeps (frame h st0) (on_storage (sp_remove ops space k))"
  using assms by (auto intro!: keeps_write simp: frame_def bvalid_def bview_def)

lemma fetchBlockHeader_Some:
  assumes "fetchBlockHeader z db h st = Inr (Some header)"
  shows "hash_header z header = h"
  using assms by (auto simp: fetchBlockHeader_def result_iffs split: option.splits if_splits)

lemma removeBlock_entries_frame:
  "bi_hash i = h \<Longrightarrow> keeps (frame h st0) (removeBlock_entries ops h i)"
  unfolding removeBlock_entries_def Let_def removeBlockBody_def
  by (intro keeps_intros) (auto intro!: keeps_intros frame_write)

lemma removeBlock_frame: "keeps (frame h st0) (removeBlock z ops h)"
  unfolding removeBlock_def
proof (rule keeps_TRY_READ)
  fix x st assume x: "fetchBlockHeader z ops h st = Inr x"
  then have "bi_hash (BlockHeader_index z header) = h" if "x = Some header" for header
    using that fetchBlockHeader_Some by (auto simp: BlockHeader_index_def)
  then show "keeps (frame h st0) (case x of None \<Rightarrow> OK ()
      | Some header \<Rightarrow> removeBlock_entries ops h (BlockHeader_index z header))"
    by (intro keeps_intros removeBlock_entries_frame)
qed

lemma putBlock_frame:
  assumes "data_header block = Some header"
  shows "keeps (frame (hash_header z header) st0) (putBlock z ops block)"
proof -
  let ?h = "hash_header z header"
  have h: "keeps (frame ?h st0) (TRY (putBlockHeader z ops header) f)" if "keeps (frame ?h st0) (f ?h)" for f
    :: "hash \<Rightarrow> ('s BlockStorage, hash) action"
  proof -
    have "TRY (putBlockHeader z ops header) f =
        TRY (on_storage (putToSpace ops Header ?h (enc_header z header))) (\<lambda>_. f ?h)"
      by (auto simp: putBlockHeader_def TRY_def OK_def fun_eq_iff split: sum.splits prod.splits)
    with that show ?thesis
      unfolding putToSpace_def by (auto intro!: keeps_intros frame_write)
  qed
  show ?thesis
    unfolding putBlock_def assms option.simps putBlock_parts_def
    by (intro keeps_intros removeBlock_frame h) (auto simp: putToSpace_def intro!: frame_write)
qed

lemma putBlock_success:
  assumes "bvalid st" "putBlock z ops (BlockData_of z sb) st = (Inr h, st')"
  shows "h = Block_hash z (sb_block sb)" "bvalid st'"
    and "bview st' Header (hash_bytes h) = Some (enc_header z (getHeader z (sb_block sb)))"
    and "bview st' Body (hash_bytes h) = Some (enc_body z (blk_body (sb_block sb)))"
    and "bview st' SignatureSpace (hash_bytes h) = Some (enc_signatures z (sb_signature sb))"
proof -
  let ?h = "hash_header z (getHeader z (sb_block sb))"
  from assms(2) have "putBlock_parts z ops (getHeader z (sb_block sb)) (BlockData_of z sb) st = (Inr h, st')"
    by (auto simp: putBlock_def BlockData_of_def CATCH_eq_Inr TRY_eq_Inr FAIL_def)
  then obtain st1 st2 where
    s1: "on_storage (sp_put ops Header (hash_bytes ?h) (enc_header z (getHeader z (sb_block sb)))) st = (Inr (), st1)"
    and s2: "on_storage (sp_put ops SignatureSpace (hash_bytes ?h) (enc_signatures z (sb_signature sb))) st1 = (Inr (), st2)"
    and s3: "on_storage (sp_put ops Body (hash_bytes ?h) (enc_body z (blk_body (sb_block sb)))) st2 = (Inr (), st')"
    and h: "h = ?h"
    by (auto simp: putBlock_parts_def putBlockHeader_def BlockData_of_def putToSpace_def action_simps)
  note v1 = on_storage_put[OF assms(1) s1]
  note v2 = on_storage_put[OF v1(1) s2]
  note v3 = on_storage_put[OF v2(1) s3]
  show "h = Block_hash z (sb_block sb)" by (simp add: h Block_hash_def)
  show "bvalid st'" by (rule v3(1))
  show "bview st' Header (hash_bytes h) = Some (enc_header z (getHeader z (sb_block sb)))"
    "bview st' Body (hash_bytes h) = Some (enc_body z (blk_body (sb_block sb)))"
    "bview st' SignatureSpace (hash_bytes h) = Some (enc_signatures z (sb_signature sb))"
    using v1(2) v2(2) v3(2) by (simp_all add: h)
qed

end

context reliable_storage
begin

lemma getFromSpace_view: "bvalid st \<Longrightarrow> getFromSpace ops (bst_storage st) space h = Inr (bview st space (hash_bytes h))"
  by (simp add: getFromSpace_def tryGet_total bvalid_def bview_def)

lemma putBlock_getSignedBlock:
  assumes "bvalid st" "putBlock z ops (BlockData_of z sb) st = (Inr h, st')" "ssz_decodes z sb"
  shows "getSignedBlock z ops h st' = Inr sb"
proof -
  note p = putBlock_success[OF assms(1,2)]
  have bits: "bit BlockParts_ALL BlockParts_HEADER" "bit BlockParts_ALL BlockParts_SIGNATURES"
    "bit BlockParts_ALL BlockParts_BODY"
    by (simp_all add: BlockParts_ALL_def BlockParts_HEADER_def BlockParts_SIGNATURES_def
        BlockParts_BODY_def bit_iff_odd)
  have "getBlockHeader z ops h st' = Inr (getHeader z (sb_block sb))"
    using assms(3) p(1,3) getFromSpace_view[OF p(2)]
    by (simp add: getBlockHeader_def fetchBlockHeader_def decode_def ssz_decodes_def Block_hash_def)
  then show ?thesis
    using assms(3) p(4,5) getFromSpace_view[OF p(2)]
    by (simp add: getSignedBlock_def getBlock_def bits decode_def ssz_decodes_def getHeader_def)
qed

lemma reads_view:
  assumes "bvalid st" "bvalid st'" "\<And>space. space \<noteq> SlotToHashes \<Longrightarrow> space \<noteq> Default \<Longrightarrow>
      bview st' space (hash_bytes h) = bview st space (hash_bytes h)"
  shows "getBlockHeader z ops h st' = getBlockHeader z ops h st"
    "getBlockBody z ops h st' = getBlockBody z ops h st" "getState z ops h st' = getState z ops h st"
    "getSignedBlock z ops h st' = getSignedBlock z ops h st"
proof -
  have get: "getFromSpace ops (bst_storage st') space h = getFromSpace ops (bst_storage st) space h"
    if "space \<noteq> SlotToHashes" "space \<noteq> Default" for space
    using getFromSpace_view assms that by simp
  show hdr: "getBlockHeader z ops h st' = getBlockHeader z ops h st"
    by (simp add: getBlockHeader_def fetchBlockHeader_def get)
  show "getBlockBody z ops h st' = getBlockBody z ops h st" "getState z ops h st' = getState z ops h st"
    by (simp_all add: getBlockBody_def getState_def get)
  show "getSignedBlock z ops h st' = getSignedBlock z ops h st"
    by (simp add: getSignedBlock_def getBlock_def hdr get cong: if_cong)
qed

lemma frame_reads:
  assumes "bvalid st" "frame h st st'" "k < 2 ^ 256" "h < 2 ^ 256" "k \<noteq> h"
  shows "getBlockHeader z ops k st' = getBlockHeader z ops k st \<and>
    getBlockBody z ops k st' = getBlockBody z ops k st \<and> getState z ops k st' = getState z ops k st \<and>
    getSignedBlock z ops k st' = getSignedBlock z ops k st"
proof -
  have "hash_bytes k \<noteq> hash_bytes h" using hash_bytes_inj assms(3-5) by blast
  with assms(2) have "bview st' space (hash_bytes k) = bview st space (hash_bytes k)" if "space \<noteq> SlotToHashes" for space
    using that by (simp add: frame_def)
  moreover have "bvalid st'" using assms(2) by (simp add: frame_def)
  ultimately show ?thesis using reads_view[OF assms(1)] by blast
qed

lemma frame_refl: "bvalid st \<Longrightarrow> frame h st st"
  by (simp add: frame_def)

lemma putBlock_reads:
  assumes "bvalid st" "putBlock z ops block st = (r, st')" "data_header block = Some header"
    and "hash_header z header < 2 ^ 256" "k < 2 ^ 256" "k \<noteq> hash_header z header"
  shows "getBlockHeader z ops k st' = getBlockHeader z ops k st \<and>
    getBlockBody z ops k st' = getBlockBody z ops k st \<and> getState z ops k st' = getState z ops k st \<and>
    getSignedBlock z ops k st' = getSignedBlock z ops k st"
proof (rule frame_reads[OF assms(1)])
  show "frame (hash_header z header) st st'"
    by (rule keepsD[OF putBlock_frame[OF assms(3)] frame_refl[OF assms(1)] assms(2)])
qed (use assms in auto)

lemma removeBlock_gone:
  assumes "bvalid st" "removeBlock z ops h st = (Inr (), st')"
  shows "getBlockHeader z ops h st' = Inl (E_BS BS_HEADER_NOT_FOUND) \<and>
    (getBlockHeader z ops h st \<noteq> Inl (E_BS BS_HEADER_NOT_FOUND) \<longrightarrow>
       getBlockBody z ops h st' = Inr None \<and> getState z ops h st' = Inr None)"
proof -
  from assms(2) obtain x where x: "fetchBlockHeader z ops h st = Inr x"
    and run: "(case x of None \<Rightarrow> OK () | Some header \<Rightarrow>
      removeBlock_entries ops h (BlockHeader_index z header)) st = (Inr (), st')"
    unfolding removeBlock_def TRY_eq_Inr READ_eq by auto
  show ?thesis
  proof (cases x)
    case None
    with x run show ?thesis by (simp add: OK_def getBlockHeader_def)
  next
    case (Some header)
    let ?i = "BlockHeader_index z header"
    have hh: "bi_hash ?i = h" using x Some fetchBlockHeader_Some by (auto simp: BlockHeader_index_def)
    have "removeBlock_entries ops h ?i st = (Inr (), st')" using run Some by simp
    then obtain o1 s1 s2 s3 s4 s5 where
      s1: "(if o1 = Some (hash_bytes h) then on_storage (sp_remove ops SlotToHashes (slotToHashLookupKey (bi_slot ?i)))
            else OK ()) st = (Inr (), s1)"
      and r: "on_storage (sp_remove ops Body (hash_bytes h)) s1 = (Inr (), s2)"
        "on_storage (sp_remove ops StateSpace (hash_bytes h)) s2 = (Inr (), s3)"
        "on_storage (sp_remove ops SignatureSpace (hash_bytes h)) s3 = (Inr (), s4)"
        "on_storage (sp_remove ops AttestationSpace (hash_bytes h)) s4 = (Inr (), s5)"
        "on_storage (sp_remove ops Header (hash_bytes h)) s5 = (Inr (), st')"
      unfolding removeBlock_entries_def Let_def removeBlockBody_def TRY_unit_eq_Inr TRY_eq_Inr READ_eq hh
      by blast
    have "bvalid s1"
      using s1 assms(1) on_storage_remove(1)[OF assms(1)] by (cases "o1 = Some (hash_bytes h)") (auto simp: OK_def)
    note v2 = on_storage_remove[OF \<open>bvalid s1\<close> r(1)]
    note v3 = on_storage_remove[OF v2(1) r(2)]
    note v4 = on_storage_remove[OF v3(1) r(3)]
    note v5 = on_storage_remove[OF v4(1) r(4)]
    note v6 = on_storage_remove[OF v5(1) r(5)]
    have "getFromSpace ops (bst_storage st') space h = Inr None" if "space \<in> {Header, Body, StateSpace}" for space
      using getFromSpace_view[OF v6(1)] that v2(2) v3(2) v4(2) v5(2) v6(2) by auto
    then show ?thesis
      by (simp add: getBlockHeader_def fetchBlockHeader_def getBlockBody_def getState_def)
  qed
qed

lemma getBlockHash_view:
  "bvalid st \<Longrightarrow> getBlockHash z ops slot st =
     (case bview st SlotToHashes (slotToHashLookupKey slot) of Some b \<Rightarrow> decode (dec_hashes z) b | None \<Rightarrow> Inr [])"
  by (simp add: getBlockHash_def tryGet_total bvalid_def bview_def)

lemma slot_write:
  assumes "bvalid st" "bvalid st'"
    and "bview st' = (bview st)(SlotToHashes := (bview st SlotToHashes)(slotToHashLookupKey slot := v))"
  shows "getBlockHash z ops slot st' = (case v of Some b \<Rightarrow> decode (dec_hashes z) b | None \<Rightarrow> Inr [])"
    and "s < 2 ^ 64 \<Longrightarrow> slot < 2 ^ 64 \<Longrightarrow> s \<noteq> slot \<Longrightarrow> getBlockHash z ops s st' = getBlockHash z ops s st"
  using assms(3) slot_key_inj[of s slot] by (auto simp: getBlockHash_view[OF assms(1)] getBlockHash_view[OF assms(2)])

lemma assign_slot:
  assumes "bvalid st" "assignHashToSlot z ops i st = (Inr (), st')"
    and "getBlockHash z ops (bi_slot i) st = Inr hashes"
    and "dec_hashes z (hash_bytes (bi_hash i)) = Some [bi_hash i]"
  shows "getBlockHash z ops (bi_slot i) st' = Inr (if bi_hash i \<in> set hashes then hashes else [bi_hash i])"
    and "s < 2 ^ 64 \<Longrightarrow> bi_slot i < 2 ^ 64 \<Longrightarrow> s \<noteq> bi_slot i \<Longrightarrow> getBlockHash z ops s st' = getBlockHash z ops s st"
proof -
  have "getBlockHash z ops (bi_slot i) st' = Inr (if bi_hash i \<in> set hashes then hashes else [bi_hash i]) \<and>
    (s < 2 ^ 64 \<longrightarrow> bi_slot i < 2 ^ 64 \<longrightarrow> s \<noteq> bi_slot i \<longrightarrow> getBlockHash z ops s st' = getBlockHash z ops s st)" for s
  proof (cases "bi_hash i \<in> set hashes")
    case True
    with assms(2,3) have "st' = st" by (auto simp: assignHashToSlot_def action_simps)
    with True assms(3) show ?thesis by simp
  next
    case False
    with assms(2,3) have "on_storage (sp_put ops SlotToHashes (slotToHashLookupKey (bi_slot i)) (hash_bytes (bi_hash i))) st = (Inr (), st')"
      by (auto simp: assignHashToSlot_def action_simps)
    note p = on_storage_put[OF assms(1) this]
    from slot_write[OF assms(1) p(1,2)] False assms(4) show ?thesis by (simp add: decode_def)
  qed
  then show "getBlockHash z ops (bi_slot i) st' = Inr (if bi_hash i \<in> set hashes then hashes else [bi_hash i])"
    "s < 2 ^ 64 \<Longrightarrow> bi_slot i < 2 ^ 64 \<Longrightarrow> s \<noteq> bi_slot i \<Longrightarrow> getBlockHash z ops s st' = getBlockHash z ops s st"
    by blast+
qed

lemma deassign_slot:
  assumes "bvalid st" "deassignHashToSlot z ops i st = (Inr (), st')"
    and "getBlockHash z ops (bi_slot i) st = Inr hashes"
    and "dec_hashes z (enc_hashes z (filter (\<lambda>h. h \<noteq> bi_hash i) hashes)) = Some (filter (\<lambda>h. h \<noteq> bi_hash i) hashes)"
  shows "getBlockHash z ops (bi_slot i) st' = Inr (filter (\<lambda>h. h \<noteq> bi_hash i) hashes)"
proof (cases "bi_hash i \<in> set hashes")
  case False
  with assms(2,3) have "st' = st" by (auto simp: deassignHashToSlot_def action_simps)
  with False assms(3) show ?thesis by (auto simp: filter_id_conv intro: filter_True[symmetric])
next
  case True
  let ?hs = "filter (\<lambda>h. h \<noteq> bi_hash i) hashes" and ?k = "slotToHashLookupKey (bi_slot i)"
  show ?thesis
  proof (cases "?hs = []")
    case None: True
    with assms(2,3) True have "on_storage (sp_remove ops SlotToHashes ?k) st = (Inr (), st')"
      by (auto simp: deassignHashToSlot_def action_simps Let_def)
    note p = on_storage_remove[OF assms(1) this]
    from slot_write(1)[OF assms(1) p(1,2)] None show ?thesis by simp
  next
    case Some: False
    with assms(2,3) True have "on_storage (sp_put ops SlotToHashes ?k (enc_hashes z ?hs)) st = (Inr (), st')"
      by (auto simp: deassignHashToSlot_def action_simps Let_def)
    note p = on_storage_put[OF assms(1) this]
    from slot_write(1)[OF assms(1) p(1,2)] assms(4) show ?thesis by (simp add: decode_def)
  qed
qed

text \<open>The cached leaves are the stored ones.\<close>

definition leaves_cached :: "ssz \<Rightarrow> 's BlockStorage \<Rightarrow> bool" where
  "leaves_cached z st \<longleftrightarrow>
     bvalid st \<and> (\<forall>ls. bst_block_tree_leaves st = Some ls \<longrightarrow>
       fst (getBlockTreeLeaves z ops (st\<lparr>bst_block_tree_leaves := None\<rparr>)) = Inr ls)"

lemma set_get_leaves:
  assumes "leaves_cached z st" "setBlockTreeLeaves z ops leaves st = (Inr (), st')"
    and "dec_hashes z (enc_hashes z (sort leaves)) = Some (sort leaves)"
  shows "fst (getBlockTreeLeaves z ops st') = Inr (sort leaves)" "leaves_cached z st'"
proof -
  have "bst_block_tree_leaves st' = Some (sort leaves) \<and> leaves_cached z st'"
  proof (cases "bst_block_tree_leaves st = Some (sort leaves)")
    case True
    with assms(1,2) show ?thesis by (simp add: setBlockTreeLeaves_def Let_def)
  next
    case False
    with assms(2) obtain st1 where
      st1: "on_storage (sp_put ops Default kBlockTreeLeavesLookupKey (enc_hashes z (sort leaves))) st = (Inr (), st1)"
        "st' = st1\<lparr>bst_block_tree_leaves := Some (sort leaves)\<rparr>"
      by (auto simp: setBlockTreeLeaves_def Let_def action_simps)
    have "bvalid st" using assms(1) by (simp add: leaves_cached_def)
    note p = on_storage_put[OF this st1(1)]
    have "sp_tryGet ops (bst_storage st1) Default kBlockTreeLeavesLookupKey = Inr (Some (enc_hashes z (sort leaves)))"
      using p(1,2) tryGet_total by (simp add: bvalid_def bview_def)
    with p(1) assms(3) show ?thesis
      by (simp add: st1(2) leaves_cached_def bvalid_def getBlockTreeLeaves_def TRY_def READ_def LIFT_def decode_def)
  qed
  then show "fst (getBlockTreeLeaves z ops st') = Inr (sort leaves)" "leaves_cached z st'"
    by (simp_all add: getBlockTreeLeaves_def)
qed

lemma assign_spaces:
  assumes "bvalid st" "assignHashToSlot z ops i st = (Inr (), st')" "space \<noteq> SlotToHashes"
  shows "bvalid st'" "bview st' space = bview st space" "bst_block_tree_leaves st' = bst_block_tree_leaves st"
proof -
  from assms(2) consider "st' = st"
    | "on_storage (sp_put ops SlotToHashes (slotToHashLookupKey (bi_slot i)) (hash_bytes (bi_hash i))) st = (Inr (), st')"
    by (auto simp: assignHashToSlot_def TRY_eq_Inr READ_eq OK_def split: if_splits)
  then have "bvalid st' \<and> bview st' space = bview st space \<and> bst_block_tree_leaves st' = bst_block_tree_leaves st"
    by cases (use assms(1,3) on_storage_put[OF assms(1)] in auto)
  then show "bvalid st'" "bview st' space = bview st space" "bst_block_tree_leaves st' = bst_block_tree_leaves st"
    by simp_all
qed

lemma init_anchor_views:
  assumes st: "bvalid st" "bst_block_tree_leaves st = None"
    and run: "init_anchor z ops anchor state st = (Inr (), st')"
    and new: "hasBlockHeader ops (hash_header z anchor) st = Inr False"
  shows "bvalid st'" "bview st' Header (hash_bytes (hash_header z anchor)) = Some (enc_header z anchor)"
    and "bview st' StateSpace (hash_bytes (hash_header z anchor)) = Some (enc_state z state)"
    and "bview st' Default kBlockTreeLeavesLookupKey = Some (enc_hashes z [hash_header z anchor])"
proof -
  let ?h = "hash_header z anchor"
  let ?d = "\<lparr>data_hash = ?h, data_header = Some anchor, data_body = None, data_signature = None\<rparr>"
  from run new obtain h st1 st2 st3 where
    put: "putBlock z ops ?d st = (Inr h, st1)"
    and assign: "assignHashToSlot z ops (BlockHeader_index z anchor) st1 = (Inr (), st2)"
    and leaves: "setBlockTreeLeaves z ops [?h] st2 = (Inr (), st3)"
    and state: "on_storage (sp_put ops StateSpace (hash_bytes ?h) (enc_state z state)) st3 = (Inr (), st')"
    by (auto simp: init_anchor_def Let_def TRY_eq_Inr RAISE_eq_Inr READ_eq FAIL_def putState_def putToSpace_def
        split: if_splits)
  from put have "on_storage (sp_put ops Header (hash_bytes ?h) (enc_header z anchor)) st = (Inr (), st1)"
    by (auto simp: putBlock_def putBlock_parts_def putBlockHeader_def putToSpace_def CATCH_eq_Inr TRY_eq_Inr
        FAIL_def OK_def)
  note v1 = on_storage_put[OF st(1) this]
  note v2 = assign_spaces[OF v1(1) assign]
  have none: "bst_block_tree_leaves st2 = None" using v2(3)[of Header] v1(3) st(2) by simp
  from leaves none obtain st3' where
    st3: "on_storage (sp_put ops Default kBlockTreeLeavesLookupKey (enc_hashes z [?h])) st2 = (Inr (), st3')"
      "st3 = st3'\<lparr>bst_block_tree_leaves := Some [?h]\<rparr>"
    by (auto simp: setBlockTreeLeaves_def Let_def TRY_eq_Inr)
  note v3 = on_storage_put[OF v2(1)[of Header] st3(1)]
  have "bvalid st3" using v3(1) st3(2) by (simp add: bvalid_def)
  note v4 = on_storage_put[OF this state]
  have "bview st3 = bview st3'" by (simp add: st3(2) bview_def)
  then show "bvalid st'" "bview st' Header (hash_bytes ?h) = Some (enc_header z anchor)"
    "bview st' StateSpace (hash_bytes ?h) = Some (enc_state z state)"
    "bview st' Default kBlockTreeLeavesLookupKey = Some (enc_hashes z [?h])"
    using v4(1,2) v3(2) v2(2)[of Header] v1(2) by simp_all
qed

lemma initializer_stores_anchor:
  assumes s: "valid s" and run: "BlockStorageInitializer z ops anchor state s = (Inr (), s')"
    and new: "sp_contains ops s Header (hash_bytes (hash_header z anchor)) = Inr False"
    and dec: "dec_header z (enc_header z anchor) = Some anchor" "dec_state z (enc_state z state) = Some state"
      "dec_hashes z (enc_hashes z [hash_header z anchor]) = Some [hash_header z anchor]"
  shows "getBlockHeader z ops (hash_header z anchor) \<lparr>bst_storage = s', bst_block_tree_leaves = None\<rparr> = Inr anchor"
    "getState z ops (hash_header z anchor) \<lparr>bst_storage = s', bst_block_tree_leaves = None\<rparr> = Inr (Some state)"
    "fst (getBlockTreeLeaves z ops \<lparr>bst_storage = s', bst_block_tree_leaves = None\<rparr>) = Inr [hash_header z anchor]"
proof -
  let ?b = "\<lambda>s. \<lparr>bst_storage = s, bst_block_tree_leaves = None\<rparr>"
  from run obtain st' where st': "init_anchor z ops anchor state (?b s) = (Inr (), st')" "s' = bst_storage st'"
    by (auto simp: BlockStorageInitializer_def split: prod.splits)
  have "bvalid (?b s)" "bst_block_tree_leaves (?b s) = None" using s by (simp_all add: bvalid_def)
  note v = init_anchor_views[OF this st'(1)]
  have new': "hasBlockHeader ops (hash_header z anchor) (?b s) = Inr False"
    using new by (simp add: hasBlockHeader_def hasInSpace_def)
  have bv: "bvalid (?b s')" "bview (?b s') = bview st'" using v(1)[OF new'] by (simp_all add: st'(2) bvalid_def bview_def)
  have read: "getFromSpace ops s' space h = Inr (bview st' space (hash_bytes h))" for space h
    using getFromSpace_view[OF bv(1)] bv(2) by simp
  show "getBlockHeader z ops (hash_header z anchor) (?b s') = Inr anchor"
    "getState z ops (hash_header z anchor) (?b s') = Inr (Some state)"
    using v(2,3)[OF new'] dec read by (simp_all add: getBlockHeader_def fetchBlockHeader_def getState_def decode_def)
  have "sp_tryGet ops s' Default kBlockTreeLeavesLookupKey = Inr (Some (enc_hashes z [hash_header z anchor]))"
    using v(4)[OF new'] v(1)[OF new'] tryGet_total by (simp add: st'(2) bvalid_def bview_def)
  with dec(3) show "fst (getBlockTreeLeaves z ops (?b s')) = Inr [hash_header z anchor]"
    by (simp add: getBlockTreeLeaves_def TRY_def READ_def LIFT_def decode_def)
qed

end

subsection \<open>Properties of the block storage\<close>

text \<open>
  A small codec for the examples: it knows one block, one state and the lists of up to two
  hashes below 256.
\<close>

definition demo_signed_block :: SignedBlock where
  "demo_signed_block =
     \<lparr>sb_block = \<lparr>blk_slot = 3, blk_proposer_index = 1, blk_parent_root = 7, blk_state_root = 8,
                   blk_body = \<lparr>bd_attestations = []\<rparr>\<rparr>,
      sb_signature = \<lparr>bs_attestation_signatures = [], bs_proposer_signature = [1, 2]\<rparr>\<rparr>"

definition demo_state :: State where
  "demo_state =
     \<lparr>st_config = \<lparr>cfg_genesis_time = 0\<rparr>, st_slot = 3,
      st_latest_block_header = \<lparr>hdr_slot = 3, hdr_proposer_index = 1, hdr_parent_root = 7,
                                hdr_state_root = 8, hdr_body_root = 9\<rparr>,
      st_latest_justified = \<lparr>cp_root = 0, cp_slot = 0\<rparr>, st_latest_finalized = \<lparr>cp_root = 0, cp_slot = 0\<rparr>,
      st_historical_block_hashes = [], st_justified_slots = [], st_validators = [],
      st_justifications_roots = [], st_justifications_validators = []\<rparr>"

definition demo_codec :: ssz where
  "demo_codec =
     \<lparr>hash_header = (\<lambda>h. 10 + hdr_slot h), hash_body = (\<lambda>_. 9), hash_state = (\<lambda>_. 8), hash_attdata = (\<lambda>_. 6),
      enc_header = (\<lambda>h. [of_nat (hdr_slot h)]),
      dec_header = (\<lambda>b. if b = [3] then Some \<lparr>hdr_slot = 3, hdr_proposer_index = 1, hdr_parent_root = 7,
                                                hdr_state_root = 8, hdr_body_root = 9\<rparr> else None),
      enc_body = (\<lambda>_. [5]), dec_body = (\<lambda>b. if b = [5] then Some \<lparr>bd_attestations = []\<rparr> else None),
      enc_signatures = (\<lambda>_. [6]),
      dec_signatures = (\<lambda>b. if b = [6] then Some (sb_signature demo_signed_block) else None),
      enc_state = (\<lambda>_. [7]), dec_state = (\<lambda>b. if b = [7] then Some demo_state else None),
      enc_hashes = concat \<circ> map hash_bytes,
      dec_hashes = (\<lambda>b. if length b = 32 then Some [unat (last b)]
                        else if length b = 64 then Some [unat (b ! 31), unat (b ! 63)]
                        else if b = [] then Some [] else None)\<rparr>"

abbreviation fresh_storage :: "InMemorySpacedStorage BlockStorage" where
  "fresh_storage \<equiv> \<lparr>bst_storage = [], bst_block_tree_leaves = None\<rparr>"

lemmas demo_run =
  putBlock_def putBlock_parts_def putBlockHeader_def putToSpace_def BlockData_of_def
  CATCH_def TRY_def OK_def FAIL_def READ_def LIFT_def RAISE_def on_storage_def in_memory_def in_space_def ims_put_def
  ims_remove_def ims_tryGet_def ims_contains_def getSpace_def ims_empty_def

lemma demo_hash: "hash_header demo_codec (getHeader demo_codec (sb_block demo_signed_block)) = 13"
  by (simp add: demo_codec_def getHeader_def demo_signed_block_def)

lemma demo_decodes: "ssz_decodes demo_codec demo_signed_block"
  by (simp add: ssz_decodes_def demo_codec_def demo_signed_block_def getHeader_def)

lemma demo_putBlock:
  "\<exists>st'. putBlock demo_codec in_memory (BlockData_of demo_codec demo_signed_block) fresh_storage = (Inr 13, st')"
  by (simp add: demo_run demo_hash)

text \<open>
  C37. A signed block that \<^verbatim>\<open>putBlock\<close> stored is what
  \<^verbatim>\<open>getSignedBlock\<close> returns for its hash, provided the SSZ library decodes
  what it encoded.
\<close>

theorem putBlock_roundtrip:
  assumes "putBlock z in_memory (BlockData_of z sb) st = (Inr h, st')" "ssz_decodes z sb"
  shows "h = Block_hash z (sb_block sb) \<and> getSignedBlock z in_memory h st' = Inr sb"
  using mem.putBlock_success(1)[OF _ assms(1)] mem.putBlock_getSignedBlock[OF _ assms]
  by (simp add: mem.bvalid_def)

theorem putBlock_roundtrip_witness:
  "\<exists>st'. getSignedBlock demo_codec in_memory 13 st' = Inr demo_signed_block"
proof -
  obtain st' where "putBlock demo_codec in_memory (BlockData_of demo_codec demo_signed_block) fresh_storage = (Inr 13, st')"
    using demo_putBlock by blast
  from putBlock_roundtrip[OF this demo_decodes] show ?thesis by blast
qed

text \<open>
  Storing a block, whether it succeeds, fails and is undone, or is interrupted by an
  exception, leaves every other block as it was: header, body, state and signed block read
  the same.
\<close>

theorem putBlock_keeps_other_blocks:
  assumes "putBlock z in_memory block st = (r, st')" "data_header block = Some header"
    and "hash_header z header < 2 ^ 256" "h < 2 ^ 256" "h \<noteq> hash_header z header"
  shows "getBlockHeader z in_memory h st' = getBlockHeader z in_memory h st \<and>
    getBlockBody z in_memory h st' = getBlockBody z in_memory h st \<and>
    getState z in_memory h st' = getState z in_memory h st \<and>
    getSignedBlock z in_memory h st' = getSignedBlock z in_memory h st"
  using mem.putBlock_reads[OF _ assms] by (simp add: mem.bvalid_def)

theorem putBlock_keeps_other_blocks_witness:
  "\<exists>st'. putBlock demo_codec in_memory (BlockData_of demo_codec demo_signed_block) fresh_storage = (Inr 13, st') \<and>
     getBlockHeader demo_codec in_memory 14 st' = getBlockHeader demo_codec in_memory 14 fresh_storage"
proof -
  obtain st' where p: "putBlock demo_codec in_memory (BlockData_of demo_codec demo_signed_block) fresh_storage = (Inr 13, st')"
    using demo_putBlock by blast
  have "data_header (BlockData_of demo_codec demo_signed_block) = Some (getHeader demo_codec (sb_block demo_signed_block))"
    by (simp add: BlockData_of_def)
  from putBlock_keeps_other_blocks[OF p this, of 14] demo_hash p show ?thesis by simp
qed

text \<open>
  A successful \<^verbatim>\<open>removeBlock\<close> leaves no header of the block, and when
  there was one also no body and no state.
\<close>

theorem removeBlock_removes:
  assumes "removeBlock z in_memory h st = (Inr (), st')"
  shows "getBlockHeader z in_memory h st' = Inl (E_BS BS_HEADER_NOT_FOUND) \<and>
    (getBlockHeader z in_memory h st \<noteq> Inl (E_BS BS_HEADER_NOT_FOUND) \<longrightarrow>
       getBlockBody z in_memory h st' = Inr None \<and> getState z in_memory h st' = Inr None)"
  using mem.removeBlock_gone[OF _ assms] by (simp add: mem.bvalid_def)

theorem removeBlock_removes_witness:
  "\<exists>st'. removeBlock demo_codec in_memory 13
      \<lparr>bst_storage = [(Header, \<lparr>ims_storage = [(hash_bytes 13, [3])], ims_size = 1\<rparr>)], bst_block_tree_leaves = None\<rparr>
    = (Inr (), st') \<and> getBlockHeader demo_codec in_memory 13 st' = Inl (E_BS BS_HEADER_NOT_FOUND)"
proof -
  let ?st = "\<lparr>bst_storage = [(Header, \<lparr>ims_storage = [(hash_bytes 13, [3])], ims_size = 1\<rparr>)], bst_block_tree_leaves = None\<rparr>"
  have "\<exists>st'. removeBlock demo_codec in_memory 13 ?st = (Inr (), st')"
    by (simp add: removeBlock_def removeBlock_entries_def removeBlockBody_def fetchBlockHeader_def getFromSpace_def
        BlockHeader_index_def decode_def demo_codec_def demo_run Let_def)
  then obtain st' where st': "removeBlock demo_codec in_memory 13 ?st = (Inr (), st')" by blast
  from removeBlock_removes[OF st'] st' show ?thesis by blast
qed

text \<open>
  What the slot index holds after \<^verbatim>\<open>assignHashToSlot\<close>: a hash that was
  already listed changes nothing, but a new hash \<^emph>\<open>replaces\<close> the list, so the other hashes of
  the slot are forgotten.  Other slots are untouched.
\<close>

theorem assignHashToSlot_forgets:
  assumes "assignHashToSlot z in_memory i st = (Inr (), st')"
    and "getBlockHash z in_memory (bi_slot i) st = Inr hashes"
    and "dec_hashes z (hash_bytes (bi_hash i)) = Some [bi_hash i]"
    and "s < 2 ^ 64" "bi_slot i < 2 ^ 64"
  shows "getBlockHash z in_memory s st' =
    (if s \<noteq> bi_slot i then getBlockHash z in_memory s st
     else Inr (if bi_hash i \<in> set hashes then hashes else [bi_hash i]))"
  using mem.assign_slot[OF _ assms(1-3)] assms(4,5) by (simp add: mem.bvalid_def)

lemma demo_dec_hashes: "dec_hashes demo_codec (hash_bytes 2) = Some [2]"
  by (simp add: demo_codec_def hash_bytes_def upt_rec)

theorem assignHashToSlot_forgets_witness:
  "\<exists>st'. getBlockHash demo_codec in_memory 5 st' = Inr [2]"
proof -
  let ?st = "\<lparr>bst_storage = [(SlotToHashes, \<lparr>ims_storage = [(slotToHashLookupKey 5, hash_bytes 1)], ims_size = 32\<rparr>)],
    bst_block_tree_leaves = None\<rparr>"
  let ?i = "\<lparr>bi_slot = 5, bi_hash = 2\<rparr>"
  have len: "length (hash_bytes 1) = 32" "last (hash_bytes 1) = 1" by (simp_all add: hash_bytes_def upt_rec)
  then have old: "getBlockHash demo_codec in_memory (bi_slot ?i) ?st = Inr [1]"
    by (simp add: getBlockHash_def in_memory_def ims_tryGet_def getSpace_def decode_def demo_codec_def)
  have "\<exists>st'. assignHashToSlot demo_codec in_memory ?i ?st = (Inr (), st')"
    using old len by (simp add: assignHashToSlot_def demo_run)
  then obtain st' where st': "assignHashToSlot demo_codec in_memory ?i ?st = (Inr (), st')" by blast
  have "dec_hashes demo_codec (hash_bytes (bi_hash ?i)) = Some [bi_hash ?i]" using demo_dec_hashes by simp
  from assignHashToSlot_forgets[OF st' old this, of 5] show ?thesis by auto
qed

text \<open>
  After \<^verbatim>\<open>setBlockTreeLeaves\<close> the leaves read back are the given ones in
  ascending order, from the cache and from a block storage reopened on the same data alike.
\<close>

theorem leaves_roundtrip:
  assumes "setBlockTreeLeaves z in_memory leaves \<lparr>bst_storage = s, bst_block_tree_leaves = None\<rparr> = (Inr (), st')"
    and "dec_hashes z (enc_hashes z (sort leaves)) = Some (sort leaves)"
  shows "fst (getBlockTreeLeaves z in_memory st') = Inr (sort leaves) \<and>
    fst (getBlockTreeLeaves z in_memory (st'\<lparr>bst_block_tree_leaves := None\<rparr>)) = Inr (sort leaves)"
proof -
  have "mem.leaves_cached z \<lparr>bst_storage = s, bst_block_tree_leaves = None\<rparr>"
    by (simp add: mem.leaves_cached_def mem.bvalid_def)
  note p = mem.set_get_leaves[OF this assms]
  have "bst_block_tree_leaves st' = Some (sort leaves)"
    using assms(1) by (auto simp: setBlockTreeLeaves_def Let_def TRY_eq_Inr)
  with p show ?thesis by (simp add: mem.leaves_cached_def)
qed

theorem leaves_roundtrip_witness:
  "\<exists>st'. fst (getBlockTreeLeaves demo_codec in_memory st') = Inr [1, 2]"
proof -
  have "\<exists>st'. setBlockTreeLeaves demo_codec in_memory [2, 1] fresh_storage = (Inr (), st')"
    by (simp add: setBlockTreeLeaves_def Let_def demo_run)
  then obtain st' where st': "setBlockTreeLeaves demo_codec in_memory [2, 1] fresh_storage = (Inr (), st')" by blast
  have "dec_hashes demo_codec (enc_hashes demo_codec (sort [2, 1])) = Some (sort [2, 1])"
    by (simp add: demo_codec_def hash_bytes_def upt_rec)
  from leaves_roundtrip[OF st' this] show ?thesis by auto
qed

text \<open>
  Initialising a storage that does not hold the anchor block stores it: its header, its
  state and the anchor as the only leaf read back from a reopened block storage.
\<close>

theorem anchor_initialised:
  assumes "BlockStorageInitializer z in_memory anchor state s = (Inr (), s')"
    and "sp_contains in_memory s Header (hash_bytes (hash_header z anchor)) = Inr False"
    and "dec_header z (enc_header z anchor) = Some anchor" "dec_state z (enc_state z state) = Some state"
      "dec_hashes z (enc_hashes z [hash_header z anchor]) = Some [hash_header z anchor]"
  shows "let st = \<lparr>bst_storage = s', bst_block_tree_leaves = None\<rparr>; h = hash_header z anchor in
    getBlockHeader z in_memory h st = Inr anchor \<and> getState z in_memory h st = Inr (Some state) \<and>
    fst (getBlockTreeLeaves z in_memory st) = Inr [h]"
  using mem.initializer_stores_anchor[OF _ assms] by (simp add: Let_def)

theorem anchor_initialised_witness:
  "\<exists>s'. BlockStorageInitializer demo_codec in_memory (st_latest_block_header demo_state) demo_state [] = (Inr (), s') \<and>
    getBlockHeader demo_codec in_memory 13 \<lparr>bst_storage = s', bst_block_tree_leaves = None\<rparr>
      = Inr (st_latest_block_header demo_state)"
proof -
  let ?a = "st_latest_block_header demo_state"
  have h: "hash_header demo_codec ?a = 13" by (simp add: demo_codec_def demo_state_def)
  have "\<exists>s'. BlockStorageInitializer demo_codec in_memory ?a demo_state [] = (Inr (), s')"
    by (simp add: BlockStorageInitializer_def init_anchor_def Let_def h hasBlockHeader_def hasInSpace_def demo_run
        assignHashToSlot_def getBlockHash_def setBlockTreeLeaves_def putState_def)
  then obtain s' where s': "BlockStorageInitializer demo_codec in_memory ?a demo_state [] = (Inr (), s')" by blast
  have c: "sp_contains in_memory [] Header (hash_bytes (hash_header demo_codec ?a)) = Inr False"
    by (simp add: in_memory_def ims_contains_def getSpace_def ims_empty_def)
  have d: "dec_header demo_codec (enc_header demo_codec ?a) = Some ?a"
    "dec_state demo_codec (enc_state demo_codec demo_state) = Some demo_state"
    "dec_hashes demo_codec (enc_hashes demo_codec [hash_header demo_codec ?a]) = Some [hash_header demo_codec ?a]"
    unfolding h by (simp_all add: demo_codec_def demo_state_def hash_bytes_def upt_rec)
  from anchor_initialised[OF s' c d] s' show ?thesis by (simp add: h Let_def)
qed

text \<open>
  \<^verbatim>\<open>seekLastSlot\<close> finds the last key in byte order.  Slot keys are
  little-endian, so with blocks at slots 1 and 256 it stands on slot 1.
\<close>

theorem seekLastSlot_not_latest:
  "OUTCOME_TRY (seekLastSlot in_memory
      \<lparr>bst_storage = [(SlotToHashes, \<lparr>ims_storage = omap_put (slotToHashLookupKey 256) (hash_bytes 4)
          (omap_put (slotToHashLookupKey 1) (hash_bytes 3) []), ims_size = 64\<rparr>)], bst_block_tree_leaves = None\<rparr>)
     SlotIterator_slot = Inr 1"
proof -
  have k: "slotToHashLookupKey 1 = [1, 0, 0, 0, 0, 0, 0, 0]" "slotToHashLookupKey 256 = [0, 1, 0, 0, 0, 0, 0, 0]"
    by (simp_all add: slotToHashLookupKey_def upt_rec)
  have m: "omap_put (slotToHashLookupKey 256) (hash_bytes 4) (omap_put (slotToHashLookupKey 1) (hash_bytes 3) []) =
      [(slotToHashLookupKey 256, hash_bytes 4), (slotToHashLookupKey 1, hash_bytes 3)]"
    unfolding k by simp
  have last: "seekLastSlot in_memory
      \<lparr>bst_storage = [(SlotToHashes, \<lparr>ims_storage = [(slotToHashLookupKey 256, hash_bytes 4),
         (slotToHashLookupKey 1, hash_bytes 3)], ims_size = 64\<rparr>)], bst_block_tree_leaves = None\<rparr>
      = Inr (Some (slotToHashLookupKey 1, hash_bytes 3))"
    by (simp add: seekLastSlot_def in_memory_def cursor_seekLast_def getSpace_def)
  have "{..<8} = {0, 1, 2, 3, 4, 5, 6, 7 :: nat}" by auto
  then have "SlotIterator_slot (Some (slotToHashLookupKey 1, hash_bytes 3)) = Inr 1"
    unfolding k by (simp add: SlotIterator_slot_def)
  then show ?thesis unfolding m last by simp
qed

end
