(* ===== verification/BlockTree.thy ===== *)
theory BlockTree
  imports BlockStorage CachedTree StateTransition
begin

text \<open>
  The block tree of \<^verbatim>\<open>block_tree_impl.cpp\<close>: the cached tree of unfinalized
  blocks kept in step with the block storage.  An operation is an action on the record
  \<open>BlockTree\<close>; the messages given to \<^verbatim>\<open>se_manager_\<close> are collected in its
  event list.  The lock of \<^verbatim>\<open>SafeBlockTreeData\<close> makes every operation
  exclusive, so the operations are sequential here.

  The loops that follow parent hashes through the storage have no bound in the code; they
  take fuel, and running out of it is the error \<open>Diverges\<close>.
\<close>

subsection \<open>State\<close>

datatype TreeEvent =
    HeaderAdded BlockHeader
  | NewLeaf BlockHeader bool
  | Finalized BlockIndex "BlockIndex list"

record 's BlockTree =
  bt_storage :: "'s BlockStorage"
  bt_tree :: CachedTree
  bt_genesis_block_hash :: "hash option"
  bt_events :: "TreeEvent list"

definition bt_store :: "('s BlockStorage, 'a) action \<Rightarrow> ('s BlockTree, 'a) action" where
  "bt_store m t = (case m (bt_storage t) of (r, st) \<Rightarrow> (r, t\<lparr>bt_storage := st\<rparr>))"

definition bt_read :: "('s BlockStorage \<Rightarrow> 'a result) \<Rightarrow> ('s BlockTree, 'a) action" where
  "bt_read f = READ (\<lambda>t. f (bt_storage t))"

definition bt_cached :: "(CachedTree \<Rightarrow> ('a \<times> CachedTree) result) \<Rightarrow> ('s BlockTree, 'a) action" where
  "bt_cached f t =
     (case f (bt_tree t) of Inl e \<Rightarrow> (Inl e, t) | Inr (x, ct) \<Rightarrow> (Inr x, t\<lparr>bt_tree := ct\<rparr>))"

definition bt_notify :: "TreeEvent \<Rightarrow> ('s BlockTree, unit) action" where
  "bt_notify e t = (Inr (), t\<lparr>bt_events := bt_events t @ [e]\<rparr>)"

subsection \<open>Storage after a change of the tree\<close>

definition reorgAndPrune ::
  "ssz \<Rightarrow> 's SpacedStorage \<Rightarrow> ReorgAndPrune \<Rightarrow> ('s BlockTree, unit) action" where
  "reorgAndPrune z db changes =
     TRY (\<lambda>t. bt_store (setBlockTreeLeaves z db (leafHashes (bt_tree t))) t) (\<lambda>_.
     TRY (case rp_reorg changes of
            None \<Rightarrow> OK ()
          | Some ro \<Rightarrow>
              TRY (FOREACH (\<lambda>block. bt_store (deassignHashToSlot z db block)) (ro_revert ro)) (\<lambda>_.
              FOREACH (\<lambda>block. bt_store (assignHashToSlot z db block)) (ro_apply ro))) (\<lambda>_.
     FOREACH (\<lambda>i. bt_store (removeBlock z db (bi_hash i))) (rp_prune changes)))"

subsection \<open>Queries\<close>

definition getLastFinalizedNoLock :: "'s BlockTree \<Rightarrow> BlockIndex result" where
  "getLastFinalizedNoLock t = ct_finalized (bt_tree t)"

definition getLastJustifiedNoLock :: "'s BlockTree \<Rightarrow> BlockIndex" where
  "getLastJustifiedNoLock t = ct_justified (bt_tree t)"

definition bestBlockNoLock :: "'s BlockTree \<Rightarrow> BlockIndex result" where
  "bestBlockNoLock t = ct_best_index (bt_tree t)"

definition lastFinalized :: "'s BlockTree \<Rightarrow> BlockIndex result" where
  "lastFinalized t = getLastFinalizedNoLock t"

definition getLatestJustified :: "'s BlockTree \<Rightarrow> Checkpoint" where
  "getLatestJustified t =
     (let justified = getLastJustifiedNoLock t in
      \<lparr>cp_root = bi_hash justified, cp_slot = bi_slot justified\<rparr>)"

definition bestBlock :: "'s BlockTree \<Rightarrow> BlockIndex result" where
  "bestBlock t = bestBlockNoLock t"

definition getLeavesNoLock :: "'s BlockTree \<Rightarrow> hash list" where
  "getLeavesNoLock t = leafHashes (bt_tree t)"

definition getLeaves :: "'s BlockTree \<Rightarrow> hash list" where
  "getLeaves t = getLeavesNoLock t"

definition getGenesisBlockHash :: "ssz \<Rightarrow> 's SpacedStorage \<Rightarrow> ('s BlockTree, hash) action" where
  "getGenesisBlockHash z db t =
     (case bt_genesis_block_hash t of
        Some h \<Rightarrow> (Inr h, t)
      | None \<Rightarrow>
          (case getBlockHash z db 0 (bt_storage t) of
             Inr [h] \<Rightarrow> (Inr h, t\<lparr>bt_genesis_block_hash := Some h\<rparr>)
           | Inr _ \<Rightarrow> (Inl (Exn AssertionFailed), t)
           | Inl e \<Rightarrow> (Inl (if is_exn e then e else Exn AssertionFailed), t)))"

definition BlockTree_has :: "'s SpacedStorage \<Rightarrow> hash \<Rightarrow> 's BlockTree \<Rightarrow> bool result" where
  "BlockTree_has db h t =
     (if find_node (bt_tree t) h \<noteq> None then Inr True
      else case hasBlockHeader db h (bt_storage t) of
             Inr b \<Rightarrow> Inr b
           | Inl e \<Rightarrow> Inl (if is_exn e then e else Exn SystemError))"

definition getBlockHeaderNoLock ::
  "ssz \<Rightarrow> 's SpacedStorage \<Rightarrow> hash \<Rightarrow> 's BlockTree \<Rightarrow> BlockHeader result" where
  "getBlockHeaderNoLock z db h t = getBlockHeader z db h (bt_storage t)"

definition BlockTree_getBlockHeader ::
  "ssz \<Rightarrow> 's SpacedStorage \<Rightarrow> hash \<Rightarrow> 's BlockTree \<Rightarrow> BlockHeader result" where
  "BlockTree_getBlockHeader z db h t = getBlockHeaderNoLock z db h t"

definition BlockTree_tryGetBlockHeader ::
  "ssz \<Rightarrow> 's SpacedStorage \<Rightarrow> hash \<Rightarrow> 's BlockTree \<Rightarrow> BlockHeader option result" where
  "BlockTree_tryGetBlockHeader z db h t =
     (case getBlockHeader z db h (bt_storage t) of
        Inr header \<Rightarrow> Inr (Some header)
      | Inl header_error \<Rightarrow>
          if header_error = E_BT HEADER_NOT_FOUND then Inr None else Inl header_error)"

definition BlockTree_getBlockBody ::
  "ssz \<Rightarrow> 's SpacedStorage \<Rightarrow> hash \<Rightarrow> 's BlockTree \<Rightarrow> BlockBody result" where
  "BlockTree_getBlockBody z db h t =
     OUTCOME_TRY (getBlockBody z db h (bt_storage t)) (\<lambda>body.
       case body of Some b \<Rightarrow> Inr b | None \<Rightarrow> Inl (E_BT BODY_NOT_FOUND))"

definition tryGetSignedBlock ::
  "ssz \<Rightarrow> 's SpacedStorage \<Rightarrow> hash \<Rightarrow> 's BlockTree \<Rightarrow> SignedBlock option result" where
  "tryGetSignedBlock z db h t =
     (case getSignedBlock z db h (bt_storage t) of
        Inl e \<Rightarrow> if e = E_BT HEADER_NOT_FOUND then Inr None else Inl e
      | Inr sb \<Rightarrow> Inr (Some sb))"

definition getSlotByHash :: "ssz \<Rightarrow> 's SpacedStorage \<Rightarrow> hash \<Rightarrow> 's BlockTree \<Rightarrow> slot result" where
  "getSlotByHash z db h t =
     (case find_node (bt_tree t) h of
        Some node \<Rightarrow> Inr (bi_slot (tn_index node))
      | None \<Rightarrow> OUTCOME_TRY (BlockTree_getBlockHeader z db h t) (\<lambda>header. Inr (hdr_slot header)))"

definition isFinalized :: "ssz \<Rightarrow> 's SpacedStorage \<Rightarrow> BlockIndex \<Rightarrow> 's BlockTree \<Rightarrow> bool result" where
  "isFinalized z db block t =
     OUTCOME_TRY (getLastFinalizedNoLock t) (\<lambda>finalized.
       if bi_slot block > bi_slot finalized then Inr False
       else case getBlockHash z db (bi_slot block) (bt_storage t) of
              Inl e \<Rightarrow> if is_exn e then Inl e else Inr False
            | Inr hashes \<Rightarrow> Inr (hashes \<noteq> [] \<and> hd hashes = bi_hash block))"

definition getBestContaining ::
  "ssz \<Rightarrow> 's SpacedStorage \<Rightarrow> hash \<Rightarrow> 's BlockTree \<Rightarrow> BlockIndex result" where
  "getBestContaining z db target_hash t =
     OUTCOME_TRY (getLastFinalizedNoLock t) (\<lambda>finalized.
       if bi_hash finalized = target_hash then bestBlockNoLock t
       else case find_node (bt_tree t) target_hash of
              None \<Rightarrow>
                OUTCOME_TRY (getBlockHeader z db target_hash (bt_storage t)) (\<lambda>target_header.
                OUTCOME_TRY (getBlockHash z db (hdr_slot target_header) (bt_storage t)) (\<lambda>hashes.
                  if target_hash \<notin> set hashes then Inl (E_BT BLOCK_ON_DEAD_END)
                  else bestBlockNoLock t))
            | Some target_node \<Rightarrow> bestWith (bt_tree t) target_node)"

definition getChildren :: "ssz \<Rightarrow> 's SpacedStorage \<Rightarrow> hash \<Rightarrow> 's BlockTree \<Rightarrow> hash list result" where
  "getChildren z db block t =
     (case find_node (bt_tree t) block of
        Some node \<Rightarrow> Inr (tn_children node)
      | None \<Rightarrow>
          OUTCOME_TRY (getBlockHeader z db block (bt_storage t)) (\<lambda>header.
            getBlockHash z db (u64_add (hdr_slot header) 1) (bt_storage t)))"

subsection \<open>Descending chains\<close>

text \<open>
  The two loops of \<^verbatim>\<open>getDescendingChainToBlockNoLock\<close>; the number counts how many
  hashes may still be added.  The first walks the cached tree and also returns the hash the
  second continues with.
\<close>

fun chain_from_tree :: "nat \<Rightarrow> CachedTree \<Rightarrow> TreeNode \<Rightarrow> hash \<Rightarrow> hash list \<Rightarrow> (hash \<times> hash list) result" where
  "chain_from_tree 0 ct node h chain = Inr (h, chain)"
| "chain_from_tree (Suc n) ct node h chain =
     (case TreeNode_parent ct node of
        None \<Rightarrow> Inr (bi_hash (tn_index node), chain)
      | Some p \<Rightarrow> OUTCOME_TRY (deref ct p) (\<lambda>parent.
          chain_from_tree n ct parent h (chain @ [bi_hash (tn_index node)])))"

fun chain_from_storage ::
  "nat \<Rightarrow> ssz \<Rightarrow> 's SpacedStorage \<Rightarrow> 's BlockStorage \<Rightarrow> hash \<Rightarrow> hash list \<Rightarrow> hash list result" where
  "chain_from_storage 0 z db st h chain = Inr chain"
| "chain_from_storage (Suc n) z db st h chain =
     (case getBlockHeader z db h st of
        Inl e \<Rightarrow> if is_exn e \<or> chain = [] then Inl e else Inr chain
      | Inr header \<Rightarrow>
          if hdr_slot header = 0 then Inr (chain @ [h])
          else chain_from_storage n z db st (hdr_parent_root header) (chain @ [h]))"

definition getDescendingChainToBlockNoLock ::
  "ssz \<Rightarrow> 's SpacedStorage \<Rightarrow> hash \<Rightarrow> nat \<Rightarrow> 's BlockTree \<Rightarrow> hash list result" where
  "getDescendingChainToBlockNoLock z db to_block maximum t =
     OUTCOME_TRY (case find_node (bt_tree t) to_block of
                    None \<Rightarrow> Inr (to_block, [])
                  | Some node \<Rightarrow> chain_from_tree maximum (bt_tree t) node to_block []) (\<lambda>(h, chain).
       chain_from_storage (maximum - length chain) z db (bt_storage t) h chain)"

definition getDescendingChainToBlock ::
  "ssz \<Rightarrow> 's SpacedStorage \<Rightarrow> hash \<Rightarrow> nat \<Rightarrow> 's BlockTree \<Rightarrow> hash list result" where
  "getDescendingChainToBlock z db block maximum t = getDescendingChainToBlockNoLock z db block maximum t"

definition getBestChainFromBlock ::
  "ssz \<Rightarrow> 's SpacedStorage \<Rightarrow> hash \<Rightarrow> nat \<Rightarrow> 's BlockTree \<Rightarrow> hash list result" where
  "getBestChainFromBlock z db block maximum t =
     (case getBlockHeader z db block (bt_storage t) of
        Inl e \<Rightarrow> Inl (if is_exn e then e else E_BT HEADER_NOT_FOUND)
      | Inr header \<Rightarrow>
          let start_block_number = hdr_slot header in
          if maximum = 1 then Inr [block]
          else OUTCOME_TRY (bestBlockNoLock t) (\<lambda>best.
            let current_depth = bi_slot best in
            if start_block_number \<ge> current_depth then Inr [block]
            else
              let count = min (current_depth - start_block_number + 1) maximum;
                  finish_block_number = u64_sub (u64_add start_block_number count) 1
              in case getBlockHash z db finish_block_number (bt_storage t) of
                   Inl e \<Rightarrow> Inl (if is_exn e then e else E_BT HEADER_NOT_FOUND)
                 | Inr [] \<Rightarrow> Inl (Exn UndefinedBehaviour)
                 | Inr (finish_block_hash # _) \<Rightarrow>
                     OUTCOME_TRY (getDescendingChainToBlockNoLock z db finish_block_hash count t) (\<lambda>chain.
                       if chain = [] then Inl (Exn UndefinedBehaviour)
                       else if last chain \<noteq> block then Inr [block]
                       else Inr (rev chain))))"

subsection \<open>Adding blocks\<close>

definition addBlockHeader :: "ssz \<Rightarrow> 's SpacedStorage \<Rightarrow> BlockHeader \<Rightarrow> ('s BlockTree, unit) action" where
  "addBlockHeader z db header t =
     (case find_node (bt_tree t) (hdr_parent_root header) of
        None \<Rightarrow> (Inl (E_BT NO_PARENT), t)
      | Some parent \<Rightarrow>
          TRY (bt_store (putBlockHeader z db header)) (\<lambda>_.
          TRY (bt_cached (ct_add (TreeNode_child (BlockHeader_index z header) parent))) (\<lambda>reorg.
          TRY (reorgAndPrune z db \<lparr>rp_reorg = reorg, rp_prune = []\<rparr>) (\<lambda>_.
          bt_notify (HeaderAdded header)))) t)"

definition addBlock :: "ssz \<Rightarrow> 's SpacedStorage \<Rightarrow> SignedBlock \<Rightarrow> ('s BlockTree, unit) action" where
  "addBlock z db signed_block t =
     (let block = sb_block signed_block in
      case find_node (bt_tree t) (blk_parent_root block) of
        None \<Rightarrow> (Inl (E_BT NO_PARENT), t)
      | Some parent \<Rightarrow>
          let header = getHeader z block;
              block_data = \<lparr>data_hash = hash_header z header, data_header = Some header,
                            data_body = Some (blk_body block), data_signature = Some (sb_signature signed_block)\<rparr>
          in TRY (bt_store (putBlock z db block_data)) (\<lambda>block_hash.
             if block_hash \<noteq> hash_header z header then FAIL (Exn AssertionFailed)
             else
             TRY (bt_cached (ct_add (TreeNode_child (BlockHeader_index z header) parent))) (\<lambda>reorg.
             TRY (reorgAndPrune z db \<lparr>rp_reorg = reorg, rp_prune = []\<rparr>) (\<lambda>_.
             TRY (READ bestBlock) (\<lambda>best.
             bt_notify (NewLeaf header (BlockHeader_index z header = best)))))) t)"

definition addBlockBody :: "ssz \<Rightarrow> 's SpacedStorage \<Rightarrow> hash \<Rightarrow> BlockBody \<Rightarrow> ('s BlockTree, unit) action" where
  "addBlockBody z db block_hash body = bt_store (putBlockBody z db block_hash body)"

text \<open>
  The search for the missing part of a branch; the stack is a list with its top first.
\<close>

fun missed_branch ::
  "nat \<Rightarrow> ssz \<Rightarrow> 's SpacedStorage \<Rightarrow> slot \<Rightarrow> hash \<Rightarrow> (hash \<times> BlockHeader) list \<Rightarrow>
   's BlockTree \<Rightarrow> (hash \<times> BlockHeader) list result" where
  "missed_branch 0 z db finalized h to_add t = Inl (Exn Diverges)"
| "missed_branch (Suc fuel) z db finalized h to_add t =
     OUTCOME_TRY (getBlockHeader z db h (bt_storage t)) (\<lambda>header.
       if hdr_slot header \<le> finalized then Inl (E_BT BLOCK_ON_DEAD_END)
       else
         let parent_hash = hdr_parent_root header;
             to_add' = (h, header) # to_add
         in if find_node (bt_tree t) parent_hash \<noteq> None then Inr to_add'
            else missed_branch fuel z db finalized parent_hash to_add' t)"

text \<open>The last part of the function, with the parent in the tree.\<close>

definition add_existing_child ::
  "ssz \<Rightarrow> 's SpacedStorage \<Rightarrow> BlockHeader \<Rightarrow> TreeNode \<Rightarrow> ('s BlockTree, unit) action" where
  "add_existing_child z db block_header parent =
     TRY (bt_cached (ct_add (TreeNode_child (BlockHeader_index z block_header) parent))) (\<lambda>reorg.
     reorgAndPrune z db \<lparr>rp_reorg = reorg, rp_prune = []\<rparr>)"

fun addExistingBlockNoLock ::
  "nat \<Rightarrow> ssz \<Rightarrow> 's SpacedStorage \<Rightarrow> hash \<Rightarrow> BlockHeader \<Rightarrow> ('s BlockTree, unit) action" where
  "addExistingBlockNoLock 0 z db block_hash block_header t = (Inl (Exn Diverges), t)"
| "addExistingBlockNoLock (Suc fuel) z db block_hash block_header t =
     (if find_node (bt_tree t) block_hash \<noteq> None then (Inl (E_BT BLOCK_EXISTS), t)
      else case find_node (bt_tree t) (hdr_parent_root block_header) of
        Some parent \<Rightarrow> add_existing_child z db block_header parent t
      | None \<Rightarrow>
          TRY (READ getLastFinalizedNoLock) (\<lambda>finalized.
          TRY (READ (missed_branch fuel z db (bi_slot finalized) (hdr_parent_root block_header) [])) (\<lambda>to_add.
          TRY (FOREACH (\<lambda>(h, header). addExistingBlockNoLock fuel z db h header) to_add) (\<lambda>_ t.
          case find_node (bt_tree t) (hdr_parent_root block_header) of
            None \<Rightarrow> (Inl (Exn AssertionFailed), t)
          | Some parent \<Rightarrow> add_existing_child z db block_header parent t))) t)"

definition addExistingBlock ::
  "nat \<Rightarrow> ssz \<Rightarrow> 's SpacedStorage \<Rightarrow> hash \<Rightarrow> BlockHeader \<Rightarrow> ('s BlockTree, unit) action" where
  "addExistingBlock fuel z db block_hash block_header = addExistingBlockNoLock fuel z db block_hash block_header"

subsection \<open>Removing a leaf\<close>

definition BlockTree_removeLeaf :: "ssz \<Rightarrow> 's SpacedStorage \<Rightarrow> hash \<Rightarrow> ('s BlockTree, unit) action" where
  "BlockTree_removeLeaf z db block_hash =
     TRY (READ getLastFinalizedNoLock) (\<lambda>finalized.
     if block_hash = bi_hash finalized
     then TRY (READ (BlockTree_getBlockHeader z db block_hash)) (\<lambda>header.
          TRY (READ (getSlotByHash z db (hdr_parent_root header))) (\<lambda>slot.
          let parent = \<lparr>bi_slot = slot, bi_hash = hdr_parent_root header\<rparr>;
              changes = \<lparr>rp_reorg = Some \<lparr>ro_common = parent, ro_revert = [finalized], ro_apply = []\<rparr>,
                         rp_prune = [finalized]\<rparr>
          in (\<lambda>t. reorgAndPrune z db changes (t\<lparr>bt_tree := CachedTree_new parent\<rparr>))))
     else TRY (READ (\<lambda>t. Inr (isLeaf (bt_tree t) block_hash))) (\<lambda>leaf.
          if \<not> leaf then FAIL (E_BT BLOCK_IS_NOT_LEAF)
          else TRY (bt_cached (removeLeaf block_hash)) (\<lambda>changes. reorgAndPrune z db changes)))"

subsection \<open>Finalization and justification\<close>

text \<open>The indices of the ancestors of a node, nearest first.\<close>

fun ancestors_loop :: "nat \<Rightarrow> CachedTree \<Rightarrow> hash option \<Rightarrow> BlockIndex list result" where
  "ancestors_loop fuel ct None = Inr []"
| "ancestors_loop 0 ct (Some p) = Inl (Exn Diverges)"
| "ancestors_loop (Suc fuel) ct (Some p) =
     OUTCOME_TRY (deref ct p) (\<lambda>parent.
     OUTCOME_TRY (ancestors_loop fuel ct (TreeNode_parent ct parent)) (\<lambda>is. Inr (tn_index parent # is)))"

definition ancestors_of :: "CachedTree \<Rightarrow> TreeNode \<Rightarrow> BlockIndex list result" where
  "ancestors_of ct node = ancestors_loop (length (ct_nodes ct) + 1) ct (TreeNode_parent ct node)"

definition BlockTree_finalize :: "ssz \<Rightarrow> 's SpacedStorage \<Rightarrow> hash \<Rightarrow> ('s BlockTree, unit) action" where
  "BlockTree_finalize z db block_hash t =
     TRY (READ getLastFinalizedNoLock) (\<lambda>last_finalized.
     if block_hash = bi_hash last_finalized then OK ()
     else case find_node (bt_tree t) block_hash of
       Some node \<Rightarrow>
         TRY (bt_read (getBlockHeader z db block_hash)) (\<lambda>header.
         TRY (READ (\<lambda>t. ancestors_of (bt_tree t) node)) (\<lambda>retired_blocks.
         TRY (bt_cached (ct_finalize block_hash)) (\<lambda>changes.
         TRY (reorgAndPrune z db changes) (\<lambda>_.
         bt_notify (Finalized (BlockHeader_index z header) retired_blocks)))))
     | None \<Rightarrow>
         TRY (bt_read (getBlockHeader z db block_hash)) (\<lambda>header.
         if hdr_slot header \<ge> bi_slot last_finalized then FAIL (E_BT NON_FINALIZED_BLOCK_NOT_FOUND)
         else TRY (bt_read (getBlockHash z db (hdr_slot header))) (\<lambda>hashes.
              if block_hash \<notin> set hashes then FAIL (E_BT BLOCK_ON_DEAD_END) else OK ()))) t"

definition BlockTree_setJustified :: "ssz \<Rightarrow> 's SpacedStorage \<Rightarrow> hash \<Rightarrow> ('s BlockTree, unit) action" where
  "BlockTree_setJustified z db block_hash t =
     (let last_justified = getLastJustifiedNoLock t in
      if block_hash = bi_hash last_justified then (Inr (), t)
      else case find_node (bt_tree t) block_hash of
        Some node \<Rightarrow>
          TRY (bt_read (getBlockHeader z db block_hash)) (\<lambda>header.
          TRY (READ (\<lambda>t. ancestors_of (bt_tree t) node)) (\<lambda>parents t.
            if last_justified \<in> set parents then (Inr (), t\<lparr>bt_tree := setJustified node (bt_tree t)\<rparr>)
            else (Inr (), t))) t
      | None \<Rightarrow>
          TRY (bt_read (getBlockHeader z db block_hash)) (\<lambda>header.
          if hdr_slot header \<ge> bi_slot last_justified then FAIL (E_BT NON_JUSTIFIED_BLOCK_NOT_FOUND)
          else TRY (bt_read (getBlockHash z db (hdr_slot header))) (\<lambda>hashes.
               if block_hash \<notin> set hashes then FAIL (E_BT BLOCK_ON_DEAD_END) else OK ())) t)"

subsection \<open>Construction\<close>

text \<open>What the initializer hands over.\<close>

record Initializer =
  ini_last_finalized :: BlockIndex
  ini_last_justified :: BlockIndex
  ini_non_finalized :: "(BlockIndex \<times> BlockHeader) list"

definition BlockTreeImpl_new ::
  "nat \<Rightarrow> ssz \<Rightarrow> 's SpacedStorage \<Rightarrow> Initializer \<Rightarrow> 's BlockStorage \<Rightarrow> unit result \<times> 's BlockTree" where
  "BlockTreeImpl_new fuel z db initializer storage =
     TRY (FOREACH (\<lambda>(block, header). RAISE (addExistingBlock fuel z db (bi_hash block) header))
            (ini_non_finalized initializer)) (\<lambda>_.
     RAISE (BlockTree_setJustified z db (bi_hash (ini_last_justified initializer))))
       \<lparr>bt_storage = storage, bt_tree = CachedTree_new (ini_last_finalized initializer),
        bt_genesis_block_hash = None, bt_events = []\<rparr>"

end
