(* ===== verification/TreeInit.thy ===== *)
theory TreeInit
  imports BlockTree
begin

text \<open>
  The start of the block tree from the storage, \<^verbatim>\<open>block_tree_initializer.cpp\<close>:
  loading or repairing the leaves, finding the last finalized block, and collecting the
  blocks above it.  Every loop takes fuel; \<open>bisect_slot\<close> is shown to need at most 64
  rounds, and the walk along a dead fork is shown not to end.

  \<^verbatim>\<open>std::set<BlockIndex>\<close> and \<^verbatim>\<open>std::map<BlockIndex, BlockHeader>\<close>
  are lists ordered by \<open>BlockIndex_less\<close>; the unordered sets are lists without
  repetitions.
\<close>

subsection \<open>Leaves\<close>

fun index_emplace :: "BlockIndex \<Rightarrow> BlockIndex list \<Rightarrow> BlockIndex list" where
  "index_emplace i [] = [i]"
| "index_emplace i (j # js) =
     (if BlockIndex_less i j then i # j # js else if i = j then j # js else j # index_emplace i js)"

fun leaves_from_hashes ::
  "ssz \<Rightarrow> 's SpacedStorage \<Rightarrow> 's BlockStorage \<Rightarrow> hash list \<Rightarrow> BlockIndex list \<Rightarrow> BlockIndex list result" where
  "leaves_from_hashes z db st [] leaves = Inr leaves"
| "leaves_from_hashes z db st (h # hs) leaves =
     (case getBlockHeader z db h st of
        Inl e \<Rightarrow> if e = E_BT HEADER_NOT_FOUND then leaves_from_hashes z db st hs leaves else Inl e
      | Inr header \<Rightarrow>
          leaves_from_hashes z db st hs (index_emplace \<lparr>bi_slot = hdr_slot header, bi_hash = h\<rparr> leaves))"

text \<open>The loop that lists the slots found; an error code of the step back is ignored.\<close>

fun repair_scan :: "nat \<Rightarrow> 's SpacedStorage \<Rightarrow> 's BlockStorage \<Rightarrow> (bytes \<times> bytes) option \<Rightarrow> unit result" where
  "repair_scan fuel db st None = Inr ()"
| "repair_scan 0 db st (Some kv) = Inl (Exn Diverges)"
| "repair_scan (Suc fuel) db st (Some kv) =
     OUTCOME_TRY (SlotIterator_slot (Some kv)) (\<lambda>_.
       case sp_prev db (bst_storage st) SlotToHashes (Some kv) of
         Inr it \<Rightarrow> repair_scan fuel db st it
       | Inl e \<Rightarrow> if is_exn e then Inl e else repair_scan fuel db st (Some kv))"

fun bisect_slot :: "nat \<Rightarrow> (slot \<Rightarrow> hash list result) \<Rightarrow> slot \<Rightarrow> slot \<Rightarrow> slot result" where
  "bisect_slot 0 hashes_at lower upper = Inl (Exn Diverges)"
| "bisect_slot (Suc fuel) hashes_at lower upper =
     (let slot = u64_add (u64_add lower (u64_sub upper lower div 2)) 1 in
      case hashes_at slot of
        Inl e \<Rightarrow> Inl (if is_exn e then e else E_BT HEADER_NOT_FOUND)
      | Inr hashes \<Rightarrow>
          let lower' = (if hashes \<noteq> [] then slot else lower);
              upper' = (if hashes \<noteq> [] then upper else u64_sub slot 1)
          in if lower' = upper' then Inr lower' else bisect_slot fuel hashes_at lower' upper')"

definition loadLeaves :: "nat \<Rightarrow> ssz \<Rightarrow> 's SpacedStorage \<Rightarrow> ('s BlockStorage, BlockIndex list) action" where
  "loadLeaves fuel z db =
     TRY (\<lambda>st. case getBlockTreeLeaves z db st of
            (Inr hashes, st') \<Rightarrow> (leaves_from_hashes z db st' hashes [], st')
          | (Inl e, st') \<Rightarrow> (if e = E_BS BS_BLOCK_TREE_LEAVES_NOT_FOUND then Inr [] else Inl e, st')) (\<lambda>leaves.
     if leaves \<noteq> [] then OK leaves
     else
       TRY (READ (seekLastSlot db)) (\<lambda>it.
       if it = None then FAIL (E_BS BS_NO_BLOCKS_FOUND)
       else
         TRY (READ (\<lambda>st. repair_scan fuel db st it)) (\<lambda>_.
         TRY (READ (\<lambda>st. bisect_slot 64 (\<lambda>slot. getBlockHash z db slot st) 0 u64_max)) (\<lambda>slot.
         TRY (READ (getBlockHash z db slot)) (\<lambda>hashes.
         TRY (setBlockTreeLeaves z db hashes) (\<lambda>_.
         OK (fold (\<lambda>h. index_emplace \<lparr>bi_slot = slot, bi_hash = h\<rparr>) hashes [])))))))"

subsection \<open>The last finalized block\<close>

text \<open>
  \<open>warn\<close> tells whether the logger prints warnings: the warning about a missing state reads
  the error of a result that has none, which throws.
\<close>

fun find_finalized ::
  "nat \<Rightarrow> bool \<Rightarrow> ssz \<Rightarrow> 's SpacedStorage \<Rightarrow> hash \<Rightarrow> hash \<Rightarrow> 's BlockStorage \<Rightarrow> (BlockIndex \<times> BlockIndex) result" where
  "find_finalized 0 warn z db anchor h st = Inl (Exn Diverges)"
| "find_finalized (Suc fuel) warn z db anchor h st =
     (case getBlockHeader z db h st of
        Inl e \<Rightarrow> Inl (if is_exn e then e else Exn SystemError)
      | Inr header \<Rightarrow>
          let block_index = \<lparr>bi_slot = hdr_slot header, bi_hash = h\<rparr> in
          if hdr_slot header = 0 then Inr (block_index, block_index)
          else if hash_header z header = anchor then Inr (block_index, block_index)
          else case getState z db h st of
                 Inl e \<Rightarrow> Inl (if is_exn e then e else Exn SystemError)
               | Inr (Some state) \<Rightarrow>
                   Inr (\<lparr>bi_slot = cp_slot (st_latest_finalized state), bi_hash = cp_root (st_latest_finalized state)\<rparr>,
                        \<lparr>bi_slot = cp_slot (st_latest_justified state), bi_hash = cp_root (st_latest_justified state)\<rparr>)
               | Inr None \<Rightarrow>
                   if warn then Inl (Exn SystemError)
                   else find_finalized fuel warn z db anchor (hdr_parent_root header) st)"

subsection \<open>Blocks above the finalized one\<close>

record Collected =
  col_blocks :: "(BlockIndex \<times> BlockHeader) list"
  col_observed :: "hash list"
  col_dead :: "BlockIndex list"
  col_subchain :: "BlockIndex list"

fun blocks_emplace ::
  "BlockIndex \<Rightarrow> BlockHeader \<Rightarrow> (BlockIndex \<times> BlockHeader) list \<Rightarrow> (BlockIndex \<times> BlockHeader) list" where
  "blocks_emplace i h [] = [(i, h)]"
| "blocks_emplace i h ((j, g) # m) =
     (if BlockIndex_less i j then (i, h) # (j, g) # m
      else if i = j then (j, g) # m else (j, g) # blocks_emplace i h m)"

definition dead_insert :: "BlockIndex list \<Rightarrow> Collected \<Rightarrow> Collected" where
  "dead_insert is c = c\<lparr>col_dead := fold List.insert is (col_dead c)\<rparr>"

text \<open>The walk along a fork from the slot of the finalized block.\<close>

fun fork_walk ::
  "nat \<Rightarrow> ssz \<Rightarrow> 's SpacedStorage \<Rightarrow> 's BlockStorage \<Rightarrow> BlockIndex \<Rightarrow> BlockIndex \<Rightarrow> Collected \<Rightarrow> Collected result" where
  "fork_walk 0 z db st fork main c = Inl (Exn Diverges)"
| "fork_walk (Suc fuel) z db st fork main c =
     (let c1 = dead_insert [fork] c in
      case getBlockHeader z db (bi_hash fork) st of
        Inl e \<Rightarrow> if is_exn e then Inl e else Inr c1
      | Inr fork_header \<Rightarrow>
          (case getBlockHeader z db (bi_hash main) st of
             Inl e \<Rightarrow> if is_exn e then Inl e else Inr c1
           | Inr main_header \<Rightarrow>
               if hdr_slot fork_header \<noteq> hdr_slot main_header then Inl (Exn AssertionFailed)
               else if hdr_parent_root fork_header = hdr_parent_root main_header then Inr c1
               else fork_walk fuel z db st (BlockHeader_index z fork_header) (BlockHeader_index z main_header) c1))"

fun collect_chain ::
  "nat \<Rightarrow> ssz \<Rightarrow> 's SpacedStorage \<Rightarrow> 's BlockStorage \<Rightarrow> BlockIndex \<Rightarrow> hash \<Rightarrow> Collected \<Rightarrow> Collected result" where
  "collect_chain 0 z db st finalized h c = Inl (Exn Diverges)"
| "collect_chain (Suc fuel) z db st finalized h c =
     (if h = bi_hash finalized then Inr c
      else if h \<in> set (col_observed c) then Inr c
      else case getBlockHeader z db h st of
        Inl e \<Rightarrow> Inl (if is_exn e then e else Exn SystemError)
      | Inr header \<Rightarrow>
          let block = BlockHeader_index z header in
          if bi_hash block \<noteq> h then Inl (Exn AssertionFailed)
          else if block \<in> set (col_dead c) then Inr (dead_insert (col_subchain c) c)
          else if bi_slot block = bi_slot finalized
          then fork_walk fuel z db st block finalized (dead_insert (col_subchain c) c)
          else
            let c1 = c\<lparr>col_subchain := List.insert block (col_subchain c),
                       col_observed := List.insert h (col_observed c)\<rparr>
            in if hdr_slot header < bi_slot finalized then Inr c1
               else collect_chain fuel z db st finalized (hdr_parent_root header)
                      (c1\<lparr>col_blocks := blocks_emplace block header (col_blocks c1)\<rparr>))"

definition collect_leaves ::
  "nat \<Rightarrow> ssz \<Rightarrow> 's SpacedStorage \<Rightarrow> 's BlockStorage \<Rightarrow> BlockIndex \<Rightarrow> BlockIndex list \<Rightarrow> Collected result" where
  "collect_leaves fuel z db st finalized leaves =
     fold_result (\<lambda>leaf c. collect_chain fuel z db st finalized (bi_hash leaf) (c\<lparr>col_subchain := []\<rparr>))
       leaves \<lparr>col_blocks = [], col_observed = [], col_dead = [], col_subchain = []\<rparr>"

subsection \<open>The initializer\<close>

definition BlockTreeInitializer ::
  "nat \<Rightarrow> bool \<Rightarrow> ssz \<Rightarrow> 's SpacedStorage \<Rightarrow> BlockHeader \<Rightarrow> ('s BlockStorage, Initializer) action" where
  "BlockTreeInitializer fuel warn z db anchor_block =
     TRY (RAISE (loadLeaves fuel z db)) (\<lambda>leaves.
     if leaves = [] then FAIL (Exn SystemError)
     else
     TRY (READ (find_finalized fuel warn z db (hash_header z anchor_block) (bi_hash (last leaves)))) (\<lambda>(finalized, justified).
     TRY (RAISE (READ (getBlockHeader z db (bi_hash finalized)))) (\<lambda>_.
     TRY (RAISE (READ (getBlockHeader z db (bi_hash justified)))) (\<lambda>_.
     TRY (READ (\<lambda>st. collect_leaves fuel z db st finalized leaves)) (\<lambda>c.
     TRY (FOREACH (\<lambda>block. CATCH (removeBlock z db (bi_hash block)) (\<lambda>_. OK ())) (col_dead c)) (\<lambda>_.
     OK \<lparr>ini_last_finalized = finalized, ini_last_justified = justified,
         ini_non_finalized = filter (\<lambda>(i, _). i \<notin> set (col_dead c)) (col_blocks c)\<rparr>))))))"

subsection \<open>The search for the last slot\<close>

text \<open>
  Every round at least halves the interval, so \<open>n\<close> rounds are enough for an interval of
  width below \<open>2 ^ n\<close>.
\<close>

lemma bisect_step:
  assumes "lower < upper" "upper < 2 ^ 64"
  shows "u64_add (u64_add lower (u64_sub upper lower div 2)) 1 = lower + (upper - lower) div 2 + 1"
    "lower < lower + (upper - lower) div 2 + 1" "lower + (upper - lower) div 2 + 1 \<le> upper"
proof -
  show le: "lower + (upper - lower) div 2 + 1 \<le> upper" using assms(1) by linarith
  have "u64_sub upper lower = upper - lower" using assms by (simp add: u64_simps)
  moreover have "u64_add lower ((upper - lower) div 2) = lower + (upper - lower) div 2"
    using le assms(2) by (intro u64_add_small) linarith
  moreover have "u64_add (lower + (upper - lower) div 2) 1 = lower + (upper - lower) div 2 + 1"
    using le assms(2) by (intro u64_add_small) linarith
  ultimately show "u64_add (u64_add lower (u64_sub upper lower div 2)) 1 = lower + (upper - lower) div 2 + 1"
    by simp
qed simp

lemma bisect_slot_correct:
  assumes "lower < upper" "upper < 2 ^ 64" "upper - lower < 2 ^ n" "lower \<le> m" "m \<le> upper"
    and "\<And>s. lower < s \<Longrightarrow> s \<le> upper \<Longrightarrow> \<exists>hs. hashes_at s = Inr hs \<and> (hs \<noteq> [] \<longleftrightarrow> s \<le> m)"
  shows "bisect_slot n hashes_at lower upper = Inr m"
  using assms
proof (induction n arbitrary: lower upper)
  case (Suc n)
  let ?s = "lower + (upper - lower) div 2 + 1"
  note st = bisect_step[OF Suc.prems(1,2)]
  from Suc.prems(6)[OF st(2,3)] obtain hs where hs: "hashes_at ?s = Inr hs" "hs \<noteq> [] \<longleftrightarrow> ?s \<le> m" by blast
  have one: "u64_sub ?s 1 = ?s - 1" using st(3) Suc.prems(2) by (intro u64_sub_small) linarith+
  have half: "(upper - lower) div 2 < 2 ^ n" using Suc.prems(3) by (simp add: less_mult_imp_div_less)
  have half': "upper - ?s < 2 ^ n" using half Suc.prems(1) by linarith
  show ?case
  proof (cases "?s \<le> m")
    case True
    show ?thesis
    proof (cases "?s = upper")
      case eq: True
      with True Suc.prems(5) hs st(1) show ?thesis by (simp add: Let_def)
    next
      case False
      have "bisect_slot n hashes_at ?s upper = Inr m"
        using False st(3) half' Suc.prems True by (intro Suc.IH) auto
      with hs True st(1) False show ?thesis by (simp add: Let_def)
    qed
  next
    case False
    show ?thesis
    proof (cases "lower = ?s - 1")
      case eq: True
      then have "m = lower" using False Suc.prems(4) by linarith
      with eq hs False st(1) one show ?thesis by (simp add: Let_def)
    next
      case ne: False
      have "bisect_slot n hashes_at lower (?s - 1) = Inr m"
        using ne st(3) half Suc.prems False by (intro Suc.IH) auto
      with hs False st(1) one ne show ?thesis by (simp add: Let_def)
    qed
  qed
qed simp

lemma bisect_slot_ends:
  assumes "lower < upper" "upper < 2 ^ 64" "upper - lower < 2 ^ n" "upper \<le> last_slot"
    and "lower = 0 \<or> (\<exists>hs. hashes_at lower = Inr hs \<and> hs \<noteq> [])" "upper = last_slot \<or> hashes_at (upper + 1) = Inr []"
  shows "case bisect_slot n hashes_at lower upper of
      Inl err \<Rightarrow> \<exists>s e. hashes_at s = Inl e \<and> err = (if is_exn e then e else E_BT HEADER_NOT_FOUND)
    | Inr m \<Rightarrow> m \<le> last_slot \<and> (m = 0 \<or> (\<exists>hs. hashes_at m = Inr hs \<and> hs \<noteq> [])) \<and> (m = last_slot \<or> hashes_at (m + 1) = Inr [])"
  using assms
proof (induction n arbitrary: lower upper)
  case (Suc n)
  let ?s = "lower + (upper - lower) div 2 + 1"
  note st = bisect_step[OF Suc.prems(1,2)]
  have one: "u64_sub ?s 1 = ?s - 1" using st(3) Suc.prems(2) by (intro u64_sub_small) linarith+
  have half: "(upper - lower) div 2 < 2 ^ n" using Suc.prems(3) by (simp add: less_mult_imp_div_less)
  have half': "upper - ?s < 2 ^ n" using half Suc.prems(1) by linarith
  show ?case
  proof (cases "hashes_at ?s")
    case (Inl e)
    then have "bisect_slot (Suc n) hashes_at lower upper = Inl (if is_exn e then e else E_BT HEADER_NOT_FOUND)"
      using st(1) by (simp add: Let_def)
    with Inl show ?thesis by auto
  next
    case (Inr hs)
    show ?thesis
    proof (cases "hs = []")
      case True
      show ?thesis
      proof (cases "lower = ?s - 1")
        case eq: True
        have "bisect_slot (Suc n) hashes_at lower upper = Inr lower" using eq Inr True st(1) one by (simp add: Let_def)
        moreover have "hashes_at (lower + 1) = Inr []" using eq Inr True by simp
        ultimately show ?thesis using Suc.prems(1,4,5) by simp
      next
        case False
        have "bisect_slot (Suc n) hashes_at lower upper = bisect_slot n hashes_at lower (?s - 1)"
          using False Inr True st(1) one by (simp add: Let_def)
        moreover have "hashes_at (?s - 1 + 1) = Inr []" using Inr True by simp
        ultimately show ?thesis
          using Suc.IH[of lower "?s - 1"] False st(3) half Suc.prems(1,2,4,5) by simp
      qed
    next
      case False
      show ?thesis
      proof (cases "?s = upper")
        case True
        then have "bisect_slot (Suc n) hashes_at lower upper = Inr upper" using Inr False st(1) by (simp add: Let_def)
        then show ?thesis using True Inr False Suc.prems(4,6) by simp
      next
        case ne: False
        then have "bisect_slot (Suc n) hashes_at lower upper = bisect_slot n hashes_at ?s upper"
          using Inr False st(1) by (simp add: Let_def)
        then show ?thesis using Suc.IH[of ?s upper] ne st(3) half' Inr False Suc.prems(2,4,6) by simp
      qed
    qed
  qed
qed simp

lemma bisect_slot_numeral:
  "bisect_slot (numeral k) hashes_at lower upper =
     (let slot = u64_add (u64_add lower (u64_sub upper lower div 2)) 1 in
      case hashes_at slot of
        Inl e \<Rightarrow> Inl (if is_exn e then e else E_BT HEADER_NOT_FOUND)
      | Inr hashes \<Rightarrow>
          let lower' = (if hashes \<noteq> [] then slot else lower);
              upper' = (if hashes \<noteq> [] then upper else u64_sub slot 1)
          in if lower' = upper' then Inr lower' else bisect_slot (pred_numeral k) hashes_at lower' upper')"
  by (simp add: numeral_eq_Suc)

lemma bisect_slot_gap: "bisect_slot 64 (\<lambda>s. Inr (if s = 1 \<or> s = 3 then [s] else [])) 0 u64_max = Inr 1"
  by (simp add: bisect_slot_numeral u64_max_def u64_add_def u64_sub_def Let_def)

subsection \<open>The walk along a fork\<close>

lemma fork_walk_stuck:
  assumes "getBlockHeader z db (bi_hash fork) st = Inr fh" "getBlockHeader z db (bi_hash main) st = Inr mh"
    and "hdr_slot fh = hdr_slot mh" "hdr_parent_root fh \<noteq> hdr_parent_root mh"
    and "hash_header z fh = bi_hash fork" "hash_header z mh = bi_hash main"
  shows "fork_walk fuel z db st fork main c = Inl (Exn Diverges)"
  using assms
proof (induction fuel arbitrary: c fork main)
  case (Suc fuel)
  have "fork_walk fuel z db st (BlockHeader_index z fh) (BlockHeader_index z mh) c' = Inl (Exn Diverges)" for c'
    by (rule Suc.IH) (use Suc.prems in \<open>simp_all add: BlockHeader_index_def\<close>)
  then show ?case using Suc.prems by (simp add: Let_def)
qed simp

subsection \<open>Properties of the start\<close>

text \<open>
  C38. The bisection for the last slot with a block ends after at most 64 reads of the
  storage whatever the reads return: with an error that a read gave cause for, or with a slot
  that is zero or has blocks and after which the next slot, if any, has none.  When no read
  fails and exactly the slots up to \<open>m\<close> have blocks, it finds \<open>m\<close>.  With a gap between the
  slots, which the chain allows, it can end before the gap: of the slots 1 and 3 it finds 1.
\<close>

theorem bisect_slot_finds_last:
  "(case bisect_slot 64 hashes_at 0 u64_max of
      Inl err \<Rightarrow> \<exists>s e. hashes_at s = Inl e \<and> err = (if is_exn e then e else E_BT HEADER_NOT_FOUND)
    | Inr m \<Rightarrow> m \<le> u64_max \<and> (m = 0 \<or> (\<exists>hs. hashes_at m = Inr hs \<and> hs \<noteq> [])) \<and>
        (m = u64_max \<or> hashes_at (m + 1) = Inr [])) \<and>
   (\<forall>m \<le> u64_max. (\<forall>s. 0 < s \<and> s \<le> u64_max \<longrightarrow> (\<exists>hs. hashes_at s = Inr hs \<and> (hs \<noteq> [] \<longleftrightarrow> s \<le> m))) \<longrightarrow>
      bisect_slot 64 hashes_at 0 u64_max = Inr m) \<and>
   bisect_slot 64 (\<lambda>s. Inr (if s = 1 \<or> s = 3 then [s] else [])) 0 u64_max = Inr 1"
proof (intro conjI allI impI)
  show "case bisect_slot 64 hashes_at 0 u64_max of
      Inl err \<Rightarrow> \<exists>s e. hashes_at s = Inl e \<and> err = (if is_exn e then e else E_BT HEADER_NOT_FOUND)
    | Inr m \<Rightarrow> m \<le> u64_max \<and> (m = 0 \<or> (\<exists>hs. hashes_at m = Inr hs \<and> hs \<noteq> [])) \<and>
        (m = u64_max \<or> hashes_at (m + 1) = Inr [])"
    by (intro bisect_slot_ends) (auto simp: u64_max_def)
  show "bisect_slot 64 hashes_at 0 u64_max = Inr m"
    if "m \<le> u64_max" "\<forall>s. 0 < s \<and> s \<le> u64_max \<longrightarrow> (\<exists>hs. hashes_at s = Inr hs \<and> (hs \<noteq> [] \<longleftrightarrow> s \<le> m))" for m
    using that by (intro bisect_slot_correct) (auto simp: u64_max_def)
qed (rule bisect_slot_gap)

theorem bisect_slot_finds_last_witness:
  "bisect_slot 64 (\<lambda>s. Inr (if s \<le> 1000 then [s] else [])) 0 u64_max = Inr 1000"
proof -
  let ?h = "\<lambda>s. Inr (if s \<le> 1000 then [s] else []) :: hash list result"
  have "\<forall>s. 0 < s \<and> s \<le> u64_max \<longrightarrow> (\<exists>hs. ?h s = Inr hs \<and> (hs \<noteq> [] \<longleftrightarrow> s \<le> 1000))" "(1000 :: nat) \<le> u64_max"
    by (auto simp: u64_max_def)
  with bisect_slot_finds_last[of ?h] show ?thesis by blast
qed

text \<open>
  C39. When a block at the slot of the finalized block has another parent than the finalized
  block, the walk that should collect the dead fork never ends: both of its positions are
  reassigned to the headers just read instead of to their parents.
\<close>

theorem fork_walk_never_ends:
  assumes "getBlockHeader z in_memory (bi_hash fork) st = Inr fork_header"
    and "getBlockHeader z in_memory (bi_hash main) st = Inr main_header"
    and "hdr_slot fork_header = hdr_slot main_header"
    and "hdr_parent_root fork_header \<noteq> hdr_parent_root main_header"
  shows "\<forall>fuel. fork_walk fuel z in_memory st fork main c = Inl (Exn Diverges)"
proof -
  have "hash_header z fork_header = bi_hash fork" "hash_header z main_header = bi_hash main"
    using assms(1,2) by (auto simp: getBlockHeader_def fetchBlockHeader_def result_iffs split: option.splits if_splits)
  with fork_walk_stuck[OF assms] show ?thesis by blast
qed

definition fork_codec :: ssz where
  "fork_codec = demo_codec\<lparr>hash_header := (\<lambda>h. hdr_parent_root h),
     dec_header := (\<lambda>b. if length b = 1 then Some \<lparr>hdr_slot = 3, hdr_proposer_index = 1, hdr_parent_root = unat (hd b),
       hdr_state_root = 8, hdr_body_root = 9\<rparr> else None)\<rparr>"

theorem fork_walk_never_ends_witness:
  "fork_walk 100 fork_codec in_memory
     \<lparr>bst_storage = [(Header, \<lparr>ims_storage = [(hash_bytes 1, [1]), (hash_bytes 2, [2])], ims_size = 2\<rparr>)],
      bst_block_tree_leaves = None\<rparr>
     \<lparr>bi_slot = 3, bi_hash = 1\<rparr> \<lparr>bi_slot = 3, bi_hash = 2\<rparr>
     \<lparr>col_blocks = [], col_observed = [], col_dead = [], col_subchain = []\<rparr> = Inl (Exn Diverges)"
proof -
  let ?st = "\<lparr>bst_storage = [(Header, \<lparr>ims_storage = [(hash_bytes 1, [1]), (hash_bytes 2, [2])], ims_size = 2\<rparr>)],
      bst_block_tree_leaves = None\<rparr>"
  let ?h = "\<lambda>p. \<lparr>hdr_slot = 3, hdr_proposer_index = 1, hdr_parent_root = p, hdr_state_root = 8, hdr_body_root = 9\<rparr>"
  have ne: "hash_bytes 1 \<noteq> hash_bytes 2" using hash_bytes_inj[of 1 2] by auto
  have h: "getBlockHeader fork_codec in_memory 1 ?st = Inr (?h 1)" "getBlockHeader fork_codec in_memory 2 ?st = Inr (?h 2)"
    using ne by (simp_all add: getBlockHeader_def fetchBlockHeader_def getFromSpace_def in_memory_def ims_tryGet_def
        getSpace_def decode_def fork_codec_def)
  from fork_walk_never_ends[of fork_codec "\<lparr>bi_slot = 3, bi_hash = 1\<rparr>" ?st "?h 1" "\<lparr>bi_slot = 3, bi_hash = 2\<rparr>" "?h 2"] h
  show ?thesis by simp
qed

end
