(* ===== verification/TreeSync.thy ===== *)
theory TreeSync
  imports TreeReach TreeInit
begin

text \<open>
  The block tree keeps the cached tree and the storage in step: what
  \<^verbatim>\<open>addBlock\<close> and \<^verbatim>\<open>finalize\<close> leave in both, and what the
  chain queries return.
\<close>

subsection \<open>Frames of the storage calls\<close>

lemma bt_store_eq:
  "bt_store m t = (r, t') \<longleftrightarrow> (\<exists>st. m (bt_storage t) = (r, st) \<and> t' = t\<lparr>bt_storage := st\<rparr>)"
  by (auto simp: bt_store_def split: prod.splits)

lemma bt_cached_eq_Inr:
  "bt_cached f t = (Inr x, t') \<longleftrightarrow> (\<exists>ct. f (bt_tree t) = Inr (x, ct) \<and> t' = t\<lparr>bt_tree := ct\<rparr>)"
  by (auto simp: bt_cached_def split: sum.splits prod.splits)

lemma keeps_bt_store: "keeps I m \<Longrightarrow> keeps (\<lambda>t. I (bt_storage t) \<and> bt_tree t = ct) (bt_store m)"
  by (auto simp: keeps_def bt_store_def split: prod.splits)

lemma reorgAndPrune_tree:
  assumes "reorgAndPrune z db ch t = (r, t')"
  shows "bt_tree t' = bt_tree t"
proof -
  have st: "keeps (\<lambda>u. bt_tree u = bt_tree t) (bt_store m)" for m :: "('a BlockStorage, unit) action"
    by (auto simp: keeps_def bt_store_def split: prod.splits)
  have st': "keeps (\<lambda>u. bt_tree u = bt_tree t) (\<lambda>u. bt_store (f u) u)" for f :: "'a BlockTree \<Rightarrow> ('a BlockStorage, unit) action"
    by (auto simp: keeps_def bt_store_def split: prod.splits)
  have "keeps (\<lambda>u. bt_tree u = bt_tree t) (reorgAndPrune z db ch)"
    unfolding reorgAndPrune_def by (intro keeps_intros st st')
  from keepsD[OF this refl assms] show ?thesis .
qed

context reliable_storage
begin

text \<open>All spaces but the slot index, and the cached leaves, are as given.\<close>

definition fixed :: "(Space \<Rightarrow> bytes \<Rightarrow> bytes option) \<Rightarrow> hash list option \<Rightarrow> 's BlockStorage \<Rightarrow> bool" where
  "fixed V L st \<longleftrightarrow>
     bvalid st \<and> bst_block_tree_leaves st = L \<and> (\<forall>space. space \<noteq> SlotToHashes \<longrightarrow> bview st space = V space)"

lemma fixed_write:
  "keeps (fixed V L) (on_storage (sp_put ops SlotToHashes k v))"
  "keeps (fixed V L) (on_storage (sp_remove ops SlotToHashes k))"
  by (auto intro!: keeps_write simp: fixed_def bvalid_def bview_def)

lemma fixed_slots:
  "keeps (fixed V L) (assignHashToSlot z ops i)" "keeps (fixed V L) (deassignHashToSlot z ops i)"
  unfolding assignHashToSlot_def deassignHashToSlot_def Let_def
  by (intro keeps_intros fixed_write)+

lemma setBlockTreeLeaves_ok:
  assumes st: "leaves_cached z st" and run: "setBlockTreeLeaves z ops leaves st = (Inr (), st')"
    and dec: "dec_hashes z (enc_hashes z (sort leaves)) = Some (sort leaves)"
  shows "bvalid st'" "leaves_cached z st'" "bst_block_tree_leaves st' = Some (sort leaves)"
    and "space \<noteq> Default \<Longrightarrow> bview st' space = bview st space"
proof -
  have bv: "bvalid st" using st by (simp add: leaves_cached_def)
  show c: "leaves_cached z st'" by (rule set_get_leaves(2)[OF st run dec])
  then show "bvalid st'" by (simp add: leaves_cached_def)
  show "bst_block_tree_leaves st' = Some (sort leaves)"
    using run by (auto simp: setBlockTreeLeaves_def Let_def TRY_eq_Inr split: if_splits)
  show "bview st' space = bview st space" if "space \<noteq> Default"
  proof (cases "bst_block_tree_leaves st = Some (sort leaves)")
    case False
    with run obtain st1 where
      "on_storage (sp_put ops Default kBlockTreeLeavesLookupKey (enc_hashes z (sort leaves))) st = (Inr (), st1)"
      "st' = st1\<lparr>bst_block_tree_leaves := Some (sort leaves)\<rparr>"
      by (auto simp: setBlockTreeLeaves_def Let_def TRY_eq_Inr)
    with on_storage_put(2)[OF bv] that show ?thesis by (auto simp: bview_def)
  qed (use run in \<open>simp add: setBlockTreeLeaves_def\<close>)
qed

definition leaves_stored :: "ssz \<Rightarrow> 's BlockTree \<Rightarrow> bool" where
  "leaves_stored z t \<longleftrightarrow>
     leaves_cached z (bt_storage t) \<and>
     bst_block_tree_leaves (bt_storage t) = Some (sort (leafHashes (bt_tree t)))"

lemma leaves_cached_fixed:
  assumes "leaves_cached z st" "fixed (bview st) (bst_block_tree_leaves st) st'"
  shows "leaves_cached z st'"
proof -
  have "sp_tryGet ops (bst_storage st') Default k = sp_tryGet ops (bst_storage st) Default k" for k
    using assms tryGet_total by (simp add: leaves_cached_def fixed_def bvalid_def bview_def)
  with assms show ?thesis
    by (auto simp: leaves_cached_def fixed_def getBlockTreeLeaves_def TRY_def READ_def LIFT_def FAIL_def
        split: sum.splits option.splits)
qed

text \<open>The storage after a change of the tree, up to the removal of blocks.\<close>

lemma reorgAndPrune_ok:
  assumes st: "leaves_cached z (bt_storage t)"
    and run: "reorgAndPrune z ops ch t = (Inr (), t')"
    and dec: "dec_hashes z (enc_hashes z (sort (leafHashes (bt_tree t)))) = Some (sort (leafHashes (bt_tree t)))"
  obtains t1 where "FOREACH (\<lambda>i. bt_store (removeBlock z ops (bi_hash i))) (rp_prune ch) t1 = (Inr (), t')"
    "leaves_stored z t1" "bt_tree t1 = bt_tree t"
    "\<And>space. space \<noteq> Default \<Longrightarrow> space \<noteq> SlotToHashes \<Longrightarrow> bview (bt_storage t1) space = bview (bt_storage t) space"
proof -
  from run obtain s0 t1 where
    s0: "setBlockTreeLeaves z ops (leafHashes (bt_tree t)) (bt_storage t) = (Inr (), s0)"
    and t1: "(case rp_reorg ch of None \<Rightarrow> OK () | Some ro \<Rightarrow>
              TRY (FOREACH (\<lambda>block. bt_store (deassignHashToSlot z ops block)) (ro_revert ro)) (\<lambda>_.
              FOREACH (\<lambda>block. bt_store (assignHashToSlot z ops block)) (ro_apply ro))) (t\<lparr>bt_storage := s0\<rparr>) = (Inr (), t1)"
    and rest: "FOREACH (\<lambda>i. bt_store (removeBlock z ops (bi_hash i))) (rp_prune ch) t1 = (Inr (), t')"
    unfolding reorgAndPrune_def by (auto simp: TRY_eq_Inr bt_store_eq)
  note l = setBlockTreeLeaves_ok[OF st s0 dec]
  let ?I = "\<lambda>u. fixed (bview s0) (bst_block_tree_leaves s0) (bt_storage u) \<and> bt_tree u = bt_tree t"
  have "keeps ?I (case rp_reorg ch of None \<Rightarrow> OK () | Some ro \<Rightarrow>
      TRY (FOREACH (\<lambda>block. bt_store (deassignHashToSlot z ops block)) (ro_revert ro)) (\<lambda>_.
      FOREACH (\<lambda>block. bt_store (assignHashToSlot z ops block)) (ro_apply ro)))"
    by (intro keeps_intros keeps_bt_store fixed_slots)
  moreover have "?I (t\<lparr>bt_storage := s0\<rparr>)" using l(1) by (simp add: fixed_def)
  ultimately have I: "?I t1" using keepsD[of ?I] t1 by blast
  have "leaves_stored z t1"
    using I leaves_cached_fixed[OF l(2)] l(3) by (simp add: leaves_stored_def fixed_def)
  moreover have "bview (bt_storage t1) space = bview (bt_storage t) space"
    if "space \<noteq> Default" "space \<noteq> SlotToHashes" for space
    using I l(4)[OF that(1)] that by (simp add: fixed_def)
  ultimately show ?thesis using that rest I by blast
qed

subsection \<open>Removal of pruned blocks\<close>

lemma removeBlock_keeps_leaves:
  assumes "leaves_cached z st" "removeBlock z ops h st = (r, st')"
  shows "leaves_cached z st'" "bst_block_tree_leaves st' = bst_block_tree_leaves st"
proof -
  have "bvalid st" using assms(1) by (simp add: leaves_cached_def)
  with keepsD[OF removeBlock_frame frame_refl assms(2)] have f: "frame h st st'" by blast
  then show "bst_block_tree_leaves st' = bst_block_tree_leaves st" by (simp add: frame_def)
  have "sp_tryGet ops (bst_storage st') Default k = sp_tryGet ops (bst_storage st) Default k" for k
    using assms(1) f tryGet_total by (simp add: leaves_cached_def frame_def bvalid_def bview_def)
  with assms(1) f show "leaves_cached z st'"
    by (auto simp: leaves_cached_def frame_def getBlockTreeLeaves_def TRY_def READ_def LIFT_def FAIL_def
        split: sum.splits option.splits)
qed

lemma prune_blocks:
  assumes "leaves_stored z t" "FOREACH (\<lambda>i. bt_store (removeBlock z ops (bi_hash i))) is t = (Inr (), t')"
    and "\<forall>i \<in> set is. bi_hash i < 2 ^ 256"
  shows "leaves_stored z t' \<and> bt_tree t' = bt_tree t \<and>
    (\<forall>k < 2 ^ 256. if k \<in> bi_hash ` set is
       then getBlockHeader z ops k (bt_storage t') = Inl (E_BS BS_HEADER_NOT_FOUND)
       else getBlockHeader z ops k (bt_storage t') = getBlockHeader z ops k (bt_storage t) \<and>
            getSignedBlock z ops k (bt_storage t') = getSignedBlock z ops k (bt_storage t))"
  using assms
proof (induction "is" arbitrary: t)
  case (Cons i "is")
  from Cons.prems(2) obtain st where
    st: "removeBlock z ops (bi_hash i) (bt_storage t) = (Inr (), st)"
    and rest: "FOREACH (\<lambda>i. bt_store (removeBlock z ops (bi_hash i))) is (t\<lparr>bt_storage := st\<rparr>) = (Inr (), t')"
    by (auto simp: TRY_eq_Inr bt_store_eq)
  let ?t = "t\<lparr>bt_storage := st\<rparr>"
  have lc: "leaves_cached z (bt_storage t)" using Cons.prems(1) by (simp add: leaves_stored_def)
  then have bv: "bvalid (bt_storage t)" by (simp add: leaves_cached_def)
  have ls: "leaves_stored z ?t"
    using removeBlock_keeps_leaves[OF lc st] Cons.prems(1) by (simp add: leaves_stored_def)
  have small: "\<forall>i \<in> set is. bi_hash i < 2 ^ 256" "bi_hash i < 2 ^ 256" using Cons.prems(3) by auto
  note IH = Cons.IH[OF ls rest small(1)]
  have f: "frame (bi_hash i) (bt_storage t) st"
    by (rule keepsD[OF removeBlock_frame frame_refl[OF bv] st])
  have other: "getBlockHeader z ops k st = getBlockHeader z ops k (bt_storage t) \<and>
      getSignedBlock z ops k st = getSignedBlock z ops k (bt_storage t)" if "k < 2 ^ 256" "k \<noteq> bi_hash i" for k
    using frame_reads[OF bv f that(1) small(2) that(2)] by blast
  have gone: "getBlockHeader z ops (bi_hash i) st = Inl (E_BS BS_HEADER_NOT_FOUND)"
    using removeBlock_gone[OF bv st] by blast
  show ?case
  proof (intro conjI allI impI)
    fix k :: nat assume k: "k < 2 ^ 256"
    with IH have IHk: "if k \<in> bi_hash ` set is
       then getBlockHeader z ops k (bt_storage t') = Inl (E_BS BS_HEADER_NOT_FOUND)
       else getBlockHeader z ops k (bt_storage t') = getBlockHeader z ops k st \<and>
            getSignedBlock z ops k (bt_storage t') = getSignedBlock z ops k st" by simp
    show "if k \<in> bi_hash ` set (i # is)
       then getBlockHeader z ops k (bt_storage t') = Inl (E_BS BS_HEADER_NOT_FOUND)
       else getBlockHeader z ops k (bt_storage t') = getBlockHeader z ops k (bt_storage t) \<and>
            getSignedBlock z ops k (bt_storage t') = getSignedBlock z ops k (bt_storage t)"
      using IHk other[OF k] gone by (cases "k \<in> bi_hash ` set is"; cases "k = bi_hash i") simp_all
  qed (use IH in simp_all)
qed (simp add: OK_def)

subsection \<open>Adding and finalizing\<close>

text \<open>The invariant of a block tree.\<close>

definition bt_ok :: "ssz \<Rightarrow> 's BlockTree \<Rightarrow> bool" where
  "bt_ok z t \<longleftrightarrow>
     ct_ok (bt_tree t) \<and> leaves_cached z (bt_storage t) \<and> (\<forall>h. node_at (bt_tree t) h \<noteq> None \<longrightarrow> h < 2 ^ 256)"

lemma addBlock_ok:
  assumes t: "bt_ok z t" and run: "addBlock z ops sb t = (Inr (), t')"
    and slot: "\<And>n. node_at (bt_tree t) (blk_parent_root (sb_block sb)) = Some n \<Longrightarrow> node_slot n < blk_slot (sb_block sb)"
    and dec: "ssz_decodes z sb"
      "dec_hashes z (enc_hashes z (sort (leafHashes (bt_tree t')))) = Some (sort (leafHashes (bt_tree t')))"
    and h: "Block_hash z (sb_block sb) < 2 ^ 256"
  shows "bt_ok z t'" "leaves_stored z t'"
    and "\<And>k. node_at (bt_tree t') k \<noteq> None \<longleftrightarrow> k = Block_hash z (sb_block sb) \<or> node_at (bt_tree t) k \<noteq> None"
    and "getSignedBlock z ops (Block_hash z (sb_block sb)) (bt_storage t') = Inr sb"
proof -
  let ?b = "sb_block sb" and ?i = "BlockHeader_index z (getHeader z (sb_block sb))"
  from run obtain parent st reorg ct t2 where
    parent: "node_at (bt_tree t) (blk_parent_root ?b) = Some parent"
    and put: "putBlock z ops (BlockData_of z sb) (bt_storage t) = (Inr (Block_hash z ?b), st)"
    and add: "ct_add (TreeNode_child ?i parent) (bt_tree t) = Inr (reorg, ct)"
    and rp: "reorgAndPrune z ops \<lparr>rp_reorg = reorg, rp_prune = []\<rparr> (t\<lparr>bt_storage := st, bt_tree := ct\<rparr>) = (Inr (), t2)"
    and t': "bt_storage t' = bt_storage t2" "bt_tree t' = bt_tree t2"
    by (auto simp: addBlock_def Let_def find_node_def TRY_eq_Inr bt_store_eq bt_cached_eq_Inr READ_eq FAIL_def
        bt_notify_def BlockData_of_def Block_hash_def split: option.splits if_splits)
  from t have ok: "ct_ok (bt_tree t)" "leaves_cached z (bt_storage t)" "bvalid (bt_storage t)"
    by (simp_all add: bt_ok_def leaves_cached_def)
  have idx: "bi_slot ?i = blk_slot ?b" "bi_hash ?i = Block_hash z ?b"
    by (simp_all add: BlockHeader_index_def getHeader_def Block_hash_def)
  from ct_add_child_ok[OF ok(1) parent, of ?i] slot[OF parent] idx add have
    ct: "ct_ok ct" "\<And>k. node_at ct k \<noteq> None \<longleftrightarrow> k = Block_hash z ?b \<or> node_at (bt_tree t) k \<noteq> None" by auto
  let ?t1 = "t\<lparr>bt_storage := st, bt_tree := ct\<rparr>"
  have fr: "frame (Block_hash z ?b) (bt_storage t) st"
    using keepsD[OF putBlock_frame frame_refl[OF ok(3)] put, of "getHeader z ?b"]
    by (simp add: BlockData_of_def Block_hash_def)
  have lc: "leaves_cached z st"
  proof -
    have "sp_tryGet ops (bst_storage st) Default k = sp_tryGet ops (bst_storage (bt_storage t)) Default k" for k
      using fr ok(3) tryGet_total by (simp add: frame_def bvalid_def bview_def)
    with ok(2) fr show ?thesis
      by (auto simp: leaves_cached_def frame_def getBlockTreeLeaves_def TRY_def READ_def LIFT_def FAIL_def
          split: sum.splits option.splits)
  qed
  have "bt_tree t' = ct" using reorgAndPrune_tree[OF rp] t'(2) by simp
  with reorgAndPrune_ok[of z ?t1, OF _ rp] lc dec(2) obtain
    t2: "leaves_stored z t2" "bt_tree t2 = ct"
      "\<And>space. space \<noteq> Default \<Longrightarrow> space \<noteq> SlotToHashes \<Longrightarrow> bview (bt_storage t2) space = bview st space"
    by (auto simp: OK_def)
  show ls: "leaves_stored z t'" using t2(1) t' by (simp add: leaves_stored_def)
  show nodes: "\<And>k. node_at (bt_tree t') k \<noteq> None \<longleftrightarrow> k = Block_hash z ?b \<or> node_at (bt_tree t) k \<noteq> None"
    using ct(2) t2(2) t' by simp
  show "bt_ok z t'"
    unfolding bt_ok_def using ct(1) t2(2) t' ls nodes t h by (auto simp: leaves_stored_def bt_ok_def)
  have "bvalid st" "bvalid (bt_storage t2)" using lc t2(1) by (simp_all add: leaves_cached_def leaves_stored_def)
  moreover have "getSignedBlock z ops (Block_hash z ?b) st = Inr sb"
    by (rule putBlock_getSignedBlock[OF ok(3) put dec(1)])
  ultimately show "getSignedBlock z ops (Block_hash z ?b) (bt_storage t') = Inr sb"
    using reads_view(4)[of st "bt_storage t2" "Block_hash z ?b" z] t2(3) t'(1) by simp
qed

lemma ct_finalized_root: "ct_ok ct \<Longrightarrow> \<exists>r. ct_finalized ct = Inr r \<and> bi_hash r = ct_root ct"
proof -
  assume "ct_ok ct"
  then have ok: "tree_ok ct" by (simp add: ct_ok_def)
  obtain r where r: "node_at ct (ct_root ct) = Some r" using up_ok_root ok by blast
  from tree_okD(1)[OF ok r] r show ?thesis by (simp add: ct_finalized_def)
qed

lemma finalize_ok:
  assumes t: "bt_ok z t" and run: "BlockTree_finalize z ops h t = (Inr (), t')"
    and n: "node_at (bt_tree t) h \<noteq> None"
    and dec: "dec_hashes z (enc_hashes z (sort (leafHashes (bt_tree t')))) = Some (sort (leafHashes (bt_tree t')))"
  obtains ch where "bt_ok z t'" "finalize_spec (bt_tree t) h ch (bt_tree t')"
    "\<And>k. k < 2 ^ 256 \<Longrightarrow> if k \<in> bi_hash ` set (rp_prune ch)
       then getBlockHeader z ops k (bt_storage t') = Inl (E_BS BS_HEADER_NOT_FOUND)
       else getBlockHeader z ops k (bt_storage t') = getBlockHeader z ops k (bt_storage t) \<and>
            getSignedBlock z ops k (bt_storage t') = getSignedBlock z ops k (bt_storage t)"
proof -
  from n obtain node where node: "node_at (bt_tree t) h = Some node" by blast
  from t have ok: "ct_ok (bt_tree t)" "leaves_cached z (bt_storage t)"
    "\<And>k. node_at (bt_tree t) k \<noteq> None \<Longrightarrow> k < 2 ^ 256" by (simp_all add: bt_ok_def)
  from ct_finalize_ok[OF ok(1) node] obtain ch ct where
    fin: "ct_finalize h (bt_tree t) = Inr (ch, ct)" "ct_ok ct" "finalize_spec (bt_tree t) h ch ct" by blast
  from ct_finalized_root[OF ok(1)] obtain r where
    r: "ct_finalized (bt_tree t) = Inr r" "bi_hash r = ct_root (bt_tree t)" by blast
  show ?thesis
  proof (cases "h = ct_root (bt_tree t)")
    case True
    have "t' = t" using run r True by (auto simp: BlockTree_finalize_def TRY_def READ_def getLastFinalizedNoLock_def OK_def)
    moreover have "ch = no_changes" "ct = bt_tree t" using fin(1) True node by (auto simp: ct_finalize_def)
    ultimately show ?thesis using that[of ch] t fin(3) by (simp add: no_changes_def)
  next
    case False
    from run r False node obtain t2 where
      rp: "reorgAndPrune z ops ch (t\<lparr>bt_tree := ct\<rparr>) = (Inr (), t2)"
      and t': "bt_storage t' = bt_storage t2" "bt_tree t' = bt_tree t2"
      using fin(1)
      by (auto simp: BlockTree_finalize_def TRY_eq_Inr READ_eq bt_read_def getLastFinalizedNoLock_def find_node_def
          bt_cached_eq_Inr bt_notify_def split: if_splits)
    have "bt_tree t' = ct" using reorgAndPrune_tree[OF rp] t'(2) by simp
    with reorgAndPrune_ok[OF _ rp] ok(2) dec obtain t1 where
      t1: "FOREACH (\<lambda>i. bt_store (removeBlock z ops (bi_hash i))) (rp_prune ch) t1 = (Inr (), t2)"
        "leaves_stored z t1" "bt_tree t1 = ct"
        "\<And>space. space \<noteq> Default \<Longrightarrow> space \<noteq> SlotToHashes \<Longrightarrow> bview (bt_storage t1) space = bview (bt_storage t) space"
      by auto
    have idx: "bi_hash (tn_index m) = k" if "node_at (bt_tree t) k = Some m" for k m
      using tree_okD(1) ok(1) that by (auto simp: ct_ok_def)
    have "\<forall>i \<in> set (rp_prune ch). bi_hash i < 2 ^ 256"
      using fin(3) ok(3) idx unfolding finalize_spec_def by fastforce
    note p = prune_blocks[OF t1(2,1) this]
    have "bvalid (bt_storage t)" "bvalid (bt_storage t1)"
      using ok(2) t1(2) by (simp_all add: leaves_cached_def leaves_stored_def)
    note reads = reads_view(1,4)[OF this, of _ z]
    have same: "getBlockHeader z ops k (bt_storage t1) = getBlockHeader z ops k (bt_storage t)"
      "getSignedBlock z ops k (bt_storage t1) = getSignedBlock z ops k (bt_storage t)" for k
      using reads t1(4) by simp_all
    have "bt_ok z t'"
    proof -
      have "k < 2 ^ 256" if "node_at ct k \<noteq> None" for k
        using fin(3) that ok(3)[of k] anc_nodes[of "bt_tree t" h k] by (auto simp: finalize_spec_def)
      then show ?thesis using p t' t1(3) fin(2) by (simp add: bt_ok_def leaves_stored_def)
    qed
    moreover have "finalize_spec (bt_tree t) h ch (bt_tree t')" using p t1(3) fin(3) t'(2) by simp
    ultimately show ?thesis
    proof (rule that)
      fix k :: nat assume "k < 2 ^ 256"
      with p same t'(1) show "if k \<in> bi_hash ` set (rp_prune ch)
       then getBlockHeader z ops k (bt_storage t') = Inl (E_BS BS_HEADER_NOT_FOUND)
       else getBlockHeader z ops k (bt_storage t') = getBlockHeader z ops k (bt_storage t) \<and>
            getSignedBlock z ops k (bt_storage t') = getSignedBlock z ops k (bt_storage t)"
        by presburger
    qed
  qed
qed

end

subsection \<open>Descending chains\<close>

text \<open>\<open>b\<close> is the parent of \<open>a\<close>, in the cached tree or by the stored header.\<close>

definition parent_link :: "ssz \<Rightarrow> 's SpacedStorage \<Rightarrow> 's BlockTree \<Rightarrow> hash \<Rightarrow> hash \<Rightarrow> bool" where
  "parent_link z db t a b \<longleftrightarrow>
     (\<exists>n. find_node (bt_tree t) a = Some n \<and> TreeNode_parent (bt_tree t) n = Some b) \<or>
     (\<exists>header. getBlockHeader z db a (bt_storage t) = Inr header \<and> hdr_parent_root header = b)"

definition chain_down :: "ssz \<Rightarrow> 's SpacedStorage \<Rightarrow> 's BlockTree \<Rightarrow> hash \<Rightarrow> hash list \<Rightarrow> hash \<Rightarrow> bool" where
  "chain_down z db t h chain next \<longleftrightarrow>
     (chain = [] \<longrightarrow> next = h) \<and>
     (chain \<noteq> [] \<longrightarrow> hd chain = h \<and> parent_link z db t (last chain) next) \<and>
     (\<forall>i. Suc i < length chain \<longrightarrow> parent_link z db t (chain ! i) (chain ! Suc i))"

lemma chain_down_snoc:
  assumes "chain_down z db t h chain a" "parent_link z db t a b"
  shows "chain_down z db t h (chain @ [a]) b"
  unfolding chain_down_def
proof (intro conjI impI allI)
  show "hd (chain @ [a]) = h" using assms(1) by (cases chain) (auto simp: chain_down_def)
  fix i assume i: "Suc i < length (chain @ [a])"
  show "parent_link z db t ((chain @ [a]) ! i) ((chain @ [a]) ! Suc i)"
  proof (cases "Suc i = length chain")
    case True
    then have ne: "chain \<noteq> []" by auto
    then have "last chain = chain ! i" using True by (metis last_conv_nth diff_Suc_1)
    with assms(1) True ne show ?thesis by (simp add: chain_down_def nth_append)
  qed (use assms(1) i in \<open>auto simp: chain_down_def nth_append\<close>)
qed (use assms(2) in simp_all)

lemma chain_from_tree_ok:
  assumes "up_ok (bt_tree t)" "node_at (bt_tree t) a = Some node" "chain_down z db t h chain a"
    and "chain_from_tree n (bt_tree t) node h0 chain = Inr (g, chain')"
  shows "length chain' \<le> length chain + n \<and> (length chain' < length chain + n \<longrightarrow> chain_down z db t h chain' g) \<and>
    (\<exists>g'. chain_down z db t h chain' g')"
  using assms
proof (induction n arbitrary: a node chain)
  case (Suc n)
  have idx: "bi_hash (tn_index node) = a" using up_okD(1)[OF Suc.prems(1,2)] .
  show ?case
  proof (cases "TreeNode_parent (bt_tree t) node")
    case None
    with Suc.prems(3,4) idx show ?thesis by auto
  next
    case (Some p)
    then obtain parent where parent: "node_at (bt_tree t) p = Some parent"
      using Suc.prems(4) by (auto simp: deref_def split: option.splits)
    have "parent_link z db t a p" using Some Suc.prems(2) by (auto simp: parent_link_def find_node_def)
    from chain_down_snoc[OF Suc.prems(3) this] have c: "chain_down z db t h (chain @ [a]) p" .
    from Suc.prems(4) Some parent idx have
      "chain_from_tree n (bt_tree t) parent h0 (chain @ [a]) = Inr (g, chain')" by simp
    from Suc.IH[OF Suc.prems(1) parent c this] show ?thesis by simp
  qed
qed auto

lemma chain_from_storage_ok:
  assumes "chain_down z db t h chain a" "chain_from_storage n z db (bt_storage t) a chain = Inr chain'"
  shows "length chain' \<le> length chain + n \<and> (\<exists>b. chain_down z db t h chain' b)"
  using assms
proof (induction n arbitrary: a chain)
  case (Suc n)
  show ?case
  proof (cases "getBlockHeader z db a (bt_storage t)")
    case (Inl e)
    with Suc.prems show ?thesis by (auto split: if_splits)
  next
    case (Inr header)
    then have "parent_link z db t a (hdr_parent_root header)" by (auto simp: parent_link_def)
    from chain_down_snoc[OF Suc.prems(1) this]
    have c: "chain_down z db t h (chain @ [a]) (hdr_parent_root header)" .
    show ?thesis
    proof (cases "hdr_slot header = 0")
      case True
      with Suc.prems(2) Inr c show ?thesis by auto
    next
      case False
      with Suc.prems(2) Inr have
        "chain_from_storage n z db (bt_storage t) (hdr_parent_root header) (chain @ [a]) = Inr chain'" by simp
      from Suc.IH[OF c this] show ?thesis by simp
    qed
  qed
qed auto

lemma descending_chain_ok:
  assumes "ct_ok (bt_tree t)" "getDescendingChainToBlockNoLock z db h maximum t = Inr chain"
  shows "length chain \<le> maximum \<and> (\<exists>b. chain_down z db t h chain b)"
proof -
  have start: "chain_down z db t h [] h" by (simp add: chain_down_def)
  have up: "up_ok (bt_tree t)" using assms(1) by (auto simp: ct_ok_def)
  show ?thesis
  proof (cases "find_node (bt_tree t) h")
    case None
    with assms(2) have "chain_from_storage maximum z db (bt_storage t) h [] = Inr chain"
      by (simp add: getDescendingChainToBlockNoLock_def)
    from chain_from_storage_ok[OF start this] show ?thesis by simp
  next
    case (Some node)
    with assms(2) obtain g c where
      c: "chain_from_tree maximum (bt_tree t) node h [] = Inr (g, c)"
        "chain_from_storage (maximum - length c) z db (bt_storage t) g c = Inr chain"
      by (auto simp: getDescendingChainToBlockNoLock_def result_iffs split: prod.splits)
    have "node_at (bt_tree t) h = Some node" using Some by (simp add: find_node_def)
    note tr = chain_from_tree_ok[OF up this start c(1)]
    show ?thesis
    proof (cases "length c < maximum")
      case True
      with tr have "chain_down z db t h c g" by simp
      from chain_from_storage_ok[OF this c(2)] True show ?thesis by simp
    next
      case False
      with tr c(2) show ?thesis by auto
    qed
  qed
qed

subsection \<open>Properties of the block tree\<close>

text \<open>
  The invariant of a block tree on the in-memory storage: the cached tree is well formed,
  its hashes are 256-bit numbers, and cached leaves are the stored ones.
\<close>

definition tree_synced :: "ssz \<Rightarrow> InMemorySpacedStorage BlockTree \<Rightarrow> bool" where
  "tree_synced z t \<longleftrightarrow>
     ct_ok (bt_tree t) \<and> (\<forall>h. find_node (bt_tree t) h \<noteq> None \<longrightarrow> h < 2 ^ 256) \<and>
     (\<forall>ls. bst_block_tree_leaves (bt_storage t) = Some ls \<longrightarrow>
        fst (getBlockTreeLeaves z in_memory ((bt_storage t)\<lparr>bst_block_tree_leaves := None\<rparr>)) = Inr ls)"

lemma tree_synced_bt_ok: "tree_synced z t \<longleftrightarrow> mem.bt_ok z t"
  by (auto simp: tree_synced_def mem.bt_ok_def mem.leaves_cached_def mem.bvalid_def find_node_def)

text \<open>
  C35. Adding a block whose parent is in the tree keeps the block tree in step with the
  storage: the block is a node of a well-formed tree, all earlier nodes stay, the signed
  block reads back from the storage, and the stored leaves are the leaves of the tree.
\<close>

theorem addBlock_synchronises:
  assumes "tree_synced z t" "addBlock z in_memory sb t = (Inr (), t')"
    and "\<forall>n. find_node (bt_tree t) (blk_parent_root (sb_block sb)) = Some n \<longrightarrow>
      bi_slot (tn_index n) < blk_slot (sb_block sb)"
    and "ssz_decodes z sb" "Block_hash z (sb_block sb) < 2 ^ 256"
    and "dec_hashes z (enc_hashes z (sort (getLeaves t'))) = Some (sort (getLeaves t'))"
  shows "tree_synced z t' \<and>
    (\<forall>h. find_node (bt_tree t') h \<noteq> None \<longleftrightarrow> h = Block_hash z (sb_block sb) \<or> find_node (bt_tree t) h \<noteq> None) \<and>
    tryGetSignedBlock z in_memory (Block_hash z (sb_block sb)) t' = Inr (Some sb) \<and>
    fst (getBlockTreeLeaves z in_memory (bt_storage t')) = Inr (sort (getLeaves t'))"
proof -
  have slot: "node_slot n < blk_slot (sb_block sb)" if "node_at (bt_tree t) (blk_parent_root (sb_block sb)) = Some n" for n
    using assms(3) that by (simp add: find_node_def)
  note a = mem.addBlock_ok[OF assms(1)[unfolded tree_synced_bt_ok] assms(2) slot assms(4)
      assms(6)[unfolded getLeaves_def getLeavesNoLock_def] assms(5)]
  have "fst (getBlockTreeLeaves z in_memory (bt_storage t')) = Inr (sort (getLeaves t'))"
    using a(2) by (simp add: mem.leaves_stored_def getBlockTreeLeaves_def getLeaves_def getLeavesNoLock_def)
  with a(1,3,4) show ?thesis by (simp add: tree_synced_bt_ok find_node_def tryGetSignedBlock_def)
qed

definition demo_block_tree :: "InMemorySpacedStorage BlockTree" where
  "demo_block_tree =
     \<lparr>bt_storage = fresh_storage, bt_tree = CachedTree_new \<lparr>bi_slot = 0, bi_hash = 7\<rparr>,
      bt_genesis_block_hash = None, bt_events = []\<rparr>"

lemma demo_synced: "tree_synced demo_codec demo_block_tree"
  using CachedTree_new_ok[of "\<lparr>bi_slot = 0, bi_hash = 7\<rparr>"]
  by (auto simp: tree_synced_def demo_block_tree_def find_node_def CachedTree_new_def split: if_splits)

definition demo_tree1 :: CachedTree where
  "demo_tree1 =
     \<lparr>ct_root = 7, ct_justified = \<lparr>bi_slot = 0, bi_hash = 7\<rparr>, ct_best = 13,
      ct_nodes =
        [(7, \<lparr>tn_index = \<lparr>bi_slot = 0, bi_hash = 7\<rparr>, tn_parent = None, tn_depth = 0, tn_reverted = False,
              tn_children = [13]\<rparr>),
         (13, \<lparr>tn_index = \<lparr>bi_slot = 3, bi_hash = 13\<rparr>, tn_parent = Some 7, tn_depth = 1, tn_reverted = False,
              tn_children = []\<rparr>)],
      ct_leaves = [(13, 3)]\<rparr>"

definition demo_store1 :: InMemorySpacedStorage where
  "demo_store1 =
     [(Header, \<lparr>ims_storage = [(hash_bytes 13, [3])], ims_size = 1\<rparr>),
      (SignatureSpace, \<lparr>ims_storage = [(hash_bytes 13, [6])], ims_size = 1\<rparr>),
      (Body, \<lparr>ims_storage = [(hash_bytes 13, [5])], ims_size = 1\<rparr>)]"

lemma demo_put1:
  "putBlock demo_codec in_memory (BlockData_of demo_codec demo_signed_block) fresh_storage =
     (Inr 13, \<lparr>bst_storage = demo_store1, bst_block_tree_leaves = None\<rparr>)"
proof -
  have "enc_header demo_codec (getHeader demo_codec (sb_block demo_signed_block)) = [3]"
    "enc_signatures demo_codec (sb_signature demo_signed_block) = [6]"
    "enc_body demo_codec (blk_body (sb_block demo_signed_block)) = [5]"
    by (simp_all add: demo_codec_def getHeader_def demo_signed_block_def)
  then show ?thesis by (simp add: demo_run demo_hash demo_store1_def u64_add_def)
qed

lemmas reorg_loop_numeral = reorg_loop.simps(2)[of "pred_numeral k", folded numeral_eq_Suc] for k

lemma demo_add1:
  "ct_add (TreeNode_child \<lparr>bi_slot = 3, bi_hash = 13\<rparr> (TreeNode_new \<lparr>bi_slot = 0, bi_hash = 7\<rparr>))
     (CachedTree_new \<lparr>bi_slot = 0, bi_hash = 7\<rparr>) =
   Inr (Some \<lparr>ro_common = \<lparr>bi_slot = 0, bi_hash = 7\<rparr>, ro_revert = [], ro_apply = [\<lparr>bi_slot = 3, bi_hash = 13\<rparr>]\<rparr>, demo_tree1)"
  by (simp add: ct_add_def CachedTree_new_def TreeNode_new_def TreeNode_child_def deref_def set_node_def
      TreeNode_parent_def TreeNode_weight_def reorg_def reorg_loop_numeral demo_tree1_def)

lemma demo_reorg1:
  "\<exists>t'. reorgAndPrune demo_codec in_memory
      \<lparr>rp_reorg = Some \<lparr>ro_common = \<lparr>bi_slot = 0, bi_hash = 7\<rparr>, ro_revert = [], ro_apply = [\<lparr>bi_slot = 3, bi_hash = 13\<rparr>]\<rparr>,
       rp_prune = []\<rparr>
      \<lparr>bt_storage = \<lparr>bst_storage = demo_store1, bst_block_tree_leaves = None\<rparr>, bt_tree = demo_tree1,
       bt_genesis_block_hash = None, bt_events = []\<rparr> = (Inr (), t') \<and> bt_tree t' = demo_tree1"
  by (simp add: reorgAndPrune_def bt_store_def setBlockTreeLeaves_def assignHashToSlot_def getBlockHash_def Let_def
      demo_store1_def demo_run)

lemma demo_addBlock:
  "\<exists>t'. addBlock demo_codec in_memory demo_signed_block demo_block_tree = (Inr (), t') \<and> getLeaves t' = [13]"
proof -
  let ?h = "getHeader demo_codec (sb_block demo_signed_block)"
  have h: "BlockHeader_index demo_codec ?h = \<lparr>bi_slot = 3, bi_hash = 13\<rparr>"
    by (simp add: BlockHeader_index_def demo_hash) (simp add: getHeader_def demo_signed_block_def)
  have n: "find_node (bt_tree demo_block_tree) (blk_parent_root (sb_block demo_signed_block)) =
      Some (TreeNode_new \<lparr>bi_slot = 0, bi_hash = 7\<rparr>)"
    by (simp add: demo_block_tree_def find_node_def CachedTree_new_def demo_signed_block_def)
  obtain t' where t': "reorgAndPrune demo_codec in_memory
      \<lparr>rp_reorg = Some \<lparr>ro_common = \<lparr>bi_slot = 0, bi_hash = 7\<rparr>, ro_revert = [], ro_apply = [\<lparr>bi_slot = 3, bi_hash = 13\<rparr>]\<rparr>,
       rp_prune = []\<rparr>
      \<lparr>bt_storage = \<lparr>bst_storage = demo_store1, bst_block_tree_leaves = None\<rparr>, bt_tree = demo_tree1,
       bt_genesis_block_hash = None, bt_events = []\<rparr> = (Inr (), t')" "bt_tree t' = demo_tree1"
    using demo_reorg1 by blast
  have best: "bestBlock t' = Inr \<lparr>bi_slot = 3, bi_hash = 13\<rparr>"
    by (simp add: bestBlock_def bestBlockNoLock_def t'(2) ct_best_index_def demo_tree1_def)
  have d: "\<lparr>data_hash = 13, data_header = Some ?h,
      data_body = Some (blk_body (sb_block demo_signed_block)), data_signature = Some (sb_signature demo_signed_block)\<rparr> =
      BlockData_of demo_codec demo_signed_block" by (simp add: BlockData_of_def Block_hash_def demo_hash)
  let ?s1 = "\<lparr>bst_storage = demo_store1, bst_block_tree_leaves = None\<rparr>"
  let ?t1 = "demo_block_tree\<lparr>bt_storage := ?s1\<rparr>"
  have s1: "bt_store (putBlock demo_codec in_memory (BlockData_of demo_codec demo_signed_block)) demo_block_tree = (Inr 13, ?t1)"
    by (simp add: bt_store_def demo_block_tree_def demo_put1)
  have s2: "bt_cached (ct_add (TreeNode_child \<lparr>bi_slot = 3, bi_hash = 13\<rparr> (TreeNode_new \<lparr>bi_slot = 0, bi_hash = 7\<rparr>))) ?t1 =
      (Inr (Some \<lparr>ro_common = \<lparr>bi_slot = 0, bi_hash = 7\<rparr>, ro_revert = [], ro_apply = [\<lparr>bi_slot = 3, bi_hash = 13\<rparr>]\<rparr>),
       \<lparr>bt_storage = ?s1, bt_tree = demo_tree1, bt_genesis_block_hash = None, bt_events = []\<rparr>)"
    by (simp add: bt_cached_def demo_block_tree_def demo_add1)
  have s3: "READ bestBlock t' = (Inr \<lparr>bi_slot = 3, bi_hash = 13\<rparr>, t')" by (simp add: READ_def best)
  have "addBlock demo_codec in_memory demo_signed_block demo_block_tree =
      (Inr (), t'\<lparr>bt_events := bt_events t' @ [NewLeaf ?h True]\<rparr>)"
    unfolding addBlock_def Let_def n option.case d h demo_hash
    by (simp add: TRY_def s1 s2 t'(1) s3 bt_notify_def)
  then show ?thesis using t'(2) by (simp add: getLeaves_def getLeavesNoLock_def leafHashes_def demo_tree1_def)
qed

theorem addBlock_synchronises_witness:
  "\<exists>t'. addBlock demo_codec in_memory demo_signed_block demo_block_tree = (Inr (), t') \<and>
     tryGetSignedBlock demo_codec in_memory 13 t' = Inr (Some demo_signed_block)"
proof -
  obtain t' where t': "addBlock demo_codec in_memory demo_signed_block demo_block_tree = (Inr (), t')" "getLeaves t' = [13]"
    using demo_addBlock by blast
  have slot: "\<forall>n. find_node (bt_tree demo_block_tree) (blk_parent_root (sb_block demo_signed_block)) = Some n \<longrightarrow>
      bi_slot (tn_index n) < blk_slot (sb_block demo_signed_block)"
    by (simp add: demo_block_tree_def demo_signed_block_def find_node_def CachedTree_new_def TreeNode_new_def)
  have h: "Block_hash demo_codec (sb_block demo_signed_block) = 13" using demo_hash by (simp add: Block_hash_def)
  have "dec_hashes demo_codec (enc_hashes demo_codec (sort (getLeaves t'))) = Some (sort (getLeaves t'))"
    unfolding t'(2) by (simp add: demo_codec_def hash_bytes_def upt_rec)
  from addBlock_synchronises[OF demo_synced t'(1) slot demo_decodes _ this] h t'(1) show ?thesis by auto
qed

text \<open>
  C36. Finalizing a block of the tree prunes the storage with the tree: the finalized block
  becomes the root, the tree keeps exactly its descendants, the headers of the pruned blocks
  (neither descendants nor ancestors) are gone from the storage, and every other block reads
  as before.
\<close>

theorem finalize_prunes_storage:
  assumes "tree_synced z t" "BlockTree_finalize z in_memory h t = (Inr (), t')"
    and "find_node (bt_tree t) h \<noteq> None"
    and "dec_hashes z (enc_hashes z (sort (getLeaves t'))) = Some (sort (getLeaves t'))"
    and "k < 2 ^ 256"
  shows "tree_synced z t' \<and> ct_root (bt_tree t') = h \<and>
    (find_node (bt_tree t') k \<noteq> None \<longleftrightarrow> anc (bt_tree t) h k) \<and>
    (if find_node (bt_tree t) k \<noteq> None \<and> \<not> anc (bt_tree t) h k \<and> \<not> anc (bt_tree t) k h
     then getBlockHeader z in_memory k (bt_storage t') = Inl (E_BS BS_HEADER_NOT_FOUND)
     else getBlockHeader z in_memory k (bt_storage t') = getBlockHeader z in_memory k (bt_storage t) \<and>
          getSignedBlock z in_memory k (bt_storage t') = getSignedBlock z in_memory k (bt_storage t))"
proof -
  obtain ch where
    f: "mem.bt_ok z t'" "finalize_spec (bt_tree t) h ch (bt_tree t')"
      "\<And>k. k < 2 ^ 256 \<Longrightarrow> if k \<in> bi_hash ` set (rp_prune ch)
       then getBlockHeader z in_memory k (bt_storage t') = Inl (E_BS BS_HEADER_NOT_FOUND)
       else getBlockHeader z in_memory k (bt_storage t') = getBlockHeader z in_memory k (bt_storage t) \<and>
            getSignedBlock z in_memory k (bt_storage t') = getSignedBlock z in_memory k (bt_storage t)"
    by (rule mem.finalize_ok[OF assms(1)[unfolded tree_synced_bt_ok] assms(2) assms(3)[unfolded find_node_def]
      assms(4)[unfolded getLeaves_def getLeavesNoLock_def]]) blast
  have ok: "tree_ok (bt_tree t)" using assms(1) by (simp add: tree_synced_def ct_ok_def)
  have "k \<in> bi_hash ` set (rp_prune ch) \<longleftrightarrow>
      node_at (bt_tree t) k \<noteq> None \<and> \<not> anc (bt_tree t) h k \<and> \<not> anc (bt_tree t) k h"
  proof -
    have "set (rp_prune ch) = {tn_index m | k m. node_at (bt_tree t) k = Some m \<and> \<not> anc (bt_tree t) h k \<and> \<not> anc (bt_tree t) k h}"
      using f(2) unfolding finalize_spec_def by blast
    then show ?thesis using tree_okD(1)[OF ok] by (auto simp: image_iff)
  qed
  with f(3)[OF assms(5)] f(1,2) show ?thesis
    by (simp add: tree_synced_bt_ok finalize_spec_def find_node_def)
qed

definition demo_tree2 :: CachedTree where
  "demo_tree2 =
     \<lparr>ct_root = 13, ct_justified = \<lparr>bi_slot = 0, bi_hash = 7\<rparr>, ct_best = 13,
      ct_nodes = [(13, \<lparr>tn_index = \<lparr>bi_slot = 3, bi_hash = 13\<rparr>, tn_parent = None, tn_depth = 1, tn_reverted = False,
                       tn_children = []\<rparr>)],
      ct_leaves = [(13, 3)]\<rparr>"

definition demo_block_tree1 :: "InMemorySpacedStorage BlockTree" where
  "demo_block_tree1 =
     \<lparr>bt_storage = \<lparr>bst_storage = demo_store1, bst_block_tree_leaves = None\<rparr>, bt_tree = demo_tree1,
      bt_genesis_block_hash = None, bt_events = []\<rparr>"

lemmas descend_loop_numeral = descend_loop.simps(2)[of "pred_numeral k", folded numeral_eq_Suc] for k
lemmas finalize_up_numeral = finalize_up.simps(3)[of "pred_numeral k", folded numeral_eq_Suc] for k

lemma demo_finalize2:
  "ct_finalize 13 demo_tree1 = Inr (\<lparr>rp_reorg = None, rp_prune = []\<rparr>, demo_tree2)"
  by (simp add: ct_finalize_def demo_tree1_def demo_tree2_def deref_def TreeNode_parent_def canDescend_def descend_def
      descend_loop_numeral finalize_up_numeral erase_node_def set_node_def)

lemma demo_header13:
  "getBlockHeader demo_codec in_memory 13 \<lparr>bst_storage = demo_store1, bst_block_tree_leaves = None\<rparr> =
     Inr (getHeader demo_codec (sb_block demo_signed_block))"
  by (simp add: getBlockHeader_def fetchBlockHeader_def getFromSpace_def demo_store1_def in_memory_def ims_tryGet_def
      getSpace_def decode_def demo_codec_def getHeader_def demo_signed_block_def)

lemma demo_finalize:
  "\<exists>t'. BlockTree_finalize demo_codec in_memory 13 demo_block_tree1 = (Inr (), t') \<and> getLeaves t' = [13]"
proof -
  have fin: "getLastFinalizedNoLock demo_block_tree1 = Inr \<lparr>bi_slot = 0, bi_hash = 7\<rparr>"
    by (simp add: getLastFinalizedNoLock_def ct_finalized_def demo_block_tree1_def demo_tree1_def)
  obtain node where node: "find_node demo_tree1 13 = Some node" "ancestors_of demo_tree1 node = Inr [\<lparr>bi_slot = 0, bi_hash = 7\<rparr>]"
    by (simp add: demo_tree1_def find_node_def ancestors_of_def TreeNode_parent_def eval_nat_numeral)
  have "\<exists>t'. reorgAndPrune demo_codec in_memory \<lparr>rp_reorg = None, rp_prune = []\<rparr> (demo_block_tree1\<lparr>bt_tree := demo_tree2\<rparr>) = (Inr (), t')"
    by (simp add: reorgAndPrune_def bt_store_def setBlockTreeLeaves_def Let_def demo_block_tree1_def demo_store1_def demo_run)
  then obtain t' where t': "reorgAndPrune demo_codec in_memory \<lparr>rp_reorg = None, rp_prune = []\<rparr>
      (demo_block_tree1\<lparr>bt_tree := demo_tree2\<rparr>) = (Inr (), t')" by blast
  have tr: "bt_tree demo_block_tree1 = demo_tree1"
    "bt_storage demo_block_tree1 = \<lparr>bst_storage = demo_store1, bst_block_tree_leaves = None\<rparr>"
    by (simp_all add: demo_block_tree1_def)
  have "bt_tree t' = demo_tree2" using reorgAndPrune_tree[OF t'] by simp
  then have "getLeaves t' = [13]" by (simp add: getLeaves_def getLeavesNoLock_def leafHashes_def demo_tree2_def)
  then show ?thesis
    by (simp add: BlockTree_finalize_def TRY_def READ_def bt_read_def fin tr node demo_header13 bt_cached_def demo_finalize2 t'
        bt_notify_def getLeaves_def getLeavesNoLock_def)
qed

lemma demo_synced1: "tree_synced demo_codec demo_block_tree1"
proof -
  have "ct_ok demo_tree1"
    by (auto simp: demo_tree1_def ct_ok_def tree_ok_def node_ok_def leaves_ok_def best_ok_def split: if_splits)
  moreover have "h < 2 ^ 256" if "find_node demo_tree1 h \<noteq> None" for h
    using that by (auto simp: demo_tree1_def find_node_def split: if_splits)
  ultimately show ?thesis by (simp add: tree_synced_def demo_block_tree1_def)
qed

theorem finalize_prunes_storage_witness:
  "\<exists>t'. BlockTree_finalize demo_codec in_memory 13 demo_block_tree1 = (Inr (), t') \<and>
     tree_synced demo_codec t' \<and> ct_root (bt_tree t') = 13"
proof -
  obtain t' where t': "BlockTree_finalize demo_codec in_memory 13 demo_block_tree1 = (Inr (), t')" "getLeaves t' = [13]"
    using demo_finalize by blast
  have n: "find_node (bt_tree demo_block_tree1) 13 \<noteq> None" by (simp add: demo_block_tree1_def demo_tree1_def find_node_def)
  have "dec_hashes demo_codec (enc_hashes demo_codec (sort (getLeaves t'))) = Some (sort (getLeaves t'))"
    unfolding t'(2) by (simp add: demo_codec_def hash_bytes_def upt_rec)
  from finalize_prunes_storage[OF demo_synced1 t'(1) n this, of 7] t'(1) show ?thesis by simp
qed

text \<open>
  A block that is not stored is reported as an error, never as absent: the check for
  the block tree's own error code does not match the storage's, so
  \<^verbatim>\<open>tryGetBlockHeader\<close> and \<^verbatim>\<open>tryGetSignedBlock\<close> return no
  empty optional.
\<close>

theorem tryGet_never_absent:
  "BlockTree_tryGetBlockHeader z in_memory h t \<noteq> Inr None \<and> tryGetSignedBlock z in_memory h t \<noteq> Inr None \<and>
   (getBlockHeader z in_memory h (bt_storage t) = Inl (E_BS BS_HEADER_NOT_FOUND) \<longleftrightarrow>
    BlockTree_tryGetBlockHeader z in_memory h t = Inl (E_BS BS_HEADER_NOT_FOUND))"
proof -
  have read: "getFromSpace in_memory s space k \<noteq> Inl e" for s space k e
    using mem.tryGet_total[of s space] by (simp add: getFromSpace_def)
  have hdr: "getBlockHeader z in_memory h st \<noteq> Inl (E_BT HEADER_NOT_FOUND)" for st
    using read by (auto simp: getBlockHeader_def fetchBlockHeader_def result_iffs decode_def split: option.splits if_splits)
  have "getSignedBlock z in_memory h st \<noteq> Inl (E_BT HEADER_NOT_FOUND)" for st
    using read hdr
    by (auto simp: getSignedBlock_def getBlock_def result_iffs decode_def split: option.splits if_splits)
  with hdr show ?thesis
    by (auto simp: BlockTree_tryGetBlockHeader_def tryGetSignedBlock_def split: sum.splits)
qed

text \<open>
  A descending chain has at most the requested number of hashes, starts with the
  requested block, and each hash is followed by the hash of its parent.
\<close>

theorem descending_chain_bounded:
  assumes "ct_ok (bt_tree t)" "getDescendingChainToBlock z in_memory h maximum t = Inr chain"
  shows "length chain \<le> maximum \<and> (chain \<noteq> [] \<longrightarrow> hd chain = h) \<and>
    (\<forall>i. Suc i < length chain \<longrightarrow> parent_link z in_memory t (chain ! i) (chain ! Suc i))"
  using descending_chain_ok[OF assms(1) assms(2)[unfolded getDescendingChainToBlock_def]]
  by (auto simp: chain_down_def)

theorem descending_chain_bounded_witness:
  "length [13 :: hash] \<le> 1 \<and> getDescendingChainToBlock demo_codec in_memory 13 1 demo_block_tree1 = Inr [13]"
proof -
  have c: "getDescendingChainToBlock demo_codec in_memory 13 1 demo_block_tree1 = Inr [13]"
    by (simp add: getDescendingChainToBlock_def getDescendingChainToBlockNoLock_def demo_block_tree1_def demo_tree1_def
        find_node_def TreeNode_parent_def)
  have "ct_ok (bt_tree demo_block_tree1)" using demo_synced1 by (simp add: tree_synced_def)
  from descending_chain_bounded[OF this c] c show ?thesis by simp
qed

end
