(* ===== verification/ForkChoice.thy ===== *)
theory ForkChoice
  imports BlockTree LruCache
begin

text \<open>
  The fork choice store of \<^verbatim>\<open>fork_choice.cpp\<close>.  The block tree, the cached states,
  the two stages of latest attestations and the signatures waiting for aggregation are
  the fields of the record \<open>ForkChoiceStore\<close>; its methods are actions on it.  Metrics and
  logging are left out, except that \<^verbatim>\<open>SL_FATAL\<close> ends the process.

  The signature scheme, the keys of the node, the registry of validators and the SSZ hash
  of a block are the fields of the parameter \<open>e\<close>.  Epochs are 32-bit in the signature
  interface, so slots are truncated there.  Loops that follow parents take the fuel of \<open>e\<close>.
\<close>

subsection \<open>Environment and state\<close>

record 's FcEnv =
  env_ssz :: ssz
  env_db :: "'s SpacedStorage"
  env_hash_block :: "Block \<Rightarrow> hash"
  env_verify :: "public_key \<Rightarrow> hash \<Rightarrow> nat \<Rightarrow> signature \<Rightarrow> bool"
  env_verifyAggregated :: "public_key list \<Rightarrow> nat \<Rightarrow> hash \<Rightarrow> bytes \<Rightarrow> bool"
  env_sign :: "bytes \<Rightarrow> nat \<Rightarrow> hash \<Rightarrow> signature"
  env_aggregate :: "public_key list list \<Rightarrow> bytes list \<Rightarrow> public_key list \<Rightarrow> signature list \<Rightarrow> nat \<Rightarrow> hash \<Rightarrow> bytes"
  env_keypair :: "public_key \<Rightarrow> bytes option"
  env_validator_indices :: "validator_index list"
  env_fuel :: nat

record AttestationsByData =
  abd_data :: AttestationData
  abd_signatures :: "(validator_index, signature) omap"
  abd_proofs :: "AggregatedSignatureProof list"

type_synonym AttestationDataByValidator = "(validator_index, AttestationData) umap"

record 's ForkChoiceStore =
  fc_block_tree :: "'s BlockTree"
  fc_time :: nat
  fc_config :: Config
  fc_head :: Checkpoint
  fc_safe_target :: Checkpoint
  fc_states :: "(hash, State) lru"
  fc_latest_known_attestations :: AttestationDataByValidator
  fc_latest_new_attestations :: AttestationDataByValidator
  fc_attestations_by_data :: "(hash, AttestationsByData) umap"
  fc_validator_id :: validator_index
  fc_is_aggregator :: bool
  fc_subnet_count :: nat
  fc_dont_propose :: bool
  fc_anchor_block_slots :: "(hash, slot) umap"

definition kStateCacheSize :: nat where
  "kStateCacheSize = 16"

definition on_tree :: "('s BlockTree, 'a) action \<Rightarrow> ('s ForkChoiceStore, 'a) action" where
  "on_tree m fc = (case m (fc_block_tree fc) of (r, t) \<Rightarrow> (r, fc\<lparr>fc_block_tree := t\<rparr>))"

definition epoch :: "slot \<Rightarrow> nat" where
  "epoch slot = slot mod 2 ^ 32"

definition dontPropose :: "'s ForkChoiceStore \<Rightarrow> 's ForkChoiceStore" where
  "dontPropose fc = fc\<lparr>fc_dont_propose := True\<rparr>"

definition attestationPayload :: "ssz \<Rightarrow> AttestationData \<Rightarrow> hash" where
  "attestationPayload z attestation_data = hash_attdata z attestation_data"

definition validatorSubnet :: "validator_index \<Rightarrow> nat \<Rightarrow> nat result" where
  "validatorSubnet validator_index subnet_count =
     (if subnet_count = 0 then Inl (Exn DivisionByZero) else Inr (validator_index mod subnet_count))"

definition ceilDiv :: "nat \<Rightarrow> nat \<Rightarrow> nat" where
  "ceilDiv l r = (l + r - 1) div r"

subsection \<open>Queries\<close>

definition getCurrentSlot :: "'s ForkChoiceStore \<Rightarrow> slot" where
  "getCurrentSlot fc = Interval_slot (fc_time fc)"

definition getHead :: "'s ForkChoiceStore \<Rightarrow> Checkpoint" where
  "getHead fc = fc_head fc"

definition loadState :: "'s FcEnv \<Rightarrow> hash \<Rightarrow> 's ForkChoiceStore \<Rightarrow> State result" where
  "loadState e block_hash fc =
     OUTCOME_TRY (getState (env_ssz e) (env_db e) block_hash (bt_storage (fc_block_tree fc))) (\<lambda>state_opt.
       case state_opt of Some state \<Rightarrow> Inr state | None \<Rightarrow> Inl (E_FC STATE_NOT_FOUND))"

definition ForkChoice_getState :: "'s FcEnv \<Rightarrow> hash \<Rightarrow> ('s ForkChoiceStore, State) action" where
  "ForkChoice_getState e block_hash fc =
     (case lru_get_else block_hash (loadState e block_hash fc) (fc_states fc) of
        (r, c) \<Rightarrow> (r, fc\<lparr>fc_states := c\<rparr>))"

definition hasBlock :: "'s FcEnv \<Rightarrow> hash \<Rightarrow> 's ForkChoiceStore \<Rightarrow> bool result" where
  "hasBlock e h fc = BlockTree_has (env_db e) h (fc_block_tree fc)"

definition getBlockSlot :: "'s FcEnv \<Rightarrow> hash \<Rightarrow> 's ForkChoiceStore \<Rightarrow> slot result" where
  "getBlockSlot e block_hash fc =
     (case map_of (fc_anchor_block_slots fc) block_hash of
        Some slot \<Rightarrow> Inr slot
      | None \<Rightarrow> getSlotByHash (env_ssz e) (env_db e) block_hash (fc_block_tree fc))"

definition getLatestFinalized :: "'s ForkChoiceStore \<Rightarrow> Checkpoint result" where
  "getLatestFinalized fc = OUTCOME_TRY (lastFinalized (fc_block_tree fc)) (\<lambda>i. Inr (toCheckpoint i))"

definition ForkChoice_getLatestJustified :: "'s ForkChoiceStore \<Rightarrow> Checkpoint" where
  "ForkChoice_getLatestJustified fc = getLatestJustified (fc_block_tree fc)"

definition getSafeTarget :: "'s ForkChoiceStore \<Rightarrow> Checkpoint" where
  "getSafeTarget fc = fc_safe_target fc"

subsection \<open>LMD-GHOST\<close>

definition get_weight :: "(hash, nat) umap \<Rightarrow> hash \<Rightarrow> nat" where
  "get_weight weights h = (case map_of weights h of Some w \<Rightarrow> w | None \<Rightarrow> 0)"

text \<open>A vote climbs from its head towards the anchor and adds one to every block it passes.\<close>

fun climb_vote ::
  "nat \<Rightarrow> 's FcEnv \<Rightarrow> slot \<Rightarrow> 's BlockTree \<Rightarrow> hash \<Rightarrow> (hash, nat) umap \<Rightarrow> (hash, nat) umap result" where
  "climb_vote 0 e start_slot t current weights = Inl (Exn Diverges)"
| "climb_vote (Suc fuel) e start_slot t current weights =
     (case BlockTree_tryGetBlockHeader (env_ssz e) (env_db e) current t of
        Inl err \<Rightarrow> if is_exn err then Inl err else Inr weights
      | Inr None \<Rightarrow> Inr weights
      | Inr (Some header) \<Rightarrow>
          if hdr_slot header \<le> start_slot then Inr weights
          else climb_vote fuel e start_slot t (hdr_parent_root header)
                 (AList.update current (u64_add (get_weight weights current) 1) weights))"

definition collect_weights ::
  "'s FcEnv \<Rightarrow> slot \<Rightarrow> 's BlockTree \<Rightarrow> AttestationDataByValidator \<Rightarrow> (hash, nat) umap result" where
  "collect_weights e start_slot t attestations =
     fold_result (\<lambda>a. climb_vote (env_fuel e) e start_slot t (cp_root (ad_head (snd a)))) attestations []"

text \<open>\<^verbatim>\<open>std::max_element\<close> with the comparison of weight, then hash.\<close>

definition child_less :: "(hash, nat) umap \<Rightarrow> hash \<Rightarrow> hash \<Rightarrow> bool" where
  "child_less weights lhs rhs =
     (if get_weight weights lhs = get_weight weights rhs then lhs < rhs
      else get_weight weights lhs < get_weight weights rhs)"

fun best_child :: "(hash, nat) umap \<Rightarrow> hash \<Rightarrow> hash list \<Rightarrow> hash" where
  "best_child weights best [] = best"
| "best_child weights best (c # cs) = best_child weights (if child_less weights best c then c else best) cs"

fun ghost_walk ::
  "nat \<Rightarrow> 's FcEnv \<Rightarrow> 's BlockTree \<Rightarrow> (hash, nat) umap \<Rightarrow> nat \<Rightarrow> hash \<Rightarrow> hash result" where
  "ghost_walk 0 e t weights min_score head = Inl (Exn Diverges)"
| "ghost_walk (Suc fuel) e t weights min_score head =
     (case getChildren (env_ssz e) (env_db e) head t of
        Inl err \<Rightarrow> if is_exn err then Inl err else Inr head
      | Inr children0 \<Rightarrow>
          let children = (if min_score > 0 then filter (\<lambda>h. \<not> get_weight weights h < min_score) children0
                          else children0)
          in case children of
               [] \<Rightarrow> Inr head
             | c # cs \<Rightarrow> ghost_walk fuel e t weights min_score (best_child weights c cs))"

definition computeLmdGhostHead ::
  "'s FcEnv \<Rightarrow> hash \<Rightarrow> AttestationDataByValidator \<Rightarrow> nat \<Rightarrow> 's ForkChoiceStore \<Rightarrow> hash result" where
  "computeLmdGhostHead e start_root attestations min_score fc =
     (let t = fc_block_tree fc in
      OUTCOME_TRY (if start_root = kZeroHash then Inr False else BlockTree_has (env_db e) start_root t) (\<lambda>known.
      OUTCOME_TRY (if known then Inr start_root
                   else OUTCOME_TRY (lastFinalized t) (\<lambda>i. Inr (bi_hash i))) (\<lambda>anchor.
      OUTCOME_TRY (getBlockSlot e anchor fc) (\<lambda>start_slot.
      OUTCOME_TRY (collect_weights e start_slot t attestations) (\<lambda>weights.
      ghost_walk (env_fuel e) e t weights min_score anchor)))))"

subsection \<open>Safe target and head\<close>

definition updateSafeTarget :: "'s FcEnv \<Rightarrow> ('s ForkChoiceStore, unit) action" where
  "updateSafeTarget e =
     TRY (\<lambda>fc. ForkChoice_getState e (cp_root (fc_head fc)) fc) (\<lambda>head_state.
     let min_target_score = ceilDiv (validatorCount head_state * 2) 3 in
     TRY (READ (\<lambda>fc. computeLmdGhostHead e (cp_root (getLatestJustified (fc_block_tree fc)))
                        (fc_latest_new_attestations fc) min_target_score fc)) (\<lambda>lmd_ghost_head.
     TRY (READ (getBlockSlot e lmd_ghost_head)) (\<lambda>slot fc.
     (Inr (), fc\<lparr>fc_safe_target := \<lparr>cp_root = lmd_ghost_head, cp_slot = slot\<rparr>\<rparr>))))"

definition lift_one :: "'s FcEnv \<Rightarrow> 's BlockTree \<Rightarrow> Checkpoint \<Rightarrow> Checkpoint result" where
  "lift_one e t cp =
     OUTCOME_TRY (BlockTree_getBlockHeader (env_ssz e) (env_db e) (cp_root cp) t) (\<lambda>header.
     OUTCOME_TRY (getSlotByHash (env_ssz e) (env_db e) (hdr_parent_root header) t) (\<lambda>parent_slot.
     Inr \<lparr>cp_root = hdr_parent_root header, cp_slot = parent_slot\<rparr>))"

text \<open>The detection of a reorganisation; its result only feeds metrics, its failures do not.\<close>

fun common_ancestor :: "nat \<Rightarrow> 's FcEnv \<Rightarrow> 's BlockTree \<Rightarrow> Checkpoint \<Rightarrow> Checkpoint \<Rightarrow> Checkpoint result" where
  "common_ancestor 0 e t a b = Inl (Exn Diverges)"
| "common_ancestor (Suc fuel) e t a b =
     (if cp_root a = cp_root b then Inr a
      else if cp_slot a > cp_slot b
      then OUTCOME_TRY (lift_one e t a) (\<lambda>a'. common_ancestor fuel e t a' b)
      else if cp_slot b > cp_slot a
      then OUTCOME_TRY (lift_one e t b) (\<lambda>b'. common_ancestor fuel e t a b')
      else OUTCOME_TRY (lift_one e t a) (\<lambda>a'. OUTCOME_TRY (lift_one e t b) (\<lambda>b'.
             common_ancestor fuel e t a' b')))"

definition updateHead :: "'s FcEnv \<Rightarrow> ('s ForkChoiceStore, unit) action" where
  "updateHead e =
     TRY (READ (\<lambda>fc. computeLmdGhostHead e (cp_root (getLatestJustified (fc_block_tree fc)))
                        (fc_latest_known_attestations fc) 0 fc)) (\<lambda>root.
     TRY (READ (getBlockSlot e root)) (\<lambda>slot.
     let lmd_ghost_head = \<lparr>cp_root = root, cp_slot = slot\<rparr> in
     TRY (READ (\<lambda>fc. if cp_root (fc_head fc) \<noteq> root
                      then common_ancestor (env_fuel e) e (fc_block_tree fc) (fc_head fc) lmd_ghost_head
                      else Inr lmd_ghost_head)) (\<lambda>_ fc.
     (Inr (), fc\<lparr>fc_head := lmd_ghost_head\<rparr>))))"

definition acceptNewAttestations :: "'s FcEnv \<Rightarrow> ('s ForkChoiceStore, unit) action" where
  "acceptNewAttestations e fc =
     updateHead e
       (fc\<lparr>fc_latest_known_attestations :=
             fold (\<lambda>(validator, attestation). AList.update validator attestation)
               (fc_latest_new_attestations fc) (fc_latest_known_attestations fc),
           fc_latest_new_attestations := []\<rparr>)"

subsection \<open>Attestation targets\<close>

definition get_slot_and_parent ::
  "'s FcEnv \<Rightarrow> 's BlockTree \<Rightarrow> Checkpoint \<Rightarrow> hash option \<Rightarrow> hash \<Rightarrow> (slot \<times> hash) result" where
  "get_slot_and_parent e t head head_parent_hash h =
     (if head_parent_hash \<noteq> None \<and> h = cp_root head then Inr (cp_slot head, the head_parent_hash)
      else case BlockTree_getBlockHeader (env_ssz e) (env_db e) h t of
             Inl err \<Rightarrow> Inl (if is_exn err then err else Exn FatalLog)
           | Inr header \<Rightarrow> Inr (hdr_slot header, hdr_parent_root header))"

fun lookback :: "nat \<Rightarrow> (hash \<Rightarrow> (slot \<times> hash) result) \<Rightarrow> slot \<Rightarrow> hash \<Rightarrow> hash result" where
  "lookback 0 get lookback_limit root = Inr root"
| "lookback (Suc i) get lookback_limit root =
     OUTCOME_TRY (get root) (\<lambda>(slot, parent).
       if slot > lookback_limit then lookback i get lookback_limit parent else Inr root)"

fun to_justifiable :: "nat \<Rightarrow> (hash \<Rightarrow> (slot \<times> hash) result) \<Rightarrow> slot \<Rightarrow> hash \<Rightarrow> hash result" where
  "to_justifiable 0 get finalized root = Inl (Exn Diverges)"
| "to_justifiable (Suc fuel) get finalized root =
     OUTCOME_TRY (get root) (\<lambda>(slot, parent).
     OUTCOME_TRY (isJustifiableSlot finalized slot) (\<lambda>justifiable.
       if justifiable then Inr root else to_justifiable fuel get finalized parent))"

definition getAttestationTarget ::
  "'s FcEnv \<Rightarrow> Checkpoint \<Rightarrow> Checkpoint \<Rightarrow> hash option \<Rightarrow> 's ForkChoiceStore \<Rightarrow> Checkpoint result" where
  "getAttestationTarget e justified head head_parent_hash fc =
     (let get = get_slot_and_parent e (fc_block_tree fc) head head_parent_hash;
          lookback_limit = max (cp_slot (fc_safe_target fc)) (cp_slot justified)
      in OUTCOME_TRY (lookback JUSTIFICATION_LOOKBACK_SLOTS get lookback_limit (cp_root head)) (\<lambda>root1.
         OUTCOME_TRY (lastFinalized (fc_block_tree fc)) (\<lambda>finalized.
         OUTCOME_TRY (to_justifiable (env_fuel e) get (bi_slot finalized) root1) (\<lambda>root.
         OUTCOME_TRY (get root) (\<lambda>(slot, _).
         Inr \<lparr>cp_root = root, cp_slot = slot\<rparr>)))))"

definition produceAttestation ::
  "'s FcEnv \<Rightarrow> slot \<Rightarrow> validator_index \<Rightarrow> Checkpoint \<Rightarrow> Checkpoint \<Rightarrow> hash option \<Rightarrow>
   's ForkChoiceStore \<Rightarrow> Attestation result" where
  "produceAttestation e slot validator_index justified head head_parent_hash fc =
     OUTCOME_TRY (getAttestationTarget e justified head head_parent_hash fc) (\<lambda>target.
       Inr \<lparr>at_validator_id = validator_index,
            at_data = \<lparr>ad_slot = slot, ad_head = head, ad_target = target, ad_source = justified\<rparr>\<rparr>)"

subsection \<open>Attestation validation\<close>

definition has_block :: "'s FcEnv \<Rightarrow> hash \<Rightarrow> 's ForkChoiceStore \<Rightarrow> bool result" where
  "has_block e h fc =
     (if map_of (fc_anchor_block_slots fc) h \<noteq> None then Inr True
      else BlockTree_has (env_db e) h (fc_block_tree fc))"

text \<open>Whether a checkpoint carries the slot of its block.\<close>

definition slot_consistent :: "'s FcEnv \<Rightarrow> Checkpoint \<Rightarrow> 's ForkChoiceStore \<Rightarrow> bool result" where
  "slot_consistent e cp fc =
     (case getBlockSlot e (cp_root cp) fc of
        Inl err \<Rightarrow> if is_exn err then Inl err else Inr False
      | Inr slot \<Rightarrow> Inr (slot = cp_slot cp))"

definition validateAttestation :: "'s FcEnv \<Rightarrow> Attestation \<Rightarrow> 's ForkChoiceStore \<Rightarrow> unit result" where
  "validateAttestation e attestation fc =
     (let data = at_data attestation in
      OUTCOME_TRY (has_block e (cp_root (ad_source data)) fc) (\<lambda>source_known.
      if \<not> source_known then Inl (E_FC CANT_VALIDATE_ATTESTATION_SOURCE_NOT_FOUND)
      else OUTCOME_TRY (has_block e (cp_root (ad_target data)) fc) (\<lambda>target_known.
      if \<not> target_known then Inl (E_FC CANT_VALIDATE_ATTESTATION_TARGET_NOT_FOUND)
      else OUTCOME_TRY (has_block e (cp_root (ad_head data)) fc) (\<lambda>head_known.
      if \<not> head_known then Inl (E_FC CANT_VALIDATE_ATTESTATION_HEAD_NOT_FOUND)
      else if cp_slot (ad_source data) > cp_slot (ad_target data) then Inl (E_FC INVALID_ATTESTATION)
      else if cp_slot (ad_head data) < cp_slot (ad_target data) then Inl (E_FC INVALID_ATTESTATION)
      else OUTCOME_TRY (slot_consistent e (ad_source data) fc) (\<lambda>source_ok.
      if \<not> source_ok then Inl (E_FC INVALID_ATTESTATION)
      else OUTCOME_TRY (slot_consistent e (ad_target data) fc) (\<lambda>target_ok.
      if \<not> target_ok then Inl (E_FC INVALID_ATTESTATION)
      else if ad_slot data > u64_add (getCurrentSlot fc) 1 then Inl (E_FC INVALID_ATTESTATION)
      else Inr ()))))))"

subsection \<open>Latest attestations\<close>

definition onAttestation :: "'s FcEnv \<Rightarrow> Attestation \<Rightarrow> bool \<Rightarrow> ('s ForkChoiceStore, unit) action" where
  "onAttestation e attestation is_from_block =
     TRY (READ (validateAttestation e attestation)) (\<lambda>_ fc.
     let validator_id = at_validator_id attestation;
         data = at_data attestation;
         attestation_slot = ad_slot data;
         newer = (\<lambda>m. case map_of m validator_id of None \<Rightarrow> True | Some a \<Rightarrow> ad_slot a < attestation_slot)
     in if is_from_block
        then let known = fc_latest_known_attestations fc;
                 new = fc_latest_new_attestations fc
             in (Inr (), fc\<lparr>fc_latest_known_attestations :=
                              (if newer known then AList.update validator_id data known else known),
                            fc_latest_new_attestations :=
                              (case map_of new validator_id of
                                 Some a \<Rightarrow> if ad_slot a \<le> attestation_slot then AList.delete validator_id new else new
                               | None \<Rightarrow> new)\<rparr>)
        else if attestation_slot > getCurrentSlot fc then (Inl (E_FC INVALID_ATTESTATION), fc)
        else let new = fc_latest_new_attestations fc
             in (Inr (), fc\<lparr>fc_latest_new_attestations :=
                              (if newer new then AList.update validator_id data new else new)\<rparr>))"

subsection \<open>Signatures waiting for aggregation\<close>

definition attestationsByData :: "ssz \<Rightarrow> AttestationData \<Rightarrow> 's ForkChoiceStore \<Rightarrow> AttestationsByData" where
  "attestationsByData z data fc =
     (case map_of (fc_attestations_by_data fc) (hash_attdata z data) of
        Some a \<Rightarrow> a
      | None \<Rightarrow> \<lparr>abd_data = data, abd_signatures = [], abd_proofs = []\<rparr>)"

definition put_by_data :: "ssz \<Rightarrow> AttestationData \<Rightarrow> AttestationsByData \<Rightarrow> 's ForkChoiceStore \<Rightarrow> 's ForkChoiceStore" where
  "put_by_data z data a fc =
     fc\<lparr>fc_attestations_by_data := AList.update (hash_attdata z data) a (fc_attestations_by_data fc)\<rparr>"

definition add_signature :: "validator_index \<Rightarrow> signature \<Rightarrow> AttestationsByData \<Rightarrow> AttestationsByData" where
  "add_signature validator_index sig a =
     (if \<exists>proof \<in> set (abd_proofs a). AggregationBits_contains (pf_participants proof) validator_index then a
      else a\<lparr>abd_signatures := omap_put validator_index sig (abd_signatures a)\<rparr>)"

definition addSignatureToAggregate ::
  "'s FcEnv \<Rightarrow> AttestationData \<Rightarrow> validator_index \<Rightarrow> signature \<Rightarrow> ('s ForkChoiceStore, unit) action" where
  "addSignatureToAggregate e data validator_index sig =
     TRY (READ getLatestFinalized) (\<lambda>finalized fc.
     if cp_slot (ad_target data) < cp_slot finalized then (Inr (), fc)
     else (Inr (), put_by_data (env_ssz e) data
                     (add_signature validator_index sig (attestationsByData (env_ssz e) data fc)) fc))"

definition bits_subset :: "AggregationBits \<Rightarrow> AggregationBits \<Rightarrow> bool" where
  "bits_subset a b \<longleftrightarrow> (\<forall>i \<in> set (AggregationBits_iter a). AggregationBits_contains b i)"

definition add_proof :: "AggregatedSignatureProof \<Rightarrow> AttestationsByData \<Rightarrow> AttestationsByData" where
  "add_proof new a =
     (let retained = filter (\<lambda>proof. \<not> bits_subset (pf_participants proof) (pf_participants new)
                                    \<or> bits_subset (pf_participants new) (pf_participants proof)) (abd_proofs a);
          existing_bits = fold (\<lambda>proof bits. fold (\<lambda>i b. AggregationBits_add b i)
                                   (AggregationBits_iter (pf_participants proof)) bits) retained []
      in if bits_subset (pf_participants new) existing_bits then a\<lparr>abd_proofs := retained\<rparr>
         else a\<lparr>abd_proofs := retained @ [new],
                abd_signatures := fold omap_erase (AggregationBits_iter (pf_participants new)) (abd_signatures a)\<rparr>)"

definition addProofToAggregate ::
  "'s FcEnv \<Rightarrow> SignedAggregatedAttestation \<Rightarrow> ('s ForkChoiceStore, unit) action" where
  "addProofToAggregate e saa =
     TRY (READ getLatestFinalized) (\<lambda>finalized fc.
     let data = saa_data saa in
     if cp_slot (ad_target data) < cp_slot finalized then (Inr (), fc)
     else (Inr (), put_by_data (env_ssz e) data (add_proof (saa_proof saa) (attestationsByData (env_ssz e) data fc)) fc))"

definition onAggregatedAttestation ::
  "'s FcEnv \<Rightarrow> SignedAggregatedAttestation \<Rightarrow> bool \<Rightarrow> ('s ForkChoiceStore, unit) action" where
  "onAggregatedAttestation e saa is_from_block =
     FOREACH (\<lambda>validator_id.
       TRY (addProofToAggregate e saa) (\<lambda>_.
       onAttestation e \<lparr>at_validator_id = validator_id, at_data = saa_data saa\<rparr> is_from_block))
       (AggregationBits_iter (pf_participants (saa_proof saa)))"

definition prune :: "slot \<Rightarrow> 's ForkChoiceStore \<Rightarrow> 's ForkChoiceStore" where
  "prune finalized_slot fc =
     fc\<lparr>fc_attestations_by_data :=
          filter (\<lambda>(_, a). cp_slot (ad_target (abd_data a)) > finalized_slot) (fc_attestations_by_data fc)\<rparr>"

subsection \<open>Signatures\<close>

definition validateAggregatedSignature ::
  "'s FcEnv \<Rightarrow> State \<Rightarrow> AttestationData \<Rightarrow> AggregatedSignatureProof \<Rightarrow> bool" where
  "validateAggregatedSignature e state attestation sig =
     (let ids = AggregationBits_iter (pf_participants sig) in
      if \<exists>i \<in> set ids. i \<ge> length (st_validators state) then False
      else env_verifyAggregated e (map (\<lambda>i. va_attestation_pubkey (st_validators state ! i)) ids)
             (epoch (ad_slot attestation)) (attestationPayload (env_ssz e) attestation) (pf_data sig))"

definition validateBlockSignatures :: "'s FcEnv \<Rightarrow> SignedBlock \<Rightarrow> ('s ForkChoiceStore, bool) action" where
  "validateBlockSignatures e signed_block =
     (let block = sb_block signed_block;
          attestations = bd_attestations (blk_body block);
          signatures = bs_attestation_signatures (sb_signature signed_block)
      in if length signatures \<noteq> length attestations then OK False
         else
           TRY (CATCH (TRY (ForkChoice_getState e (blk_parent_root block)) (\<lambda>s. OK (Some s))) (\<lambda>_. OK None)) (\<lambda>res.
           case res of
             None \<Rightarrow> OK False
           | Some parent_state \<Rightarrow>
               if \<not> list_all (\<lambda>(a, s). validateAggregatedSignature e parent_state (aa_data a) s)
                      (zip attestations signatures)
               then OK False
               else if blk_proposer_index block \<ge> length (st_validators parent_state)
               then FAIL (Exn OutOfRange)
               else OK (env_verify e
                          (va_proposal_pubkey (st_validators parent_state ! blk_proposer_index block))
                          (env_hash_block e block) (epoch (blk_slot block))
                          (bs_proposer_signature (sb_signature signed_block)))))"

definition onGossipAttestation :: "'s FcEnv \<Rightarrow> SignedAttestation \<Rightarrow> ('s ForkChoiceStore, unit) action" where
  "onGossipAttestation e sa =
     TRY (READ (validateAttestation e \<lparr>at_validator_id = sa_validator_id sa, at_data = sa_data sa\<rparr>)) (\<lambda>_.
     TRY (ForkChoice_getState e (cp_root (ad_target (sa_data sa)))) (\<lambda>state.
     if sa_validator_id sa \<ge> length (st_validators state) then FAIL (E_FC INVALID_ATTESTATION)
     else if \<not> env_verify e (va_attestation_pubkey (st_validators state ! sa_validator_id sa))
                 (attestationPayload (env_ssz e) (sa_data sa)) (epoch (ad_slot (sa_data sa))) (sa_signature sa)
     then FAIL (E_FC INVALID_ATTESTATION)
     else (\<lambda>fc.
       if \<not> fc_is_aggregator fc then (Inr (), fc)
       else TRY (LIFT (validatorSubnet (sa_validator_id sa) (fc_subnet_count fc))) (\<lambda>a.
            TRY (LIFT (validatorSubnet (fc_validator_id fc) (fc_subnet_count fc))) (\<lambda>b.
            if a = b then addSignatureToAggregate e (sa_data sa) (sa_validator_id sa) (sa_signature sa)
            else OK ())) fc)))"

definition onGossipAggregatedAttestation ::
  "'s FcEnv \<Rightarrow> SignedAggregatedAttestation \<Rightarrow> ('s ForkChoiceStore, unit) action" where
  "onGossipAggregatedAttestation e saa =
     TRY (ForkChoice_getState e (cp_root (ad_target (saa_data saa)))) (\<lambda>state.
     if \<not> validateAggregatedSignature e state (saa_data saa) (saa_proof saa) then OK ()
     else onAggregatedAttestation e saa False)"

end
