(* ===== verification/ForkTick.thy ===== *)
theory ForkTick
  imports ForkChoice
begin

text \<open>
  The part of \<^verbatim>\<open>fork_choice.cpp\<close> that drives the store: the import of a block, the
  production of blocks, aggregation, the clock tick with its five phases, the report of
  the fork choice API and the two constructors.
\<close>

subsection \<open>Import of a block\<close>

definition cacheState :: "hash \<Rightarrow> State \<Rightarrow> ('s ForkChoiceStore, unit) action" where
  "cacheState h state fc =
     (case lru_put h state (fc_states fc) of
        Inl err \<Rightarrow> (Inl err, fc)
      | Inr (_, c) \<Rightarrow> (Inr (), fc\<lparr>fc_states := c\<rparr>))"

definition update_checkpoints :: "'s FcEnv \<Rightarrow> State \<Rightarrow> ('s ForkChoiceStore, unit) action" where
  "update_checkpoints e post_state =
     TRY (\<lambda>fc. if cp_slot (st_latest_justified post_state) > cp_slot (getLatestJustified (fc_block_tree fc))
                then on_tree (BlockTree_setJustified (env_ssz e) (env_db e) (cp_root (st_latest_justified post_state))) fc
                else (Inr (), fc)) (\<lambda>_.
     TRY (READ (\<lambda>fc. lastFinalized (fc_block_tree fc))) (\<lambda>finalized.
     if cp_slot (st_latest_finalized post_state) > bi_slot finalized
     then TRY (on_tree (BlockTree_finalize (env_ssz e) (env_db e) (cp_root (st_latest_finalized post_state)))) (\<lambda>_ fc.
          (Inr (), prune (cp_slot (st_latest_finalized post_state)) fc))
     else OK ()))"

definition import_attestations :: "'s FcEnv \<Rightarrow> SignedBlock \<Rightarrow> ('s ForkChoiceStore, unit) action" where
  "import_attestations e signed_block =
     (let attestations = bd_attestations (blk_body (sb_block signed_block));
          signatures = bs_attestation_signatures (sb_signature signed_block)
      in if length signatures \<noteq> length attestations then FAIL (E_FC SIGNATURE_COUNT_MISMATCH)
         else if length attestations > MAX_ATTESTATIONS_DATA then FAIL (E_FC TOO_MANY_ATTESTATIONS)
         else FOREACH (\<lambda>(a, s). onAggregatedAttestation e \<lparr>saa_data = aa_data a, saa_proof = s\<rparr> True)
                (zip attestations signatures))"

definition onBlock :: "'s FcEnv \<Rightarrow> SignedBlock \<Rightarrow> ('s ForkChoiceStore, unit) action" where
  "onBlock e signed_block =
     (let block = sb_block signed_block;
          block_hash = Block_hash (env_ssz e) block
      in TRY (READ (\<lambda>fc. BlockTree_has (env_db e) block_hash (fc_block_tree fc))) (\<lambda>known.
         if known then OK ()
         else
           TRY (ForkChoice_getState e (blk_parent_root block)) (\<lambda>parent_state.
           TRY (validateBlockSignatures e signed_block) (\<lambda>valid_signatures.
           if \<not> valid_signatures then FAIL (E_FC INVALID_ATTESTATION)
           else
             TRY (LIFT (stateTransition (env_ssz e) block parent_state True)) (\<lambda>post_state.
             TRY (on_tree (addBlock (env_ssz e) (env_db e) signed_block)) (\<lambda>_.
             TRY (CATCH (on_tree (bt_store (putState (env_ssz e) (env_db e) block_hash post_state))) (\<lambda>_. OK ())) (\<lambda>_.
             TRY (update_checkpoints e post_state) (\<lambda>_.
             TRY (cacheState block_hash post_state) (\<lambda>_.
             TRY (import_attestations e signed_block) (\<lambda>_.
             updateHead e))))))))))"

subsection \<open>Production of a block\<close>

text \<open>\<^verbatim>\<open>SourceThenTarget\<close>: the lexicographic order of seven fields.\<close>

definition SourceThenTarget_tie :: "AttestationData \<Rightarrow> nat list" where
  "SourceThenTarget_tie v =
     [cp_slot (ad_source v), cp_root (ad_source v), cp_slot (ad_target v), cp_root (ad_target v),
      cp_slot (ad_head v), cp_root (ad_head v), ad_slot v]"

fun lex_less :: "nat list \<Rightarrow> nat list \<Rightarrow> bool" where
  "lex_less (x # xs) (y # ys) = (x < y \<or> x = y \<and> lex_less xs ys)"
| "lex_less [] (y # ys) = True"
| "lex_less xs [] = False"

fun sorted_emplace :: "AttestationData \<Rightarrow> AttestationData list \<Rightarrow> AttestationData list" where
  "sorted_emplace v [] = [v]"
| "sorted_emplace v (w # ws) =
     (if lex_less (SourceThenTarget_tie v) (SourceThenTarget_tie w) then v # w # ws
      else if lex_less (SourceThenTarget_tie w) (SourceThenTarget_tie v) then w # sorted_emplace v ws
      else w # ws)"

definition sorted_attestation_data :: "'s FcEnv \<Rightarrow> 's ForkChoiceStore \<Rightarrow> AttestationData list result" where
  "sorted_attestation_data e fc =
     fold_result (\<lambda>(_, data) acc.
       OUTCOME_TRY (BlockTree_has (env_db e) (cp_root (ad_head data)) (fc_block_tree fc)) (\<lambda>known.
       Inr (if known then sorted_emplace data acc else acc)))
       (fc_latest_known_attestations fc) []"

fun pack_attestations ::
  "'s FcEnv \<Rightarrow> State \<Rightarrow> Block \<Rightarrow> (hash, AttestationsByData) umap \<Rightarrow> AttestationData list \<Rightarrow> Checkpoint \<Rightarrow>
   AggregatedAttestation list \<Rightarrow> AggregatedSignatureProof list \<Rightarrow>
   (AggregatedAttestation list \<times> AggregatedSignatureProof list) result" where
  "pack_attestations e head_state block by_data [] expected_source atts proofs = Inr (atts, proofs)"
| "pack_attestations e head_state block by_data (data # rest) expected_source atts proofs =
     (if ad_source data \<noteq> expected_source
      then pack_attestations e head_state block by_data rest expected_source atts proofs
      else case map_of by_data (hash_attdata (env_ssz e) data) of
             None \<Rightarrow> Inr (atts, proofs)
           | Some attestations \<Rightarrow>
               if abd_proofs attestations = [] then Inr (atts, proofs)
               else let atts' = atts @ map (\<lambda>proof. \<lparr>aa_bits = pf_participants proof, aa_data = data\<rparr>)
                                         (abd_proofs attestations);
                        proofs' = proofs @ abd_proofs attestations
                    in OUTCOME_TRY (processSlots (env_ssz e) head_state (blk_slot block)) (\<lambda>post_state.
                       OUTCOME_TRY (processBlock (env_ssz e) post_state
                                      (block\<lparr>blk_body := \<lparr>bd_attestations = atts'\<rparr>\<rparr>)) (\<lambda>post_state.
                       pack_attestations e head_state block by_data rest (st_latest_justified post_state)
                         atts' proofs')))"

definition getProposalAttestations ::
  "'s FcEnv \<Rightarrow> slot \<Rightarrow> validator_index \<Rightarrow> hash \<Rightarrow>
   ('s ForkChoiceStore, AggregatedAttestation list \<times> AggregatedSignatureProof list) action" where
  "getProposalAttestations e slot proposer_index parent_root =
     TRY (ForkChoice_getState e parent_root) (\<lambda>head_state.
     TRY (READ (sorted_attestation_data e)) (\<lambda>sorted_data.
     READ (\<lambda>fc. pack_attestations e head_state
                   \<lparr>blk_slot = slot, blk_proposer_index = proposer_index, blk_parent_root = parent_root,
                    blk_state_root = kZeroHash, blk_body = \<lparr>bd_attestations = []\<rparr>\<rparr>
                   (fc_attestations_by_data fc) sorted_data (st_latest_justified head_state) [] [])))"

definition validators_at :: "State \<Rightarrow> validator_index \<Rightarrow> Validator result" where
  "validators_at state i =
     (if i < length (st_validators state) then Inr (st_validators state ! i) else Inl (Exn OutOfRange))"

definition produceBlockWithSignatures ::
  "'s FcEnv \<Rightarrow> slot \<Rightarrow> validator_index \<Rightarrow> ('s ForkChoiceStore, SignedBlock) action" where
  "produceBlockWithSignatures e slot proposer_index fc0 =
     (let head_root = cp_root (fc_head fc0) in
      TRY (ForkChoice_getState e head_root) (\<lambda>head_state.
      TRY (LIFT (isProposer proposer_index slot (validatorCount head_state))) (\<lambda>is_proposer.
      if \<not> is_proposer then FAIL (E_FC FC_INVALID_PROPOSER)
      else
        TRY (LIFT (validators_at head_state proposer_index)) (\<lambda>validator.
        case env_keypair e (va_proposal_pubkey validator) of
          None \<Rightarrow> FAIL (E_FC NO_KEYPAIR)
        | Some private_key \<Rightarrow>
            TRY (getProposalAttestations e slot proposer_index head_root) (\<lambda>(atts, proofs).
            let block0 = \<lparr>blk_slot = slot, blk_proposer_index = proposer_index, blk_parent_root = head_root,
                          blk_state_root = kZeroHash, blk_body = \<lparr>bd_attestations = atts\<rparr>\<rparr>
            in TRY (LIFT (stateTransition (env_ssz e) block0 head_state False)) (\<lambda>state.
               let block = block0\<lparr>blk_state_root := hash_state (env_ssz e) state\<rparr>;
                   signed_block = \<lparr>sb_block = block,
                     sb_signature = \<lparr>bs_attestation_signatures = proofs,
                                     bs_proposer_signature = env_sign e private_key (epoch slot) (env_hash_block e block)\<rparr>\<rparr>
               in TRY (onBlock e signed_block) (\<lambda>_. OK signed_block)))))) fc0)"

subsection \<open>Aggregation\<close>

definition pubkeys_at :: "State \<Rightarrow> validator_index list \<Rightarrow> public_key list result" where
  "pubkeys_at state ids =
     fold_result (\<lambda>i keys. OUTCOME_TRY (validators_at state i) (\<lambda>v. Inr (keys @ [va_attestation_pubkey v]))) ids []"

definition add_bits :: "validator_index list \<Rightarrow> AggregationBits \<Rightarrow> AggregationBits" where
  "add_bits ids bits = fold (\<lambda>i b. AggregationBits_add b i) ids bits"

text \<open>The body of the loop for one attestation data: a single proof of everything gathered.\<close>

definition aggregate_one :: "'s FcEnv \<Rightarrow> State \<Rightarrow> AttestationsByData \<Rightarrow> AggregatedSignatureProof result" where
  "aggregate_one e state a =
     OUTCOME_TRY (pubkeys_at state (map fst (abd_signatures a))) (\<lambda>public_keys.
     OUTCOME_TRY (fold_result (\<lambda>proof child_keys.
                    OUTCOME_TRY (pubkeys_at state (AggregationBits_iter (pf_participants proof))) (\<lambda>keys.
                    Inr (child_keys @ [keys]))) (abd_proofs a) []) (\<lambda>child_public_keys.
     Inr \<lparr>pf_participants =
            fold (\<lambda>proof. add_bits (AggregationBits_iter (pf_participants proof))) (abd_proofs a)
              (add_bits (map fst (abd_signatures a)) []),
          pf_data = env_aggregate e child_public_keys (map pf_data (abd_proofs a)) public_keys
                      (map snd (abd_signatures a)) (epoch (ad_slot (abd_data a)))
                      (attestationPayload (env_ssz e) (abd_data a))\<rparr>))"

fun aggregate_entries ::
  "'s FcEnv \<Rightarrow> (hash, AttestationsByData) umap \<Rightarrow> ('s ForkChoiceStore, SignedAggregatedAttestation list) action" where
  "aggregate_entries e [] = OK []"
| "aggregate_entries e ((key, a) # rest) =
     (if abd_signatures a = [] \<and> length (abd_proofs a) \<le> 1 then aggregate_entries e rest
      else
        TRY (CATCH (TRY (ForkChoice_getState e (cp_root (ad_target (abd_data a)))) (\<lambda>s. OK (Some s))) (\<lambda>_. OK None)) (\<lambda>state_res.
        case state_res of
          None \<Rightarrow> aggregate_entries e rest
        | Some state \<Rightarrow>
            TRY (LIFT (aggregate_one e state a)) (\<lambda>proof.
            TRY (\<lambda>fc. (Inr (), fc\<lparr>fc_attestations_by_data :=
                   AList.update key (a\<lparr>abd_signatures := [], abd_proofs := [proof]\<rparr>) (fc_attestations_by_data fc)\<rparr>)) (\<lambda>_.
            TRY (aggregate_entries e rest) (\<lambda>more.
            OK (\<lparr>saa_data = abd_data a, saa_proof = proof\<rparr> # more))))))"

definition aggregateSignatures ::
  "'s FcEnv \<Rightarrow> ('s ForkChoiceStore, SignedAggregatedAttestation list) action" where
  "aggregateSignatures e fc = aggregate_entries e (fc_attestations_by_data fc) fc"

subsection \<open>The tick\<close>

datatype OnTickAction =
    SendAttestation SignedAttestation
  | SendAggregatedAttestation SignedAggregatedAttestation
  | SendBlock SignedBlock

text \<open>A failure with an error code is logged and the tick goes on.\<close>

definition LOGGED :: "('s, 'a) action \<Rightarrow> ('s, 'a option) action" where
  "LOGGED m = CATCH (TRY m (\<lambda>x. OK (Some x))) (\<lambda>_. OK None)"

definition FATAL :: "('s, 'a) action \<Rightarrow> ('s, 'a) action" where
  "FATAL m = CATCH m (\<lambda>_. FAIL (Exn FatalLog))"

definition tick_propose ::
  "'s FcEnv \<Rightarrow> nat \<Rightarrow> slot \<Rightarrow> State \<Rightarrow> ('s ForkChoiceStore, OnTickAction list \<times> State) action" where
  "tick_propose e validator_count current_slot head_state =
     (if current_slot = 0 then OK ([], head_state)
      else if validator_count = 0 then FAIL (Exn DivisionByZero)
      else let producer_index = current_slot mod validator_count in
        (\<lambda>fc. if producer_index \<in> set (env_validator_indices e) \<and> \<not> fc_dont_propose fc
          then TRY (LOGGED (acceptNewAttestations e)) (\<lambda>_.
               TRY (LOGGED (produceBlockWithSignatures e current_slot producer_index)) (\<lambda>res.
               case res of
                 None \<Rightarrow> OK ([], head_state)
               | Some produced_block \<Rightarrow>
                   TRY (FATAL (\<lambda>fc. ForkChoice_getState e (cp_root (fc_head fc)) fc)) (\<lambda>head_state'.
                   OK ([SendBlock produced_block], head_state')))) fc
          else (Inr ([], head_state), fc)))"

fun vote_loop ::
  "'s FcEnv \<Rightarrow> slot \<Rightarrow> State \<Rightarrow> Attestation option \<Rightarrow> validator_index list \<Rightarrow>
   ('s ForkChoiceStore, OnTickAction list) action" where
  "vote_loop e current_slot head_state attestation [] = OK []"
| "vote_loop e current_slot head_state attestation (validator_index # rest) = (\<lambda>fc.
     if fc_dont_propose fc then vote_loop e current_slot head_state attestation rest fc
     else
       TRY (LIFT (validators_at head_state validator_index)) (\<lambda>validator.
       case env_keypair e (va_attestation_pubkey validator) of
         None \<Rightarrow> vote_loop e current_slot head_state attestation rest
       | Some private_key \<Rightarrow>
           TRY (case attestation of
                  Some a \<Rightarrow> OK a
                | None \<Rightarrow> READ (\<lambda>fc. produceAttestation e current_slot validator_index
                                   (ForkChoice_getLatestJustified fc) (fc_head fc) None fc)) (\<lambda>a.
           let sig = env_sign e private_key (epoch current_slot) (attestationPayload (env_ssz e) (at_data a));
               signed_attestation = SignedAttestation_from a sig
           in TRY (LOGGED (onGossipAttestation e signed_attestation)) (\<lambda>res.
              TRY (vote_loop e current_slot head_state (Some a) rest) (\<lambda>more.
              OK (case res of None \<Rightarrow> more | Some _ \<Rightarrow> SendAttestation signed_attestation # more))))) fc)"

definition tick_vote ::
  "'s FcEnv \<Rightarrow> slot \<Rightarrow> State \<Rightarrow> ('s ForkChoiceStore, OnTickAction list) action" where
  "tick_vote e current_slot head_state =
     TRY (LOGGED (acceptNewAttestations e)) (\<lambda>_.
     TRY (READ (\<lambda>fc. getAttestationTarget e (ForkChoice_getLatestJustified fc) (fc_head fc) None fc)) (\<lambda>target fc.
     let source = getLatestJustified (fc_block_tree fc) in
     if cp_slot source > cp_slot target then (Inr [], fc)
     else vote_loop e current_slot head_state None (env_validator_indices e) fc))"

fun import_own ::
  "'s FcEnv \<Rightarrow> SignedAggregatedAttestation list \<Rightarrow> ('s ForkChoiceStore, OnTickAction list) action" where
  "import_own e [] = OK []"
| "import_own e (a # rest) =
     TRY (LOGGED (onGossipAggregatedAttestation e a)) (\<lambda>res.
     TRY (import_own e rest) (\<lambda>more.
     OK (case res of None \<Rightarrow> more | Some _ \<Rightarrow> SendAggregatedAttestation a # more)))"

definition tick_aggregate :: "'s FcEnv \<Rightarrow> ('s ForkChoiceStore, OnTickAction list) action" where
  "tick_aggregate e fc =
     (if fc_is_aggregator fc then TRY (aggregateSignatures e) (import_own e) fc else (Inr [], fc))"

definition tick_phase ::
  "'s FcEnv \<Rightarrow> nat \<Rightarrow> State \<Rightarrow> ('s ForkChoiceStore, OnTickAction list \<times> State) action" where
  "tick_phase e validator_count head_state fc =
     (let current_slot = getCurrentSlot fc;
          phase = Interval_phase (fc_time fc);
          keep = (\<lambda>actions. OK (actions, head_state))
      in if phase = 0 then tick_propose e validator_count current_slot head_state fc
         else if phase = 1 then TRY (tick_vote e current_slot head_state) keep fc
         else if phase = 2 then TRY (tick_aggregate e) keep fc
         else if phase = 3 then TRY (LOGGED (updateSafeTarget e)) (\<lambda>_. keep []) fc
         else if phase = 4 then TRY (LOGGED (acceptNewAttestations e)) (\<lambda>_. keep []) fc
         else keep [] fc)"

text \<open>The loop runs once for every interval between the store's time and the clock's.\<close>

fun tick_loop ::
  "nat \<Rightarrow> 's FcEnv \<Rightarrow> nat \<Rightarrow> State \<Rightarrow> ('s ForkChoiceStore, OnTickAction list) action" where
  "tick_loop 0 e validator_count head_state = OK []"
| "tick_loop (Suc n) e validator_count head_state =
     TRY (\<lambda>fc. (Inr (), fc\<lparr>fc_time := fc_time fc + 1\<rparr>)) (\<lambda>_.
     TRY (tick_phase e validator_count head_state) (\<lambda>(actions, head_state').
     TRY (tick_loop n e validator_count head_state') (\<lambda>more. OK (actions @ more))))"

definition onTick :: "'s FcEnv \<Rightarrow> nat \<Rightarrow> ('s ForkChoiceStore, OnTickAction list) action" where
  "onTick e now fc =
     (case Interval_fromTime now (fc_config fc) of
        None \<Rightarrow> (Inr [], fc)
      | Some now_interval \<Rightarrow>
          TRY (FATAL (\<lambda>fc. ForkChoice_getState e (cp_root (fc_head fc)) fc)) (\<lambda>head_state.
          tick_loop (now_interval - fc_time fc) e (validatorCount head_state) head_state) fc)"

subsection \<open>The fork choice API\<close>

record ForkChoiceNodeApiJson =
  nd_root :: hash
  nd_slot :: slot
  nd_parent_root :: hash
  nd_proposer_index :: nat
  nd_weight :: nat

record ForkChoiceApiJson =
  api_nodes :: "ForkChoiceNodeApiJson list"
  api_head :: hash
  api_justified :: Checkpoint
  api_finalized :: Checkpoint
  api_safe_target :: hash
  api_validator_count :: nat

text \<open>The queue is a stack; its top is the last element of the vector, the head of the list here.\<close>

fun api_nodes_loop ::
  "nat \<Rightarrow> 's FcEnv \<Rightarrow> slot \<Rightarrow> 's BlockTree \<Rightarrow> hash list \<Rightarrow> (hash, ForkChoiceNodeApiJson) umap \<Rightarrow>
   (hash, ForkChoiceNodeApiJson) umap result" where
  "api_nodes_loop n e finalized_slot t [] nodes = Inr nodes"
| "api_nodes_loop 0 e finalized_slot t (h # queue) nodes = Inl (Exn Diverges)"
| "api_nodes_loop (Suc n) e finalized_slot t (h # queue) nodes =
     OUTCOME_TRY (BlockTree_tryGetBlockHeader (env_ssz e) (env_db e) h t) (\<lambda>header_opt.
     case header_opt of
       None \<Rightarrow> api_nodes_loop n e finalized_slot t queue nodes
     | Some header \<Rightarrow>
         if hdr_slot header < finalized_slot then api_nodes_loop n e finalized_slot t queue nodes
         else let nodes' = (if map_of nodes h \<noteq> None then nodes
                            else nodes @ [(h, \<lparr>nd_root = h, nd_slot = hdr_slot header,
                                               nd_parent_root = hdr_parent_root header,
                                               nd_proposer_index = hdr_proposer_index header, nd_weight = 0\<rparr>)])
              in api_nodes_loop n e finalized_slot t
                   (if hdr_slot header > finalized_slot then hdr_parent_root header # queue else queue) nodes')"

fun api_climb :: "nat \<Rightarrow> hash \<Rightarrow> (hash, ForkChoiceNodeApiJson) umap \<Rightarrow> (hash, ForkChoiceNodeApiJson) umap result" where
  "api_climb 0 h nodes = Inl (Exn Diverges)"
| "api_climb (Suc n) h nodes =
     (case map_of nodes h of
        None \<Rightarrow> Inr nodes
      | Some node \<Rightarrow> api_climb n (nd_parent_root node)
                       (AList.update h (node\<lparr>nd_weight := u64_add (nd_weight node) 1\<rparr>) nodes))"

definition apiForkChoice :: "'s FcEnv \<Rightarrow> ('s ForkChoiceStore, ForkChoiceApiJson) action" where
  "apiForkChoice e =
     TRY (READ getLatestFinalized) (\<lambda>finalized.
     TRY (\<lambda>fc. ForkChoice_getState e (cp_root (fc_head fc)) fc) (\<lambda>head_state.
     TRY (READ (\<lambda>fc. api_nodes_loop (env_fuel e) e (cp_slot finalized) (fc_block_tree fc)
                        (rev (getLeaves (fc_block_tree fc))) [])) (\<lambda>nodes0.
     TRY (READ (\<lambda>fc. fold_result (\<lambda>(_, data). api_climb (env_fuel e) (cp_root (ad_head data)))
                        (fc_latest_known_attestations fc) nodes0)) (\<lambda>nodes fc.
     (Inr \<lparr>api_nodes = map snd nodes, api_head = cp_root (getHead fc),
           api_justified = ForkChoice_getLatestJustified fc, api_finalized = finalized,
           api_safe_target = cp_root (getSafeTarget fc), api_validator_count = validatorCount head_state\<rparr>, fc)))))"

subsection \<open>Construction\<close>

definition getValidatorId :: "validator_index list \<Rightarrow> validator_index result" where
  "getValidatorId indices = (case indices of [i] \<Rightarrow> Inr i | _ \<Rightarrow> Inl (Exn FatalLog))"

definition anchor_slots :: "hash list \<Rightarrow> (hash, slot) umap" where
  "anchor_slots hashes =
     fold (\<lambda>(slot, h) m. if h = kZeroHash \<or> map_of m h \<noteq> None then m else m @ [(h, slot)])
       (zip [0..<length hashes] hashes) []"

definition ForkChoiceStore_test_new ::
  "'s FcEnv \<Rightarrow> nat \<Rightarrow> Config \<Rightarrow> Checkpoint \<Rightarrow> Checkpoint \<Rightarrow> AttestationDataByValidator \<Rightarrow>
   AttestationDataByValidator \<Rightarrow> 's BlockTree \<Rightarrow> bool \<Rightarrow> nat \<Rightarrow> 's ForkChoiceStore result" where
  "ForkChoiceStore_test_new e time config head safe_target known new t is_aggregator subnet_count =
     OUTCOME_TRY (getValidatorId (env_validator_indices e)) (\<lambda>validator_id.
     OUTCOME_TRY (lru_new 64 kStateCacheSize) (\<lambda>states.
     Inr \<lparr>fc_block_tree = t, fc_time = time, fc_config = config, fc_head = head,
          fc_safe_target = safe_target, fc_states = states, fc_latest_known_attestations = known,
          fc_latest_new_attestations = new, fc_attestations_by_data = [], fc_validator_id = validator_id,
          fc_is_aggregator = is_aggregator, fc_subnet_count = subnet_count, fc_dont_propose = False,
          fc_anchor_block_slots = []\<rparr>))"

definition ForkChoiceStore_new ::
  "'s FcEnv \<Rightarrow> State \<Rightarrow> BlockHeader \<Rightarrow> nat \<Rightarrow> bool \<Rightarrow> nat \<Rightarrow> 's BlockTree \<Rightarrow> 's ForkChoiceStore result" where
  "ForkChoiceStore_new e anchor_state anchor_block now_ms is_aggregator subnet_count t =
     OUTCOME_TRY (getValidatorId (env_validator_indices e)) (\<lambda>validator_id.
     OUTCOME_TRY (lru_new 64 kStateCacheSize) (\<lambda>states.
     OUTCOME_TRY (lastFinalized t) (\<lambda>_.
     if hdr_state_root anchor_block \<noteq> hash_state (env_ssz e) anchor_state then Inl (Exn AssertionFailed)
     else
       let config = st_config anchor_state;
           fc0 = \<lparr>fc_block_tree = t,
                  fc_time = (case Interval_fromTime now_ms config of
                               Some i \<Rightarrow> i | None \<Rightarrow> Interval_fromSlot 0 0),
                  fc_config = config, fc_head = getLatestJustified t,
                  fc_safe_target = \<lparr>cp_root = kZeroHash, cp_slot = 0\<rparr>,
                  fc_states = states, fc_latest_known_attestations = [],
                  fc_latest_new_attestations = [], fc_attestations_by_data = [],
                  fc_validator_id = validator_id, fc_is_aggregator = is_aggregator,
                  fc_subnet_count = subnet_count, fc_dont_propose = False, fc_anchor_block_slots = []\<rparr>
       in case TRY (LOGGED (updateSafeTarget e)) (\<lambda>_. LOGGED (updateHead e)) fc0 of
            (Inl err, _) \<Rightarrow> Inl err
          | (Inr _, fc) \<Rightarrow>
              Inr (fc\<lparr>fc_anchor_block_slots := anchor_slots (st_historical_block_hashes anchor_state)\<rparr>))))"

end
