(* ===== verification/ForkDemo.thy ===== *)
theory ForkDemo
  imports ForkTick TreeSync Chains
begin

text \<open>
  A small store to run the fork choice on: three validators, the genesis block \<open>1000\<close> and
  block \<open>1001\<close> of slot one, on the in-memory storage.  The hash of a block is \<open>1000\<close> plus
  its slot, as in the chain of \<^verbatim>\<open>Chains\<close>; encodings are single bytes.  An
  aggregated signature is accepted for one signer only.
\<close>

definition fd_header :: "slot \<Rightarrow> BlockHeader" where
  "fd_header s = getHeader demo_ssz (demo_block s [])"

definition fd_ssz :: ssz where
  "fd_ssz = demo_ssz
     \<lparr>enc_header := (\<lambda>h. [of_nat (hdr_slot h)]),
      dec_header := (\<lambda>b. if b = [0] then Some (fd_header 0) else if b = [1] then Some (fd_header 1)
                         else if b = [2] then Some (fd_header 2) else None),
      enc_state := (\<lambda>s. [of_nat (st_slot s)]),
      dec_state := (\<lambda>b. if b = [1] then Some (Chains.demo_state 1 0 0 []) else None),
      enc_hashes := concat \<circ> map hash_bytes\<rparr>"

definition fd_env :: "InMemorySpacedStorage FcEnv" where
  "fd_env =
     \<lparr>env_ssz = fd_ssz, env_db = in_memory, env_hash_block = Block_hash fd_ssz,
      env_verify = (\<lambda>key msg ep sig. sig = [1]),
      env_verifyAggregated = (\<lambda>keys ep msg data. length keys = 1 \<and> data = [9]),
      env_sign = (\<lambda>key ep msg. [1]), env_aggregate = (\<lambda>child_keys child_proofs keys sigs ep msg. [9]),
      env_keypair = (\<lambda>key. Some [5]), env_validator_indices = [0], env_fuel = 9\<rparr>"

definition fd_tree :: CachedTree where
  "fd_tree =
     \<lparr>ct_root = 1000, ct_justified = \<lparr>bi_slot = 0, bi_hash = 1000\<rparr>, ct_best = 1001,
      ct_nodes =
        [(1000, \<lparr>tn_index = \<lparr>bi_slot = 0, bi_hash = 1000\<rparr>, tn_parent = None, tn_depth = 0, tn_reverted = False,
                 tn_children = [1001]\<rparr>),
         (1001, \<lparr>tn_index = \<lparr>bi_slot = 1, bi_hash = 1001\<rparr>, tn_parent = Some 1000, tn_depth = 1, tn_reverted = False,
                 tn_children = []\<rparr>)],
      ct_leaves = [(1001, 1)]\<rparr>"

definition fd_storage :: "InMemorySpacedStorage BlockStorage" where
  "fd_storage =
     \<lparr>bst_storage =
        [(Header, \<lparr>ims_storage = [(hash_bytes 1000, [0]), (hash_bytes 1001, [1])], ims_size = 2\<rparr>),
         (StateSpace, \<lparr>ims_storage = [(hash_bytes 1001, [1])], ims_size = 1\<rparr>)],
      bst_block_tree_leaves = None\<rparr>"

definition fd_block_tree :: "InMemorySpacedStorage BlockTree" where
  "fd_block_tree = \<lparr>bt_storage = fd_storage, bt_tree = fd_tree, bt_genesis_block_hash = None, bt_events = []\<rparr>"

definition fd_store :: "InMemorySpacedStorage ForkChoiceStore" where
  "fd_store =
     \<lparr>fc_block_tree = fd_block_tree, fc_time = 11, fc_config = \<lparr>cfg_genesis_time = 0\<rparr>,
      fc_head = demo_checkpoint 1, fc_safe_target = demo_checkpoint 0,
      fc_states = \<lparr>lc_max_size = 16, lc_bits = 64, lc_ticks = 0, lc_cache = []\<rparr>,
      fc_latest_known_attestations = [], fc_latest_new_attestations = [], fc_attestations_by_data = [],
      fc_validator_id = 0, fc_is_aggregator = False, fc_subnet_count = 1, fc_dont_propose = False,
      fc_anchor_block_slots = []\<rparr>"

lemma hash_bytes_eq_iff: "a < 2 ^ 256 \<Longrightarrow> b < 2 ^ 256 \<Longrightarrow> hash_bytes a = hash_bytes b \<longleftrightarrow> a = b"
  using hash_bytes_inj by blast

lemma fd_keys [simp]:
  "hash_bytes 1000 \<noteq> hash_bytes 1001" "hash_bytes 1001 \<noteq> hash_bytes 1000"
  "hash_bytes 1000 \<noteq> hash_bytes 1002" "hash_bytes 1002 \<noteq> hash_bytes 1000"
  "hash_bytes 1001 \<noteq> hash_bytes 1002" "hash_bytes 1002 \<noteq> hash_bytes 1001"
  by (simp_all add: hash_bytes_eq_iff)

lemma fd_keys_less [simp]:
  "hash_bytes 1000 < hash_bytes 1002" "hash_bytes 1001 < hash_bytes 1002"
  "\<not> hash_bytes 1002 < hash_bytes 1000" "\<not> hash_bytes 1002 < hash_bytes 1001"
  by (simp_all add: hash_bytes_def upt_rec)

lemma fd_env_simps [simp]:
  "env_ssz fd_env = fd_ssz" "env_db fd_env = in_memory" "env_fuel fd_env = 9"
  "env_hash_block fd_env = Block_hash fd_ssz" "env_validator_indices fd_env = [0]"
  "env_verify fd_env key msg ep sig \<longleftrightarrow> sig = [1]"
  "env_verifyAggregated fd_env keys ep msg data \<longleftrightarrow> length keys = 1 \<and> data = [9]"
  "hash_header fd_ssz h = 1000 + hdr_slot h" "hash_body fd_ssz b = 77" "hash_state fd_ssz s = 500 + st_slot s"
  "hash_attdata fd_ssz a = 300 + ad_slot a"
  by (simp_all add: fd_env_def fd_ssz_def demo_ssz_def)

lemma fd_header_slot [simp]: "hdr_slot (fd_header s) = s" "hdr_parent_root (fd_header s) = 1000 + (s - 1)"
  by (simp_all add: fd_header_def getHeader_def demo_block_def)

lemmas fd_read =
  getBlockHeader_def fetchBlockHeader_def getFromSpace_def decode_def in_memory_def ims_tryGet_def getSpace_def

lemma fd_headers [simp]:
  "getBlockHeader fd_ssz in_memory 1000 fd_storage = Inr (fd_header 0)"
  "getBlockHeader fd_ssz in_memory 1001 fd_storage = Inr (fd_header 1)"
  by (simp_all add: fd_read fd_storage_def) (simp_all add: fd_ssz_def)

lemma fd_state [simp]: "getState fd_ssz in_memory 1001 fd_storage = Inr (Some (Chains.demo_state 1 0 0 []))"
  by (simp add: getState_def fd_read fd_storage_def) (simp add: fd_ssz_def)

lemma fd_loadState: "bt_storage (fc_block_tree fc) = fd_storage \<Longrightarrow> loadState fd_env 1001 fc = Inr (Chains.demo_state 1 0 0 [])"
  by (simp add: loadState_def)

definition fd_cache :: "(hash, State) lru" where
  "fd_cache = \<lparr>lc_max_size = 16, lc_bits = 64, lc_ticks = 2,
     lc_cache = [\<lparr>ce_key = 1001, ce_value = Chains.demo_state 1 0 0 [], ce_tick = 2\<rparr>]\<rparr>"

lemma fd_getState:
  assumes "bt_storage (fc_block_tree fc) = fd_storage"
    and "fc_states fc = \<lparr>lc_max_size = 16, lc_bits = 64, lc_ticks = 0, lc_cache = []\<rparr>"
  shows "ForkChoice_getState fd_env 1001 fc = (Inr (Chains.demo_state 1 0 0 []), fc\<lparr>fc_states := fd_cache\<rparr>)"
  using assms(2)
  by (simp add: ForkChoice_getState_def fd_loadState[OF assms(1)] lru_get_else_def lru_get_def lru_tick_def lru_put_def
      Let_def fd_cache_def)

lemmas ghost_walk_numeral = ghost_walk.simps(2)[of "pred_numeral k", folded numeral_eq_Suc] for k
lemmas common_ancestor_numeral = common_ancestor.simps(2)[of "pred_numeral k", folded numeral_eq_Suc] for k
lemmas climb_vote_numeral = climb_vote.simps(2)[of "pred_numeral k", folded numeral_eq_Suc] for k

lemma fd_tree_reads [simp]:
  "find_node fd_tree 1000 = Some \<lparr>tn_index = \<lparr>bi_slot = 0, bi_hash = 1000\<rparr>, tn_parent = None, tn_depth = 0, tn_reverted = False, tn_children = [1001]\<rparr>"
  "find_node fd_tree 1001 = Some \<lparr>tn_index = \<lparr>bi_slot = 1, bi_hash = 1001\<rparr>, tn_parent = Some 1000, tn_depth = 1, tn_reverted = False, tn_children = []\<rparr>"
  "ct_finalized fd_tree = Inr \<lparr>bi_slot = 0, bi_hash = 1000\<rparr>" "ct_justified fd_tree = \<lparr>bi_slot = 0, bi_hash = 1000\<rparr>"
  by (simp_all add: find_node_def fd_tree_def ct_finalized_def)

lemma fd_block_tree_reads [simp]:
  "bt_tree fd_block_tree = fd_tree" "bt_storage fd_block_tree = fd_storage"
  "lastFinalized fd_block_tree = Inr \<lparr>bi_slot = 0, bi_hash = 1000\<rparr>"
  "getLatestJustified fd_block_tree = demo_checkpoint 0"
  by (simp_all add: fd_block_tree_def lastFinalized_def getLastFinalizedNoLock_def getLatestJustified_def
      getLastJustifiedNoLock_def demo_checkpoint_def)

lemma fd_head:
  assumes "fc_block_tree fc = fd_block_tree" "fc_anchor_block_slots fc = []"
  shows "computeLmdGhostHead fd_env 1000 [] 0 fc = Inr 1001"
  using assms
  by (simp add: computeLmdGhostHead_def Let_def kZeroHash_def BlockTree_has_def getBlockSlot_def getSlotByHash_def
      collect_weights_def ghost_walk_numeral getChildren_def)

lemma mem_ops:
  "sp_put in_memory space k v = in_space space (ims_put k v)" "sp_remove in_memory space k = in_space space (ims_remove k)"
  "sp_tryGet in_memory st space k = ims_tryGet (getSpace space st) k"
  "sp_contains in_memory st space k = ims_contains (getSpace space st) k"
  by (simp_all add: in_memory_def)

lemmas fd_run =
  putBlock_def putBlock_parts_def putBlockHeader_def putToSpace_def BlockData_of_def
  CATCH_def TRY_def OK_def FAIL_def READ_def LIFT_def RAISE_def on_storage_def mem_ops in_space_def ims_put_def
  ims_remove_def ims_tryGet_def ims_contains_def getSpace_def ims_empty_def

lemma fd_encodings [simp]:
  "enc_header fd_ssz h = [of_nat (hdr_slot h)]" "enc_body fd_ssz b = []" "enc_signatures fd_ssz s = []"
  "enc_state fd_ssz st = [of_nat (st_slot st)]" "enc_hashes fd_ssz hs = concat (map hash_bytes hs)"
  by (simp_all add: fd_ssz_def demo_ssz_def)

end
