(* ===== verification/GhostHead.thy ===== *)
theory GhostHead
  imports ForkDemo
begin

text \<open>
  LMD-GHOST on the block tree.  The votes are counted by ancestry in the cached tree, the
  greedy descent is the relation \<open>ghost_step\<close>, and \<open>computeLmdGhostHead\<close> implements both:
  it ends, its weights are the counts, and its result is where the descent stops.
\<close>

subsection \<open>Abstract rule\<close>

text \<open>A vote counts for every ancestor of its head above the anchor's slot.\<close>

definition supports :: "CachedTree \<Rightarrow> slot \<Rightarrow> hash \<Rightarrow> hash \<Rightarrow> bool" where
  "supports ct start_slot b head \<longleftrightarrow>
     anc ct b head \<and> (\<exists>n. node_at ct b = Some n \<and> start_slot < node_slot n)"

definition vote_count :: "CachedTree \<Rightarrow> slot \<Rightarrow> AttestationDataByValidator \<Rightarrow> hash \<Rightarrow> nat" where
  "vote_count ct start_slot atts b =
     length (filter (\<lambda>a. supports ct start_slot b (cp_root (ad_head (snd a)))) atts)"

text \<open>One step of the descent: to the eligible child of greatest weight, then greatest hash.\<close>

inductive ghost_step :: "CachedTree \<Rightarrow> (hash \<Rightarrow> nat) \<Rightarrow> nat \<Rightarrow> hash \<Rightarrow> hash \<Rightarrow> bool" for ct W min_score where
  "node_at ct h = Some n \<Longrightarrow> c \<in> set (tn_children n) \<Longrightarrow> min_score \<le> W c \<Longrightarrow>
   (\<forall>d \<in> set (tn_children n). min_score \<le> W d \<longrightarrow> W d < W c \<or> W d = W c \<and> d \<le> c) \<Longrightarrow>
   ghost_step ct W min_score h c"

inductive_cases ghost_stepE: "ghost_step ct W min_score h c"

text \<open>
  The stored headers agree with the cached tree: nodes have their headers with the same
  slot and parent, any other stored header is not above the root, and a failing read is an
  error code.
\<close>

definition headers_consistent :: "ssz \<Rightarrow> 's SpacedStorage \<Rightarrow> 's BlockTree \<Rightarrow> bool" where
  "headers_consistent z db t \<longleftrightarrow>
     (\<forall>h n. node_at (bt_tree t) h = Some n \<longrightarrow>
        (\<exists>header. getBlockHeader z db h (bt_storage t) = Inr header \<and> hdr_slot header = node_slot n \<and>
           (\<forall>p. tn_parent n = Some p \<longrightarrow> hdr_parent_root header = p))) \<and>
     (\<forall>h header r. h < 2 ^ 256 \<longrightarrow> node_at (bt_tree t) h = None \<longrightarrow> getBlockHeader z db h (bt_storage t) = Inr header \<longrightarrow>
        node_at (bt_tree t) (ct_root (bt_tree t)) = Some r \<longrightarrow> hdr_slot header \<le> node_slot r) \<and>
     (\<forall>h err. h < 2 ^ 256 \<longrightarrow> getBlockHeader z db h (bt_storage t) = Inl err \<longrightarrow> \<not> is_exn err)"

subsection \<open>Weights\<close>

lemma get_weight_update [simp]:
  "get_weight (AList.update h w m) b = (if b = h then w else get_weight m b)"
  by (simp add: get_weight_def update_conv')

lemma headers_consistentD:
  assumes "headers_consistent z db t"
  shows "node_at (bt_tree t) h = Some n \<Longrightarrow> \<exists>header. getBlockHeader z db h (bt_storage t) = Inr header \<and>
      hdr_slot header = node_slot n \<and> (\<forall>p. tn_parent n = Some p \<longrightarrow> hdr_parent_root header = p)"
    and "h < 2 ^ 256 \<Longrightarrow> node_at (bt_tree t) h = None \<Longrightarrow> getBlockHeader z db h (bt_storage t) = Inr header \<Longrightarrow>
      node_at (bt_tree t) (ct_root (bt_tree t)) = Some r \<Longrightarrow> hdr_slot header \<le> node_slot r"
    and "h < 2 ^ 256 \<Longrightarrow> getBlockHeader z db h (bt_storage t) = Inl err \<Longrightarrow> \<not> is_exn err"
  using assms unfolding headers_consistent_def by blast+

lemma climb_outside:
  assumes "headers_consistent (env_ssz e) (env_db e) t" "node_at (bt_tree t) h = None" "h < 2 ^ 256"
    and "node_at (bt_tree t) (ct_root (bt_tree t)) = Some r" "node_slot r \<le> s"
  shows "climb_vote (Suc fuel) e s t h w = Inr w"
proof (cases "getBlockHeader (env_ssz e) (env_db e) h (bt_storage t)")
  case (Inl err)
  with headers_consistentD(3)[OF assms(1,3)] have "\<not> is_exn err" by blast
  with Inl show ?thesis by (simp add: BlockTree_tryGetBlockHeader_def)
next
  case (Inr header)
  from headers_consistentD(2)[OF assms(1,3,2) Inr assms(4)] assms(5) have "hdr_slot header \<le> s" by simp
  with Inr show ?thesis by (simp add: BlockTree_tryGetBlockHeader_def)
qed

lemma climb_inside:
  assumes hc: "headers_consistent (env_ssz e) (env_db e) t" and ok: "up_ok (bt_tree t)"
    and r: "node_at (bt_tree t) (ct_root (bt_tree t)) = Some r" "node_slot r \<le> s"
    and "node_at (bt_tree t) h = Some n" "rank (bt_tree t) h < fuel"
  shows "\<exists>w'. climb_vote fuel e s t h w = Inr w' \<and>
    (\<forall>b. get_weight w' b = (if supports (bt_tree t) s b h then u64_add (get_weight w b) 1 else get_weight w b))"
  using assms(5,6)
proof (induction fuel arbitrary: h n w)
  case (Suc fuel)
  let ?ct = "bt_tree t"
  from headers_consistentD(1)[OF hc Suc.prems(1)] obtain header where
    hd: "getBlockHeader (env_ssz e) (env_db e) h (bt_storage t) = Inr header" "hdr_slot header = node_slot n"
      "\<And>p. tn_parent n = Some p \<Longrightarrow> hdr_parent_root header = p"
    by blast
  then have rd: "BlockTree_tryGetBlockHeader (env_ssz e) (env_db e) h t = Inr (Some header)"
    by (simp add: BlockTree_tryGetBlockHeader_def)
  show ?case
  proof (cases "node_slot n \<le> s")
    case True
    have "\<not> supports ?ct s b h" for b
      using anc_slot[OF ok, of b h] Suc.prems(1) True by (fastforce simp: supports_def)
    with True rd hd(2) show ?thesis by simp
  next
    case False
    have "tn_parent n \<noteq> None"
    proof
      assume "tn_parent n = None"
      with up_okD(2)[OF ok Suc.prems(1)] have "h = ct_root ?ct" by simp
      with r Suc.prems(1) False show False by simp
    qed
    then obtain p m where p: "tn_parent n = Some p" "node_at ?ct p = Some m" "node_slot m < node_slot n"
      using up_okD(3)[OF ok Suc.prems(1)] by blast
    have "rank ?ct p < fuel" using rank_less[OF p(2) Suc.prems(1) p(3)] Suc.prems(2) by simp
    from Suc.IH[OF p(2) this, of "AList.update h (u64_add (get_weight w h) 1) w"] obtain w' where
      w': "climb_vote fuel e s t p (AList.update h (u64_add (get_weight w h) 1) w) = Inr w'"
      "\<And>b. get_weight w' b = (if supports ?ct s b p then u64_add (if b = h then u64_add (get_weight w h) 1 else get_weight w b) 1
           else if b = h then u64_add (get_weight w h) 1 else get_weight w b)"
      by auto
    have "\<not> anc ?ct h p" using anc_slot[OF ok _ Suc.prems(1) p(2)] p(3) by fastforce
    moreover have "anc ?ct b h \<longleftrightarrow> b = h \<or> anc ?ct b p" for b
      using Suc.prems(1) p(1) anc_cases[of ?ct b h] by (auto intro: anc_refl anc_step)
    ultimately have "supports ?ct s b h \<longleftrightarrow> b = h \<or> supports ?ct s b p" "\<not> supports ?ct s h p" for b
      using Suc.prems(1) False by (auto simp: supports_def)
    with w' rd hd p(1) False show ?thesis by (intro exI[of _ w']) auto
  qed
qed simp

lemma climb_vote_counts:
  assumes "headers_consistent (env_ssz e) (env_db e) t" "up_ok (bt_tree t)"
    and "node_at (bt_tree t) (ct_root (bt_tree t)) = Some r" "node_slot r \<le> s"
    and "length (ct_nodes (bt_tree t)) < env_fuel e" "h < 2 ^ 256"
  shows "\<exists>w'. climb_vote (env_fuel e) e s t h w = Inr w' \<and>
    (\<forall>b. get_weight w' b = (if supports (bt_tree t) s b h then u64_add (get_weight w b) 1 else get_weight w b))"
proof (cases "node_at (bt_tree t) h")
  case None
  obtain fuel where fuel: "env_fuel e = Suc fuel" using assms(5) by (cases "env_fuel e") auto
  have "\<not> supports (bt_tree t) s b h" for b using None anc_nodes by (fastforce simp: supports_def)
  with climb_outside[OF assms(1) None assms(6,3,4)] fuel show ?thesis by simp
next
  case (Some n)
  from climb_inside[OF assms(1-4) Some] rank_le[of "bt_tree t" h] assms(5) show ?thesis
    by (meson le_less_trans)
qed

lemma collect_weights_counts:
  assumes "headers_consistent (env_ssz e) (env_db e) t" "up_ok (bt_tree t)"
    and "node_at (bt_tree t) (ct_root (bt_tree t)) = Some r" "node_slot r \<le> s"
    and "length (ct_nodes (bt_tree t)) < env_fuel e" and "length atts < 2 ^ 64"
    and "\<forall>a \<in> set atts. cp_root (ad_head (snd a)) < 2 ^ 256"
  shows "\<exists>w. collect_weights e s t atts = Inr w \<and> get_weight w = vote_count (bt_tree t) s atts"
proof -
  have "\<exists>w. fold_result (\<lambda>a. climb_vote (env_fuel e) e s t (cp_root (ad_head (snd a)))) atts w0 = Inr w \<and>
      (\<forall>b. get_weight w b = get_weight w0 b + vote_count (bt_tree t) s atts b)"
    if "\<forall>b. get_weight w0 b + length atts < 2 ^ 64" for w0
    using that assms(7)
  proof (induction atts arbitrary: w0)
    case (Cons a atts)
    let ?h = "cp_root (ad_head (snd a))"
    from climb_vote_counts[OF assms(1-5), of ?h w0] Cons.prems(2) obtain w1 where
      w1: "climb_vote (env_fuel e) e s t ?h w0 = Inr w1"
      "\<And>b. get_weight w1 b = (if supports (bt_tree t) s b ?h then u64_add (get_weight w0 b) 1 else get_weight w0 b)"
      by auto
    have step: "get_weight w1 b = get_weight w0 b + (if supports (bt_tree t) s b ?h then 1 else 0)" for b
    proof -
      have "get_weight w0 b + 1 < 2 ^ 64" using Cons.prems(1)[rule_format, of b] by simp
      then show ?thesis unfolding w1(2) by (simp add: u64_add_small)
    qed
    have "\<forall>b. get_weight w1 b + length atts < 2 ^ 64"
    proof
      fix b show "get_weight w1 b + length atts < 2 ^ 64" using Cons.prems(1)[rule_format, of b] by (simp add: step)
    qed
    from Cons.IH[OF this] Cons.prems(2) obtain w where
      "fold_result (\<lambda>a. climb_vote (env_fuel e) e s t (cp_root (ad_head (snd a)))) atts w1 = Inr w"
      "\<forall>b. get_weight w b = get_weight w1 b + vote_count (bt_tree t) s atts b" by auto
    then show ?case using w1(1) by (simp add: step vote_count_def)
  qed (simp add: vote_count_def)
  from this[of "[]"] assms(6) show ?thesis by (simp add: collect_weights_def get_weight_def fun_eq_iff)
qed

subsection \<open>Descent\<close>

definition no_better :: "(hash, nat) umap \<Rightarrow> hash \<Rightarrow> hash \<Rightarrow> bool" where
  "no_better w b d \<longleftrightarrow> get_weight w d < get_weight w b \<or> get_weight w d = get_weight w b \<and> d \<le> b"

lemma no_better_trans: "no_better w b m \<Longrightarrow> no_better w m d \<Longrightarrow> no_better w b d"
  unfolding no_better_def by linarith

lemma best_child_max: "best_child w c cs \<in> set (c # cs) \<and> (\<forall>d \<in> set (c # cs). no_better w (best_child w c cs) d)"
proof (induction w c cs rule: best_child.induct)
  case (2 w best c cs)
  let ?m = "if child_less w best c then c else best"
  have "no_better w ?m best" "no_better w ?m c"
    by (auto simp: child_less_def no_better_def split: if_splits)
  then have "\<forall>d \<in> {best, c}. no_better w (best_child w ?m cs) d"
    using 2 no_better_trans[of w "best_child w ?m cs" ?m] by auto
  with 2 show ?case by (cases "child_less w best c") auto
qed (simp add: no_better_def)

lemma ghost_walk_ok:
  assumes ok: "tree_ok (bt_tree t)" and "node_at (bt_tree t) h = Some n"
    and "length (ct_nodes (bt_tree t)) - rank (bt_tree t) h < fuel"
  shows "\<exists>head. ghost_walk fuel e t w min_score h = Inr head \<and>
    (ghost_step (bt_tree t) (get_weight w) min_score)\<^sup>*\<^sup>* h head \<and> anc (bt_tree t) h head \<and>
    (\<nexists>c. ghost_step (bt_tree t) (get_weight w) min_score head c)"
  using assms(2,3)
proof (induction fuel arbitrary: h n)
  case (Suc fuel)
  let ?ct = "bt_tree t"
  let ?el = "filter (\<lambda>c. min_score \<le> get_weight w c) (tn_children n)"
  have el: "(if min_score > 0 then filter (\<lambda>h. \<not> get_weight w h < min_score) (tn_children n) else tn_children n) = ?el"
    by (cases "min_score > 0") (simp_all add: not_less)
  have ch: "getChildren (env_ssz e) (env_db e) h t = Inr (tn_children n)"
    using Suc.prems(1) by (simp add: getChildren_def find_node_def)
  show ?case
  proof (cases ?el)
    case Nil
    then have "\<nexists>c. ghost_step ?ct (get_weight w) min_score h c"
      using Suc.prems(1) by (auto elim!: ghost_stepE simp: filter_empty_conv)
    moreover have "anc ?ct h h" using Suc.prems(1) by (rule anc_refl)
    ultimately show ?thesis using Nil ch el by (intro exI[of _ h]) (simp add: Let_def)
  next
    case (Cons c cs)
    define b where "b = best_child w c cs"
    note bm = best_child_max[of w c cs, folded b_def Cons]
    then have b: "b \<in> set (tn_children n)" "min_score \<le> get_weight w b" by auto
    have step: "ghost_step ?ct (get_weight w) min_score h b"
      using Suc.prems(1) b bm by (auto intro!: ghost_step.intros simp: no_better_def)
    from tree_okD(4)[OF ok Suc.prems(1) b(1)] obtain m where m: "node_at ?ct b = Some m" "tn_parent m = Some h" by blast
    have "node_slot n < node_slot m" using tree_okD(6)[OF ok m] Suc.prems(1) by auto
    from rank_less[OF Suc.prems(1) m(1) this] rank_le[of ?ct b] Suc.prems(2)
    have "length (ct_nodes ?ct) - rank ?ct b < fuel" by linarith
    from Suc.IH[OF m(1) this] obtain head where
      head: "ghost_walk fuel e t w min_score b = Inr head" "(ghost_step ?ct (get_weight w) min_score)\<^sup>*\<^sup>* b head"
      "anc ?ct b head" "\<nexists>c. ghost_step ?ct (get_weight w) min_score head c" by blast
    have "anc ?ct h head" by (rule anc_trans[OF head(3) anc_child[OF ok Suc.prems(1) b(1)]])
    with head step ch el Cons show ?thesis
      by (intro exI[of _ head]) (auto simp: Let_def b_def intro: converse_rtranclp_into_rtranclp)
  qed
qed simp

text \<open>The walk starts at a block of the tree whose slot the store knows.\<close>

definition ghost_ready :: "'s FcEnv \<Rightarrow> hash \<Rightarrow> 's ForkChoiceStore \<Rightarrow> bool" where
  "ghost_ready e start_root fc \<longleftrightarrow>
     tree_ok (bt_tree (fc_block_tree fc)) \<and> headers_consistent (env_ssz e) (env_db e) (fc_block_tree fc) \<and>
     length (ct_nodes (bt_tree (fc_block_tree fc))) < env_fuel e \<and> start_root \<noteq> kZeroHash \<and>
     (\<exists>n. find_node (bt_tree (fc_block_tree fc)) start_root = Some n \<and>
        (\<forall>slot. map_of (fc_anchor_block_slots fc) start_root = Some slot \<longrightarrow> slot = bi_slot (tn_index n)))"

lemma ghost_head:
  assumes "ghost_ready e start_root fc" "length atts < 2 ^ 64" "\<forall>a \<in> set atts. cp_root (ad_head (snd a)) < 2 ^ 256"
    and "find_node (bt_tree (fc_block_tree fc)) start_root = Some n"
  shows "\<exists>head. computeLmdGhostHead e start_root atts min_score fc = Inr head \<and>
    (let ct = bt_tree (fc_block_tree fc); W = vote_count ct (node_slot n) atts in
     (ghost_step ct W min_score)\<^sup>*\<^sup>* start_root head \<and> anc ct start_root head \<and> (\<nexists>c. ghost_step ct W min_score head c))"
proof -
  let ?t = "fc_block_tree fc"
  from assms have n: "node_at (bt_tree ?t) start_root = Some n" and ok: "tree_ok (bt_tree ?t)"
    and hc: "headers_consistent (env_ssz e) (env_db e) ?t" and fuel: "length (ct_nodes (bt_tree ?t)) < env_fuel e"
    and slot: "\<forall>slot. map_of (fc_anchor_block_slots fc) start_root = Some slot \<longrightarrow> slot = node_slot n"
    and nz: "start_root \<noteq> kZeroHash"
    by (auto simp: ghost_ready_def find_node_def)
  have up: "up_ok (bt_tree ?t)" using ok by blast
  obtain r where r: "node_at (bt_tree ?t) (ct_root (bt_tree ?t)) = Some r" using up_ok_root up by blast
  have rs: "node_slot r \<le> node_slot n" using anc_slot[OF up root_anc[OF up n] r n] by simp
  have known: "BlockTree_has (env_db e) start_root ?t = Inr True" using n by (simp add: BlockTree_has_def find_node_def)
  have gs: "getBlockSlot e start_root fc = Inr (node_slot n)"
    using slot n by (auto simp: getBlockSlot_def getSlotByHash_def find_node_def split: option.splits)
  from collect_weights_counts[OF hc up r rs fuel assms(2,3)] obtain w where
    w: "collect_weights e (node_slot n) ?t atts = Inr w" "get_weight w = vote_count (bt_tree ?t) (node_slot n) atts" by blast
  from ghost_walk_ok[OF ok n, of "env_fuel e" e w min_score] fuel w known gs nz show ?thesis
    by (auto simp: computeLmdGhostHead_def Let_def)
qed

lemma ghost_head_leaf:
  assumes "node_at ct h = Some n" "\<nexists>c. ghost_step ct W 0 h c"
  shows "tn_children n = []"
proof (rule ccontr)
  let ?C = "tn_children n"
  let ?key = "\<lambda>d. W d"
  assume "?C \<noteq> []"
  define m where "m = Max (W ` set ?C)"
  define c where "c = Max {d \<in> set ?C. W d = m}"
  have "m \<in> W ` set ?C" unfolding m_def using \<open>?C \<noteq> []\<close> by (intro Max_in) auto
  then have ne: "{d \<in> set ?C. W d = m} \<noteq> {}" by auto
  have c: "c \<in> {d \<in> set ?C. W d = m}" unfolding c_def using ne by (intro Max_in) auto
  have "W d < W c \<or> W d = W c \<and> d \<le> c" if "d \<in> set ?C" for d
  proof -
    have "W d \<le> m" unfolding m_def using that by (intro Max_ge) auto
    moreover have "d \<le> c" if "W d = m" unfolding c_def using \<open>d \<in> set ?C\<close> that by (intro Max_ge) auto
    ultimately show ?thesis using c by auto
  qed
  with c assms(1) have "ghost_step ct W 0 h c" by (auto intro!: ghost_step.intros)
  with assms(2) show False by blast
qed

lemma vote_count_le: "vote_count ct s atts b \<le> length (filter (\<lambda>(v, a). anc ct b (cp_root (ad_head a))) atts)"
  by (induction atts) (auto simp: vote_count_def supports_def)

subsection \<open>Properties\<close>

text \<open>
  C11. LMD-GHOST implements the greedy heaviest-subtree rule.  From a block of a well-formed
  tree whose headers are stored, the walk always ends; every vote counts once for each
  ancestor of its head above the start; each step goes to the child with the most votes,
  ties broken by the greatest hash; the result descends from the start and has no child
  with enough votes, and without a minimum it is a leaf.
\<close>

theorem lmd_ghost_refines:
  assumes "ghost_ready e start_root fc" "length atts < 2 ^ 64" "\<forall>a \<in> set atts. cp_root (ad_head (snd a)) < 2 ^ 256"
    and "find_node (bt_tree (fc_block_tree fc)) start_root = Some n"
  shows "\<exists>head. computeLmdGhostHead e start_root atts min_score fc = Inr head \<and>
    (let ct = bt_tree (fc_block_tree fc); W = vote_count ct (bi_slot (tn_index n)) atts in
     (ghost_step ct W min_score)\<^sup>*\<^sup>* start_root head \<and> anc ct start_root head \<and>
     (\<nexists>c. ghost_step ct W min_score head c) \<and>
     (min_score = 0 \<longrightarrow> (\<exists>m. find_node ct head = Some m \<and> tn_children m = [])))"
proof -
  obtain head where head: "computeLmdGhostHead e start_root atts min_score fc = Inr head"
    "(ghost_step (bt_tree (fc_block_tree fc)) (vote_count (bt_tree (fc_block_tree fc)) (node_slot n) atts) min_score)\<^sup>*\<^sup>* start_root head"
    "anc (bt_tree (fc_block_tree fc)) start_root head"
    "\<nexists>c. ghost_step (bt_tree (fc_block_tree fc)) (vote_count (bt_tree (fc_block_tree fc)) (node_slot n) atts) min_score head c"
    using ghost_head[OF assms] by (auto simp: Let_def)
  from anc_nodes[OF head(3)] obtain m where "node_at (bt_tree (fc_block_tree fc)) head = Some m" by blast
  with head ghost_head_leaf[OF this] show ?thesis by (auto simp: Let_def find_node_def)
qed

lemma fd_tree_nodes:
  "node_at fd_tree h = Some n \<longleftrightarrow>
     h = 1000 \<and> n = \<lparr>tn_index = \<lparr>bi_slot = 0, bi_hash = 1000\<rparr>, tn_parent = None, tn_depth = 0, tn_reverted = False, tn_children = [1001]\<rparr> \<or>
     h = 1001 \<and> n = \<lparr>tn_index = \<lparr>bi_slot = 1, bi_hash = 1001\<rparr>, tn_parent = Some 1000, tn_depth = 1, tn_reverted = False, tn_children = []\<rparr>"
  by (auto simp: fd_tree_def)

lemma fd_tree_ok: "tree_ok fd_tree"
proof -
  have "node_ok fd_tree h n" if "node_at fd_tree h = Some n" for h n
    using that unfolding fd_tree_nodes node_ok_def by (auto simp: fd_tree_def)
  then show ?thesis by (auto simp: tree_ok_def fd_tree_def)
qed

lemma fd_absent:
  assumes "h < 2 ^ 256" "h \<noteq> 1000" "h \<noteq> 1001"
  shows "getBlockHeader fd_ssz in_memory h fd_storage = Inl (E_BS BS_HEADER_NOT_FOUND)"
  using assms by (simp add: fd_read fd_storage_def hash_bytes_eq_iff)

lemma fd_consistent: "headers_consistent fd_ssz in_memory fd_block_tree"
proof -
  have "\<not> is_exn err" if "h < 2 ^ 256" "getBlockHeader fd_ssz in_memory h fd_storage = Inl err" for h err
    using that fd_absent[OF that(1)] by (cases "h = 1000"; cases "h = 1001") auto
  moreover have False if "h < 2 ^ 256" "node_at fd_tree h = None" "getBlockHeader fd_ssz in_memory h fd_storage = Inr header" for h header
    using that fd_absent[OF that(1)] by (auto simp: fd_tree_def split: if_splits)
  ultimately show ?thesis
    by (auto simp: headers_consistent_def fd_block_tree_def fd_tree_nodes)
qed

lemma fd_ready: "ghost_ready fd_env 1000 fd_store"
  using fd_tree_ok fd_consistent
  by (simp add: ghost_ready_def fd_store_def fd_block_tree_def find_node_def kZeroHash_def) (simp add: fd_tree_def)

theorem lmd_ghost_refines_witness:
  "\<exists>head. computeLmdGhostHead fd_env 1000 [(0, aa_data (demo_attestation 0 1))] 0 fd_store = Inr head \<and>
     anc fd_tree 1000 head"
proof -
  have "find_node (bt_tree (fc_block_tree fd_store)) 1000 =
      Some \<lparr>tn_index = \<lparr>bi_slot = 0, bi_hash = 1000\<rparr>, tn_parent = None, tn_depth = 0, tn_reverted = False, tn_children = [1001]\<rparr>"
    by (simp add: fd_store_def fd_block_tree_def fd_tree_def find_node_def)
  from lmd_ghost_refines[OF fd_ready _ _ this, of "[(0, aa_data (demo_attestation 0 1))]" 0] show ?thesis
    by (auto simp: Let_def fd_store_def fd_block_tree_def demo_attestation_def)
qed

text \<open>
  C12. The safe target has a supermajority behind it: from a store whose head state is
  known and whose justified block is in the tree, the update succeeds, the new safe target
  descends from the justified block, and unless it is that block, at least two thirds of
  the validators of the head state have a pending vote for it or a descendant.
\<close>

theorem safe_target_supermajority:
  assumes "ghost_ready e (cp_root (ForkChoice_getLatestJustified fc)) fc"
    and "length (fc_latest_new_attestations fc) < 2 ^ 64"
    and "\<forall>a \<in> set (fc_latest_new_attestations fc). cp_root (ad_head (snd a)) < 2 ^ 256"
    and "fst (ForkChoice_getState e (cp_root (fc_head fc)) fc) = Inr head_state"
  shows "\<exists>fc'. updateSafeTarget e fc = (Inr (), fc') \<and>
    (let ct = bt_tree (fc_block_tree fc); j = cp_root (ForkChoice_getLatestJustified fc); s = cp_root (fc_safe_target fc') in
     anc ct j s \<and>
     (s \<noteq> j \<longrightarrow> 2 * validatorCount head_state \<le>
        3 * length (filter (\<lambda>(v, a). anc ct s (cp_root (ad_head a))) (fc_latest_new_attestations fc))))"
proof -
  let ?ct = "bt_tree (fc_block_tree fc)" and ?j = "cp_root (ForkChoice_getLatestJustified fc)"
  let ?atts = "fc_latest_new_attestations fc" and ?min = "ceilDiv (validatorCount head_state * 2) 3"
  obtain fc1 where fc1: "ForkChoice_getState e (cp_root (fc_head fc)) fc = (Inr head_state, fc1)"
    using assms(4) by (metis prod.collapse)
  then have same: "fc_block_tree fc1 = fc_block_tree fc" "fc_latest_new_attestations fc1 = ?atts"
    "fc_anchor_block_slots fc1 = fc_anchor_block_slots fc"
    by (auto simp: ForkChoice_getState_def split: prod.splits)
  from assms(1) obtain n where n: "find_node ?ct ?j = Some n" by (auto simp: ghost_ready_def)
  let ?W = "vote_count ?ct (node_slot n) ?atts"
  have "ghost_ready e ?j fc1" using assms(1) same by (simp add: ghost_ready_def)
  from ghost_head[OF this, of ?atts n ?min] assms(2,3) n same obtain head where
    head: "computeLmdGhostHead e ?j ?atts ?min fc1 = Inr head"
      "(ghost_step ?ct ?W ?min)\<^sup>*\<^sup>* ?j head" "anc ?ct ?j head"
    by (auto simp: Let_def)
  obtain m where m: "node_at ?ct head = Some m" using anc_nodes[OF head(3)] by blast
  obtain slot where slot: "getBlockSlot e head fc1 = Inr slot"
    using m same by (cases "map_of (fc_anchor_block_slots fc) head") (auto simp: getBlockSlot_def getSlotByHash_def find_node_def)
  have run: "updateSafeTarget e fc = (Inr (), fc1\<lparr>fc_safe_target := \<lparr>cp_root = head, cp_slot = slot\<rparr>\<rparr>)"
    using fc1 head(1) slot same
    by (simp add: updateSafeTarget_def TRY_def READ_def Let_def ForkChoice_getLatestJustified_def)
  have "2 * validatorCount head_state \<le> 3 * length (filter (\<lambda>(v, a). anc ?ct head (cp_root (ad_head a))) ?atts)"
    if "head \<noteq> ?j"
  proof -
    from head(2) that obtain h where "ghost_step ?ct ?W ?min h head" by (auto elim: rtranclp.cases)
    then have "?min \<le> ?W head" by (auto elim: ghost_stepE)
    also note vote_count_le
    finally show ?thesis by (simp add: ceilDiv_def)
  qed
  with run head(3) show ?thesis by (auto simp: Let_def)
qed

definition fd_voted_store :: "InMemorySpacedStorage ForkChoiceStore" where
  "fd_voted_store = fd_store\<lparr>fc_latest_new_attestations :=
     [(0, aa_data (demo_attestation 0 1)), (1, aa_data (demo_attestation 0 1))]\<rparr>"

theorem safe_target_supermajority_witness:
  "\<exists>fc'. updateSafeTarget fd_env fd_voted_store = (Inr (), fc') \<and> anc fd_tree 1000 (cp_root (fc_safe_target fc'))"
proof -
  have j: "cp_root (ForkChoice_getLatestJustified fd_voted_store) = 1000"
    by (simp add: ForkChoice_getLatestJustified_def getLatestJustified_def getLastJustifiedNoLock_def fd_voted_store_def
        fd_store_def fd_block_tree_def fd_tree_def)
  have ready: "ghost_ready fd_env (cp_root (ForkChoice_getLatestJustified fd_voted_store)) fd_voted_store"
    unfolding j using fd_ready by (simp add: ghost_ready_def fd_voted_store_def)
  have state: "fst (ForkChoice_getState fd_env (cp_root (fc_head fd_voted_store)) fd_voted_store) = Inr (Chains.demo_state 1 0 0 [])"
    using fd_getState[of fd_voted_store] by (simp add: fd_voted_store_def fd_store_def fd_block_tree_def)
  from safe_target_supermajority[OF ready _ _ state] j show ?thesis
    by (auto simp: Let_def fd_voted_store_def fd_store_def fd_block_tree_def demo_attestation_def)
qed

end
