(* ===== verification/StoreInvariants.thy ===== *)
theory StoreInvariants
  imports ForkTick
begin

text \<open>
  Invariants of the fork choice store.  The locale \<open>store_invariant\<close> names what a predicate
  has to survive: the single updates of the store and the five primitive operations on its
  pools.  Every operation built from them, failing or not, then keeps it; these lemmas are
  proved once here and used at every predicate the locale is interpreted with.
\<close>

subsection \<open>Generic rules\<close>

lemma keeps_case_prod [keeps_intros]: "(\<And>x y. p = (x, y) \<Longrightarrow> keeps I (f x y)) \<Longrightarrow> keeps I (case p of (x, y) \<Rightarrow> f x y)"
  by (cases p) simp

lemma keeps_set: "(\<And>s. I s \<Longrightarrow> I (g s)) \<Longrightarrow> keeps I (\<lambda>s. (r, g s))"
  by (simp add: keeps_def)

text \<open>An action that looks at the state before it chooses what to do.\<close>

lemma keeps_if_state: "keeps I m \<Longrightarrow> keeps I m' \<Longrightarrow> keeps I (\<lambda>s. if c s then m s else m' s)"
  by (simp add: keeps_def)

lemma keeps_report: "keeps I (\<lambda>s. (r s, s))"
  by (simp add: keeps_def)

lemma keeps_LOGGED [keeps_intros]: "keeps I m \<Longrightarrow> keeps I (LOGGED m)"
  unfolding LOGGED_def by (intro keeps_intros)

lemma keeps_FATAL [keeps_intros]: "keeps I m \<Longrightarrow> keeps I (FATAL m)"
  unfolding FATAL_def by (intro keeps_intros)

lemma keeps_TRY_at: "I s \<Longrightarrow> keeps I m \<Longrightarrow> (\<And>x. keeps I (f x)) \<Longrightarrow> I (snd (TRY m f s))"
  using keeps_TRY[of I m f] by (simp add: keeps_def)

subsection \<open>The contract\<close>

locale store_invariant =
  fixes I :: "'s ForkChoiceStore \<Rightarrow> bool" and e :: "'s FcEnv"
  assumes set_tree: "I fc \<Longrightarrow> I (fc\<lparr>fc_block_tree := t\<rparr>)"
    and set_head: "I fc \<Longrightarrow> I (fc\<lparr>fc_head := h\<rparr>)"
    and set_safe_target: "I fc \<Longrightarrow> I (fc\<lparr>fc_safe_target := h\<rparr>)"
    and set_states: "I fc \<Longrightarrow> I (fc\<lparr>fc_states := c\<rparr>)"
    and merge_new: "I fc \<Longrightarrow>
      I (fc\<lparr>fc_latest_known_attestations :=
             fold (\<lambda>(validator, attestation). AList.update validator attestation)
               (fc_latest_new_attestations fc) (fc_latest_known_attestations fc),
           fc_latest_new_attestations := []\<rparr>)"
    and add_vote: "keeps I (onAttestation e attestation is_from_block)"
    and add_single: "keeps I (addSignatureToAggregate e data v sig)"
    and add_aggregate: "keeps I (addProofToAggregate e saa)"
    and aggregate: "keeps I (aggregateSignatures e)"
    and prune_old: "I fc \<Longrightarrow> I (prune slot fc)"
begin

lemmas primitive_intros [keeps_intros] = add_vote add_single add_aggregate aggregate

lemma keeps_getState [keeps_intros]: "keeps I (ForkChoice_getState e h)"
  by (auto simp: keeps_def ForkChoice_getState_def set_states split: prod.splits)

lemma keeps_getState_head [keeps_intros]: "keeps I (\<lambda>fc. ForkChoice_getState e (f fc) fc)"
  by (auto simp: keeps_def ForkChoice_getState_def set_states split: prod.splits)

lemma keeps_on_tree [keeps_intros]: "keeps I (on_tree m)"
  by (auto simp: keeps_def on_tree_def set_tree split: prod.splits)

lemma keeps_cacheState [keeps_intros]: "keeps I (cacheState h state)"
  by (auto simp: keeps_def cacheState_def set_states split: sum.splits prod.splits)

lemma keeps_updateSafeTarget [keeps_intros]: "keeps I (updateSafeTarget e)"
  unfolding updateSafeTarget_def Let_def by (intro keeps_intros keeps_set set_safe_target)

lemma keeps_updateHead [keeps_intros]: "keeps I (updateHead e)"
  unfolding updateHead_def Let_def by (intro keeps_intros keeps_set set_head)

lemma keeps_acceptNewAttestations [keeps_intros]: "keeps I (acceptNewAttestations e)"
  using keeps_updateHead merge_new by (simp add: keeps_def acceptNewAttestations_def)

lemma keeps_onAggregatedAttestation [keeps_intros]: "keeps I (onAggregatedAttestation e saa is_from_block)"
  unfolding onAggregatedAttestation_def by (intro keeps_intros)

lemma keeps_validateBlockSignatures [keeps_intros]: "keeps I (validateBlockSignatures e sb)"
  unfolding validateBlockSignatures_def Let_def by (intro keeps_intros)

lemma keeps_onGossipAttestation [keeps_intros]: "keeps I (onGossipAttestation e sa)"
proof -
  have "keeps I (\<lambda>fc.
       if \<not> fc_is_aggregator fc then (Inr (), fc)
       else TRY (LIFT (validatorSubnet (sa_validator_id sa) (fc_subnet_count fc))) (\<lambda>a.
            TRY (LIFT (validatorSubnet (fc_validator_id fc) (fc_subnet_count fc))) (\<lambda>b.
            if a = b then addSignatureToAggregate e (sa_data sa) (sa_validator_id sa) (sa_signature sa)
            else OK ())) fc)"
    by (rule keeps_if_state) (auto simp: keeps_def intro!: keeps_TRY_at[of I] keeps_intros)
  then show ?thesis unfolding onGossipAttestation_def by (intro keeps_intros)
qed

lemma keeps_onGossipAggregatedAttestation [keeps_intros]:
  "keeps I (onGossipAggregatedAttestation e saa)"
  unfolding onGossipAggregatedAttestation_def by (intro keeps_intros)

lemma keeps_update_checkpoints [keeps_intros]: "keeps I (update_checkpoints e post_state)"
  unfolding update_checkpoints_def by (intro keeps_intros keeps_if_state keeps_set prune_old)

lemma keeps_import_attestations [keeps_intros]: "keeps I (import_attestations e sb)"
  unfolding import_attestations_def Let_def by (intro keeps_intros)

lemma keeps_onBlock [keeps_intros]: "keeps I (onBlock e sb)"
  unfolding onBlock_def Let_def by (intro keeps_intros)

lemma keeps_getProposalAttestations [keeps_intros]:
  "keeps I (getProposalAttestations e slot i root)"
  unfolding getProposalAttestations_def by (intro keeps_intros)

lemma keeps_produceBlockWithSignatures [keeps_intros]:
  "keeps I (produceBlockWithSignatures e slot i)"
  unfolding keeps_def[of _ "produceBlockWithSignatures e slot i"] produceBlockWithSignatures_def Let_def
  by (intro allI impI, rule keeps_TRY_at[of I], assumption) (intro keeps_intros)+

lemma keeps_tick_propose [keeps_intros]: "keeps I (tick_propose e n slot head_state)"
  unfolding tick_propose_def Let_def by (intro keeps_intros keeps_if_state keeps_set)

lemma keeps_vote_loop [keeps_intros]: "keeps I (vote_loop e slot head_state att ids)"
proof (induction ids arbitrary: att)
  case (Cons i ids)
  show ?case unfolding vote_loop.simps Let_def by (intro keeps_if_state keeps_intros Cons)
qed (simp add: keeps_intros)

lemma keeps_tick_vote [keeps_intros]: "keeps I (tick_vote e slot head_state)"
  unfolding tick_vote_def Let_def by (intro keeps_intros keeps_if_state keeps_set)

lemma keeps_import_own [keeps_intros]: "keeps I (import_own e as)"
  by (induction "as") (auto intro: keeps_intros)

lemma keeps_tick_aggregate [keeps_intros]: "keeps I (tick_aggregate e)"
proof -
  have "keeps I (TRY (aggregateSignatures e) (import_own e))" by (intro keeps_intros)
  then show ?thesis by (simp add: keeps_def tick_aggregate_def)
qed

lemma keeps_tick_phase [keeps_intros]: "keeps I (tick_phase e n head_state)"
  unfolding keeps_def
proof (intro allI impI)
  fix fc assume ok: "I fc"
  have "I (snd (tick_propose e n slot head_state fc))" for slot
    using keeps_tick_propose[of n slot head_state] ok by (simp add: keeps_def)
  moreover have "I (snd (TRY (tick_vote e slot head_state) (\<lambda>as. OK (as, head_state)) fc))" for slot
    by (rule keeps_TRY_at[of I, OF ok]) (intro keeps_intros)+
  moreover have "I (snd (TRY (tick_aggregate e) (\<lambda>as. OK (as, head_state)) fc))"
    by (rule keeps_TRY_at[of I, OF ok]) (intro keeps_intros)+
  moreover have "I (snd (TRY (LOGGED (updateSafeTarget e)) (\<lambda>_. OK ([] :: OnTickAction list, head_state)) fc))"
    by (rule keeps_TRY_at[of I, OF ok]) (intro keeps_intros)+
  moreover have "I (snd (TRY (LOGGED (acceptNewAttestations e)) (\<lambda>_. OK ([] :: OnTickAction list, head_state)) fc))"
    by (rule keeps_TRY_at[of I, OF ok]) (intro keeps_intros)+
  ultimately show "I (snd (tick_phase e n head_state fc))"
    using ok by (simp add: tick_phase_def Let_def OK_def)
qed

lemma keeps_apiForkChoice: "keeps I (apiForkChoice e)"
  unfolding apiForkChoice_def by (intro keeps_intros keeps_report)

end

text \<open>A predicate that also survives the advance of the clock.\<close>

locale timed_invariant = store_invariant I e for I and e :: "'s FcEnv" +
  assumes tick_time: "I fc \<Longrightarrow> I (fc\<lparr>fc_time := fc_time fc + 1\<rparr>)"
begin

lemma keeps_tick_loop [keeps_intros]: "keeps I (tick_loop k e n head_state)"
proof (induction k arbitrary: head_state)
  case (Suc k)
  have "keeps I (\<lambda>fc. (Inr (), fc\<lparr>fc_time := fc_time fc + 1\<rparr>))" by (intro keeps_set tick_time)
  then show ?case unfolding tick_loop.simps by (intro keeps_intros Suc)
qed (simp add: keeps_intros)

lemma keeps_onTick: "keeps I (onTick e now)"
proof -
  have "keeps I (TRY (FATAL (\<lambda>fc. ForkChoice_getState e (cp_root (fc_head fc)) fc)) (\<lambda>head_state.
          tick_loop k e (validatorCount head_state) head_state))" for k
    by (intro keeps_intros)
  then show ?thesis by (simp add: keeps_def onTick_def split: option.split)
qed

end

end
