(* ===== verification/AttestationPools.thy ===== *)
theory AttestationPools
  imports StoreInvariants ForkDemo
begin

text \<open>
  The votes and signatures a fork choice store holds.  The invariant \<open>pools_ok\<close> of the two
  stages of latest attestations and of the signatures waiting for aggregation is kept by
  every operation, failing or not, and so holds in every store that the operations reach.
\<close>

subsection \<open>Invariant\<close>

definition vote_ok :: "slot \<Rightarrow> AttestationData \<Rightarrow> bool" where
  "vote_ok limit a \<longleftrightarrow>
     cp_slot (ad_source a) \<le> cp_slot (ad_target a) \<and> cp_slot (ad_target a) \<le> cp_slot (ad_head a) \<and> ad_slot a \<le> limit"

text \<open>No validator has both a single signature and a place in a proof for the same data.\<close>

definition entry_ok :: "ssz \<Rightarrow> hash \<Rightarrow> AttestationsByData \<Rightarrow> bool" where
  "entry_ok z k a \<longleftrightarrow>
     k = hash_attdata z (abd_data a) \<and> omap_wf (abd_signatures a) \<and>
     (\<forall>v \<in> fst ` set (abd_signatures a). \<forall>p \<in> set (abd_proofs a). \<not> AggregationBits_contains (pf_participants p) v)"

definition pools_ok :: "ssz \<Rightarrow> 's ForkChoiceStore \<Rightarrow> bool" where
  "pools_ok z fc \<longleftrightarrow>
     distinct (map fst (fc_latest_known_attestations fc)) \<and> distinct (map fst (fc_latest_new_attestations fc)) \<and>
     distinct (map fst (fc_attestations_by_data fc)) \<and>
     (\<forall>(v, a) \<in> set (fc_latest_known_attestations fc). vote_ok (getCurrentSlot fc + 1) a) \<and>
     (\<forall>(v, a) \<in> set (fc_latest_new_attestations fc). vote_ok (getCurrentSlot fc) a) \<and>
     (\<forall>(k, a) \<in> set (fc_attestations_by_data fc). entry_ok z k a)"

lemma pools_ok_frame [simp]:
  "pools_ok z (fc\<lparr>fc_block_tree := t\<rparr>) = pools_ok z fc" "pools_ok z (fc\<lparr>fc_head := h\<rparr>) = pools_ok z fc"
  "pools_ok z (fc\<lparr>fc_safe_target := h\<rparr>) = pools_ok z fc" "pools_ok z (fc\<lparr>fc_states := c\<rparr>) = pools_ok z fc"
  "pools_ok z (fc\<lparr>fc_dont_propose := b\<rparr>) = pools_ok z fc"
  by (simp_all add: pools_ok_def getCurrentSlot_def)

lemma pools_ok_time: "pools_ok z fc \<Longrightarrow> fc_time fc \<le> t \<Longrightarrow> pools_ok z (fc\<lparr>fc_time := t\<rparr>)"
proof -
  assume ok: "pools_ok z fc" and "fc_time fc \<le> t"
  then have "getCurrentSlot fc \<le> getCurrentSlot (fc\<lparr>fc_time := t\<rparr>)"
    by (simp add: getCurrentSlot_def Interval_slot_def div_le_mono)
  with ok show ?thesis by (fastforce simp: pools_ok_def vote_ok_def)
qed

lemma vote_ok_mono: "vote_ok l a \<Longrightarrow> l \<le> l' \<Longrightarrow> vote_ok l' a"
  by (auto simp: vote_ok_def)

lemma set_AList_update: "set (AList.update k v m) \<subseteq> insert (k, v) (set m)"
  by (induction m) auto

lemma set_AList_delete: "set (AList.delete k m) \<subseteq> set m"
  by (auto simp: AList.delete_eq)

lemma distinct_AList_delete: "distinct (map fst m) \<Longrightarrow> distinct (map fst (AList.delete k m))"
  by (rule distinct_delete)

text \<open>Merging the pending votes into the known ones.\<close>

lemma merge_votes:
  "distinct (map fst m) \<Longrightarrow> distinct (map fst (fold (\<lambda>(v, a). AList.update v a) xs m))"
  "set (fold (\<lambda>(v, a). AList.update v a) xs m) \<subseteq> set xs \<union> set m"
proof -
  show "distinct (map fst m) \<Longrightarrow> distinct (map fst (fold (\<lambda>(v, a). AList.update v a) xs m))"
    by (induction xs arbitrary: m) (auto simp: distinct_update)
  show "set (fold (\<lambda>(v, a). AList.update v a) xs m) \<subseteq> set xs \<union> set m"
  proof (induction xs arbitrary: m)
    case (Cons x xs)
    from Cons[of "AList.update (fst x) (snd x) m"] set_AList_update[of "fst x" "snd x" m]
    show ?case by (auto simp: case_prod_beta)
  qed simp
qed

lemma accept_ok:
  assumes ok: "pools_ok z fc"
  shows "pools_ok z (fc\<lparr>fc_latest_known_attestations :=
             fold (\<lambda>(validator, attestation). AList.update validator attestation)
               (fc_latest_new_attestations fc) (fc_latest_known_attestations fc),
           fc_latest_new_attestations := []\<rparr>)"
proof -
  let ?known = "fold (\<lambda>(v, a). AList.update v a) (fc_latest_new_attestations fc) (fc_latest_known_attestations fc)"
  have "distinct (map fst ?known)" using merge_votes(1) ok by (auto simp: pools_ok_def)
  moreover have "\<forall>(v, a) \<in> set ?known. vote_ok (getCurrentSlot fc + 1) a"
  proof -
    have "\<forall>(v, a) \<in> set (fc_latest_new_attestations fc). vote_ok (getCurrentSlot fc + 1) a"
      using ok by (auto simp: pools_ok_def intro: vote_ok_mono)
    with ok merge_votes(2)[of "fc_latest_new_attestations fc" "fc_latest_known_attestations fc"]
    show ?thesis unfolding pools_ok_def by blast
  qed
  ultimately show ?thesis using ok by (simp add: pools_ok_def getCurrentSlot_def)
qed

lemma validateAttestation_vote_ok:
  assumes "validateAttestation e attestation fc = Inr ()"
  shows "vote_ok (getCurrentSlot fc + 1) (at_data attestation)"
proof -
  have "u64_add (getCurrentSlot fc) 1 \<le> getCurrentSlot fc + 1" by (simp add: u64_add_def)
  with assms show ?thesis
    by (auto simp: validateAttestation_def Let_def result_iffs vote_ok_def split: if_splits)
qed

text \<open>A stage of votes by validator, none of them later than the limit.\<close>

definition stage_ok :: "slot \<Rightarrow> AttestationDataByValidator \<Rightarrow> bool" where
  "stage_ok limit m \<longleftrightarrow> distinct (map fst m) \<and> (\<forall>(v, a) \<in> set m. vote_ok limit a)"

lemma stage_ok_update: "stage_ok l m \<Longrightarrow> vote_ok l a \<Longrightarrow> stage_ok l (AList.update v a m)"
  using set_AList_update[of v a m] by (auto simp: stage_ok_def distinct_update)

lemma stage_ok_delete: "stage_ok l m \<Longrightarrow> stage_ok l (AList.delete v m)"
  using set_AList_delete[of v m] by (auto simp: stage_ok_def distinct_AList_delete)

lemma pools_ok_stages:
  "pools_ok z fc \<longleftrightarrow>
     stage_ok (getCurrentSlot fc + 1) (fc_latest_known_attestations fc) \<and>
     stage_ok (getCurrentSlot fc) (fc_latest_new_attestations fc) \<and>
     distinct (map fst (fc_attestations_by_data fc)) \<and> (\<forall>(k, a) \<in> set (fc_attestations_by_data fc). entry_ok z k a)"
  by (auto simp: pools_ok_def stage_ok_def)

lemma pools_onAttestation: "keeps (pools_ok z) (onAttestation e attestation is_from_block)"
  unfolding keeps_def
proof (intro allI impI)
  fix fc :: "'a ForkChoiceStore" assume ok: "pools_ok z fc"
  show "pools_ok z (snd (onAttestation e attestation is_from_block fc))"
  proof (cases "validateAttestation e attestation fc")
    case (Inl err)
    with ok show ?thesis by (simp add: onAttestation_def TRY_def READ_def)
  next
    case (Inr u)
    then have v: "vote_ok (getCurrentSlot fc + 1) (at_data attestation)" by (intro validateAttestation_vote_ok) simp
    have v': "vote_ok (getCurrentSlot fc) (at_data attestation)" if "\<not> ad_slot (at_data attestation) > getCurrentSlot fc"
      using v that by (simp add: vote_ok_def)
    have slot: "getCurrentSlot (fc\<lparr>fc_latest_known_attestations := m, fc_latest_new_attestations := m'\<rparr>) = getCurrentSlot fc"
      "getCurrentSlot (fc\<lparr>fc_latest_new_attestations := m'\<rparr>) = getCurrentSlot fc" for m m'
      by (simp_all add: getCurrentSlot_def)
    show ?thesis
    proof (cases is_from_block)
      case True
      with ok v Inr show ?thesis
        by (simp add: onAttestation_def TRY_def READ_def Let_def pools_ok_stages slot stage_ok_update stage_ok_delete
            split: option.split)
    next
      case False
      with ok v' Inr show ?thesis
        by (simp add: onAttestation_def TRY_def READ_def Let_def pools_ok_stages slot stage_ok_update)
    qed
  qed
qed

subsection \<open>Aggregation\<close>

text \<open>The validators that an entry holds a signature of, alone or in a proof.\<close>

definition covered :: "AttestationsByData \<Rightarrow> validator_index set" where
  "covered a = fst ` set (abd_signatures a) \<union> {v. \<exists>p \<in> set (abd_proofs a). AggregationBits_contains (pf_participants p) v}"

lemma add_bits_contains [simp]:
  "AggregationBits_contains (fold (\<lambda>i b. AggregationBits_add b i) ids bits) v \<longleftrightarrow>
     v \<in> set ids \<or> AggregationBits_contains bits v"
  by (induction ids arbitrary: bits) auto

lemma union_bits_contains [simp]:
  "AggregationBits_contains (fold (\<lambda>proof bits. fold (\<lambda>i b. AggregationBits_add b i)
      (AggregationBits_iter (pf_participants proof)) bits) proofs bits) v \<longleftrightarrow>
     (\<exists>p \<in> set proofs. AggregationBits_contains (pf_participants p) v) \<or> AggregationBits_contains bits v"
  by (induction proofs arbitrary: bits) auto

lemma fold_add_bits_contains [simp]:
  "AggregationBits_contains (add_bits ids bits) v \<longleftrightarrow> v \<in> set ids \<or> AggregationBits_contains bits v"
  "AggregationBits_contains (fold (\<lambda>proof. add_bits (AggregationBits_iter (pf_participants proof))) proofs bits) v \<longleftrightarrow>
     (\<exists>p \<in> set proofs. AggregationBits_contains (pf_participants p) v) \<or> AggregationBits_contains bits v"
proof -
  show *: "AggregationBits_contains (add_bits ids bits) v \<longleftrightarrow> v \<in> set ids \<or> AggregationBits_contains bits v" for ids bits
    by (simp add: add_bits_def)
  show "AggregationBits_contains (fold (\<lambda>proof. add_bits (AggregationBits_iter (pf_participants proof))) proofs bits) v \<longleftrightarrow>
     (\<exists>p \<in> set proofs. AggregationBits_contains (pf_participants p) v) \<or> AggregationBits_contains bits v"
    by (induction proofs arbitrary: bits) (auto simp: *)
qed

lemma erase_all:
  "set (fold omap_erase ids m) = {p \<in> set m. fst p \<notin> set ids}" "omap_wf m \<Longrightarrow> omap_wf (fold omap_erase ids m)"
proof -
  show "set (fold omap_erase ids m) = {p \<in> set m. fst p \<notin> set ids}"
    by (induction ids arbitrary: m) (auto simp: omap_erase_def)
  show "omap_wf m \<Longrightarrow> omap_wf (fold omap_erase ids m)"
    by (induction ids arbitrary: m) (auto simp: omap_simps)
qed

lemma bits_subset_iff: "bits_subset a b \<longleftrightarrow> (\<forall>i. AggregationBits_contains a i \<longrightarrow> AggregationBits_contains b i)"
  by (simp add: bits_subset_def)

lemma add_proof_covered:
  "covered (add_proof new a) = covered a \<union> {v. AggregationBits_contains (pf_participants new) v}"
  by (auto simp: covered_def add_proof_def Let_def bits_subset_iff erase_all image_iff)

lemma add_proof_ok: "entry_ok z k a \<Longrightarrow> entry_ok z k (add_proof new a)"
  by (auto simp: entry_ok_def add_proof_def Let_def erase_all)

lemma add_signature_covered: "covered (add_signature v sig a) = insert v (covered a)"
  by (auto simp: covered_def add_signature_def omap_put_keys)

lemma add_signature_ok: "entry_ok z k a \<Longrightarrow> entry_ok z k (add_signature v sig a)"
proof -
  assume ok: "entry_ok z k a"
  have "\<forall>w \<in> fst ` set (omap_put v sig (abd_signatures a)). \<forall>p \<in> set (abd_proofs a). \<not> AggregationBits_contains (pf_participants p) w"
    if "\<forall>p \<in> set (abd_proofs a). \<not> AggregationBits_contains (pf_participants p) v"
    unfolding omap_put_keys using ok that by (auto simp: entry_ok_def)
  with ok show ?thesis by (auto simp: entry_ok_def add_signature_def omap_put_wf)
qed

lemma pubkeys_at_eq:
  "pubkeys_at state ids = Inr keys \<longleftrightarrow>
     (\<forall>i \<in> set ids. i < length (st_validators state)) \<and> keys = map (\<lambda>i. va_attestation_pubkey (st_validators state ! i)) ids"
proof -
  have "fold_result (\<lambda>i keys. OUTCOME_TRY (validators_at state i) (\<lambda>v. Inr (keys @ [va_attestation_pubkey v]))) ids acc = Inr keys \<longleftrightarrow>
     (\<forall>i \<in> set ids. i < length (st_validators state)) \<and> keys = acc @ map (\<lambda>i. va_attestation_pubkey (st_validators state ! i)) ids" for acc
    by (induction ids arbitrary: acc) (auto simp: validators_at_def)
  then show ?thesis by (simp add: pubkeys_at_def)
qed

lemma aggregate_one_participants:
  assumes "aggregate_one e state a = Inr proof"
  shows "AggregationBits_contains (pf_participants proof) v \<longleftrightarrow> v \<in> covered a"
proof -
  from assms have "pf_participants proof = fold (\<lambda>proof. add_bits (AggregationBits_iter (pf_participants proof))) (abd_proofs a)
      (add_bits (map fst (abd_signatures a)) [])" by (auto simp: aggregate_one_def result_iffs)
  then show ?thesis by (simp add: covered_def disj_commute)
qed

lemma pools_ok_by_data:
  assumes "pools_ok z fc" "entry_ok z k a"
  shows "pools_ok z (fc\<lparr>fc_attestations_by_data := AList.update k a (fc_attestations_by_data fc)\<rparr>)"
  using assms set_AList_update[of k a "fc_attestations_by_data fc"]
  by (auto simp: pools_ok_def getCurrentSlot_def distinct_update)

lemma attestationsByData_ok:
  assumes "pools_ok z fc"
  shows "entry_ok z (hash_attdata z data) (attestationsByData z data fc)"
proof (cases "map_of (fc_attestations_by_data fc) (hash_attdata z data)")
  case None
  then show ?thesis by (simp add: attestationsByData_def entry_ok_def)
next
  case (Some a)
  then have "(hash_attdata z data, a) \<in> set (fc_attestations_by_data fc)" by (rule map_of_SomeD)
  with assms Some show ?thesis by (auto simp: attestationsByData_def pools_ok_def)
qed

lemma put_by_data_ok:
  "pools_ok z fc \<Longrightarrow> entry_ok z (hash_attdata z data) a \<Longrightarrow> pools_ok z (put_by_data z data a fc)"
  by (simp add: put_by_data_def pools_ok_by_data)

lemma pools_addSignatureToAggregate:
  "keeps (pools_ok (env_ssz e)) (addSignatureToAggregate e data v sig)"
  unfolding addSignatureToAggregate_def
  by (intro keeps_intros) (auto simp: keeps_def intro: put_by_data_ok add_signature_ok attestationsByData_ok)

lemma pools_addProofToAggregate: "keeps (pools_ok (env_ssz e)) (addProofToAggregate e saa)"
  unfolding addProofToAggregate_def Let_def
  by (intro keeps_intros) (auto simp: keeps_def intro: put_by_data_ok add_proof_ok attestationsByData_ok)

lemma prune_ok: "pools_ok z fc \<Longrightarrow> pools_ok z (prune slot fc)"
  by (auto simp: pools_ok_def prune_def getCurrentSlot_def distinct_map_filter)

lemma pools_aggregate_entries:
  "\<forall>(k, a) \<in> set entries. entry_ok (env_ssz e) k a \<Longrightarrow> keeps (pools_ok (env_ssz e)) (aggregate_entries e entries)"
proof (induction entries)
  case (Cons x rest)
  obtain key a where x: "x = (key, a)" by fastforce
  have IH: "keeps (pools_ok (env_ssz e)) (aggregate_entries e rest)" using Cons by simp
  have "entry_ok (env_ssz e) key (a\<lparr>abd_signatures := [], abd_proofs := [proof]\<rparr>)" for "proof"
    using Cons.prems x by (simp add: entry_ok_def)
  then have "keeps (pools_ok (env_ssz e)) (\<lambda>fc. (Inr (), fc\<lparr>fc_attestations_by_data :=
      AList.update key (a\<lparr>abd_signatures := [], abd_proofs := [proof]\<rparr>) (fc_attestations_by_data fc)\<rparr>))" for "proof"
    by (intro keeps_set pools_ok_by_data)
  moreover have "keeps (pools_ok (env_ssz e)) (ForkChoice_getState e h)" for h
    by (auto simp: keeps_def ForkChoice_getState_def split: prod.splits)
  ultimately show ?case using IH unfolding x aggregate_entries.simps by (intro keeps_intros)
qed (simp add: keeps_intros)

lemma pools_aggregateSignatures: "keeps (pools_ok (env_ssz e)) (aggregateSignatures e)"
  unfolding keeps_def aggregateSignatures_def
proof (intro allI impI)
  fix fc :: "'a ForkChoiceStore" assume ok: "pools_ok (env_ssz e) fc"
  then have "\<forall>(k, a) \<in> set (fc_attestations_by_data fc). entry_ok (env_ssz e) k a" by (simp add: pools_ok_def)
  from pools_aggregate_entries[OF this] ok
  show "pools_ok (env_ssz e) (snd (aggregate_entries e (fc_attestations_by_data fc) fc))" by (simp add: keeps_def)
qed

interpretation pools: timed_invariant "pools_ok (env_ssz e)" e for e :: "'s FcEnv"
  by unfold_locales
    (auto simp: pools_onAttestation pools_addSignatureToAggregate pools_addProofToAggregate
      pools_aggregateSignatures intro: accept_ok prune_ok pools_ok_time)

subsection \<open>Reachable stores\<close>

text \<open>One call of a public operation, whatever it returns.\<close>

inductive store_step :: "'s FcEnv \<Rightarrow> 's ForkChoiceStore \<Rightarrow> 's ForkChoiceStore \<Rightarrow> bool" for e fc where
  step_tick: "onTick e now fc = (r, fc') \<Longrightarrow> store_step e fc fc'"
| step_block: "onBlock e sb fc = (r1, fc') \<Longrightarrow> store_step e fc fc'"
| step_gossip: "onGossipAttestation e sa fc = (r1, fc') \<Longrightarrow> store_step e fc fc'"
| step_aggregated: "onGossipAggregatedAttestation e saa fc = (r1, fc') \<Longrightarrow> store_step e fc fc'"
| step_attestation: "onAttestation e a from_block fc = (r1, fc') \<Longrightarrow> store_step e fc fc'"
| step_produce: "produceBlockWithSignatures e slot i fc = (r2, fc') \<Longrightarrow> store_step e fc fc'"
| step_accept: "acceptNewAttestations e fc = (r1, fc') \<Longrightarrow> store_step e fc fc'"
| step_head: "updateHead e fc = (r1, fc') \<Longrightarrow> store_step e fc fc'"
| step_safe_target: "updateSafeTarget e fc = (r1, fc') \<Longrightarrow> store_step e fc fc'"
| step_api: "apiForkChoice e fc = (r3, fc') \<Longrightarrow> store_step e fc fc'"
| step_dont: "store_step e fc (dontPropose fc)"

inductive store_reachable :: "'s FcEnv \<Rightarrow> 's ForkChoiceStore \<Rightarrow> bool" for e where
  reach_new: "ForkChoiceStore_new e anchor_state anchor_block now is_aggregator subnets t = Inr fc \<Longrightarrow> store_reachable e fc"
| reach_step: "store_reachable e fc \<Longrightarrow> store_step e fc fc' \<Longrightarrow> store_reachable e fc'"

lemma pools_step:
  assumes "store_step e fc fc'" "pools_ok (env_ssz e) fc"
  shows "pools_ok (env_ssz e) fc'"
proof -
  note keep = keepsD[of "pools_ok (env_ssz e)", OF _ assms(2)]
  from assms(1) show ?thesis
  proof cases
    case step_dont
    with assms(2) show ?thesis by (simp add: dontPropose_def)
  qed (fact keep[OF pools.keeps_onTick] keep[OF pools.keeps_onBlock] keep[OF pools.keeps_onGossipAttestation]
      keep[OF pools.keeps_onGossipAggregatedAttestation] keep[OF pools_onAttestation]
      keep[OF pools.keeps_produceBlockWithSignatures] keep[OF pools.keeps_acceptNewAttestations]
      keep[OF pools.keeps_updateHead] keep[OF pools.keeps_updateSafeTarget] keep[OF pools.keeps_apiForkChoice])+
qed

lemma pools_new:
  assumes "ForkChoiceStore_new e anchor_state anchor_block now is_aggregator subnets t = Inr fc"
  shows "pools_ok (env_ssz e) fc"
proof -
  have k: "keeps (pools_ok (env_ssz e)) (TRY (LOGGED (updateSafeTarget e)) (\<lambda>_. LOGGED (updateHead e)))"
    by (intro keeps_intros)
  from assms obtain v c fc1 r where
    run: "TRY (LOGGED (updateSafeTarget e)) (\<lambda>_. LOGGED (updateHead e))
      \<lparr>fc_block_tree = t,
       fc_time = (case Interval_fromTime now (st_config anchor_state) of Some i \<Rightarrow> i | None \<Rightarrow> Interval_fromSlot 0 0),
       fc_config = st_config anchor_state, fc_head = getLatestJustified t,
       fc_safe_target = \<lparr>cp_root = kZeroHash, cp_slot = 0\<rparr>, fc_states = c, fc_latest_known_attestations = [],
       fc_latest_new_attestations = [], fc_attestations_by_data = [], fc_validator_id = v,
       fc_is_aggregator = is_aggregator, fc_subnet_count = subnets, fc_dont_propose = False,
       fc_anchor_block_slots = []\<rparr> = (Inr r, fc1)"
      (is "TRY _ _ ?fc0 = _")
    and fc: "fc = fc1\<lparr>fc_anchor_block_slots := anchor_slots (st_historical_block_hashes anchor_state)\<rparr>"
    unfolding ForkChoiceStore_new_def Let_def
    by (auto simp: result_iffs split: if_splits prod.splits sum.splits)
  have "pools_ok (env_ssz e) ?fc0" by (simp add: pools_ok_def)
  from keepsD[OF k this run] show ?thesis unfolding fc by (simp add: pools_ok_def getCurrentSlot_def)
qed

subsection \<open>Coverage\<close>

lemma attestationsByData_put [simp]: "attestationsByData z data (put_by_data z data a fc) = a"
  by (simp add: attestationsByData_def put_by_data_def update_conv')

text \<open>What an action on the store leaves of the signatures gathered for aggregation.\<close>

definition covered_at :: "'s ForkChoiceStore \<Rightarrow> hash \<Rightarrow> validator_index set" where
  "covered_at fc k = (case map_of (fc_attestations_by_data fc) k of None \<Rightarrow> {} | Some a \<Rightarrow> covered a)"

lemma covered_by_data: "covered (attestationsByData z data fc) = covered_at fc (hash_attdata z data)"
  by (simp add: attestationsByData_def covered_at_def covered_def split: option.split)

lemma aggregate_entries_covered:
  assumes "aggregate_entries e entries fc = (Inr out, fc')" "distinct (map fst entries)"
    and "\<forall>(k, a) \<in> set entries. map_of (fc_attestations_by_data fc) k = Some a"
  shows "covered_at fc' k = covered_at fc k"
    and "\<forall>saa \<in> set out. \<exists>(k, a) \<in> set entries. saa_data saa = abd_data a \<and>
      (\<forall>v. AggregationBits_contains (pf_participants (saa_proof saa)) v \<longleftrightarrow> v \<in> covered a)"
proof -
  have "covered_at fc' k = covered_at fc k \<and> (\<forall>saa \<in> set out. \<exists>(k, a) \<in> set entries. saa_data saa = abd_data a \<and>
      (\<forall>v. AggregationBits_contains (pf_participants (saa_proof saa)) v \<longleftrightarrow> v \<in> covered a))"
    using assms
  proof (induction entries arbitrary: fc out)
    case (Cons x rest)
    obtain key a where x: "x = (key, a)" by fastforce
    let ?get = "CATCH (TRY (ForkChoice_getState e (cp_root (ad_target (abd_data a)))) (\<lambda>s. OK (Some s))) (\<lambda>_. OK None)"
    have states: "\<exists>c. snd (?get s) = s\<lparr>fc_states := c\<rparr>" for s
      by (auto simp: CATCH_def TRY_def OK_def ForkChoice_getState_def split: prod.splits sum.splits)
    have rest: "map_of (fc_attestations_by_data fc) k = Some b" if "(k, b) \<in> set rest" for k b
      using Cons.prems(3) that by auto
    show ?case
    proof (cases "abd_signatures a = [] \<and> length (abd_proofs a) \<le> 1")
      case True
      with Cons.prems(1) x have "aggregate_entries e rest fc = (Inr out, fc')" by simp
      from Cons.IH[OF this] Cons.prems(2) rest show ?thesis unfolding x by auto
    next
      case False
      with Cons.prems(1) x obtain s fc1 where get: "?get fc = (Inr s, fc1)"
        and go: "(case s of None \<Rightarrow> aggregate_entries e rest
          | Some state \<Rightarrow>
            TRY (LIFT (aggregate_one e state a)) (\<lambda>proof.
            TRY (\<lambda>fc. (Inr (), fc\<lparr>fc_attestations_by_data :=
                   AList.update key (a\<lparr>abd_signatures := [], abd_proofs := [proof]\<rparr>) (fc_attestations_by_data fc)\<rparr>)) (\<lambda>_.
            TRY (aggregate_entries e rest) (\<lambda>more.
            OK (\<lparr>saa_data = abd_data a, saa_proof = proof\<rparr> # more))))) fc1 = (Inr out, fc')"
        by (auto simp: TRY_eq_Inr)
      obtain c where fc1: "fc1 = fc\<lparr>fc_states := c\<rparr>" using states[of fc] get by auto
      show ?thesis
      proof (cases s)
        case None
        with go have "aggregate_entries e rest fc1 = (Inr out, fc')" by simp
        from Cons.IH[OF this] Cons.prems(2) rest show ?thesis unfolding x fc1 by (auto simp: covered_at_def)
      next
        case (Some state)
        with go obtain proof1 more where one: "aggregate_one e state a = Inr proof1"
          and more: "aggregate_entries e rest (fc1\<lparr>fc_attestations_by_data :=
               AList.update key (a\<lparr>abd_signatures := [], abd_proofs := [proof1]\<rparr>) (fc_attestations_by_data fc1)\<rparr>) = (Inr more, fc')"
          and out: "out = \<lparr>saa_data = abd_data a, saa_proof = proof1\<rparr> # more"
          by (auto simp: TRY_eq_Inr LIFT_def OK_def)
        note part = aggregate_one_participants[OF one]
        have same: "covered (a\<lparr>abd_signatures := [], abd_proofs := [proof1]\<rparr>) = covered a"
          using part by (auto simp: covered_def)
        have key: "map_of (fc_attestations_by_data fc) key = Some a" using Cons.prems(3) x by simp
        have other: "(k, b) \<in> set rest \<Longrightarrow> k \<noteq> key" for k b using Cons.prems(2) x by force
        let ?fc2 = "fc1\<lparr>fc_attestations_by_data :=
               AList.update key (a\<lparr>abd_signatures := [], abd_proofs := [proof1]\<rparr>) (fc_attestations_by_data fc1)\<rparr>"
        have pre: "\<forall>(k, b) \<in> set rest. map_of (fc_attestations_by_data ?fc2) k = Some b"
          using rest other by (auto simp: fc1 update_conv')
        have "covered_at ?fc2 k = covered_at fc k" using same key by (simp add: covered_at_def fc1 update_conv')
        with Cons.IH[OF more _ pre] Cons.prems(2) have cov: "covered_at fc' k = covered_at fc k"
          and more_ok: "\<forall>saa \<in> set more. \<exists>(k, a) \<in> set rest. saa_data saa = abd_data a \<and>
            (\<forall>v. AggregationBits_contains (pf_participants (saa_proof saa)) v \<longleftrightarrow> v \<in> covered a)"
          by simp_all
        show ?thesis unfolding out x using cov more_ok part by auto
      qed
    qed
  qed (simp add: OK_def)
  then show "covered_at fc' k = covered_at fc k"
    "\<forall>saa \<in> set out. \<exists>(k, a) \<in> set entries. saa_data saa = abd_data a \<and>
      (\<forall>v. AggregationBits_contains (pf_participants (saa_proof saa)) v \<longleftrightarrow> v \<in> covered a)" by auto
qed

subsection \<open>Acceptance of pending votes\<close>

lemma updateHead_frame: "\<exists>h. snd (updateHead e fc) = fc\<lparr>fc_head := h\<rparr>"
proof -
  have "keeps (\<lambda>s. \<exists>h. s = fc\<lparr>fc_head := h\<rparr>) (updateHead e)"
    unfolding updateHead_def Let_def by (intro keeps_intros keeps_set) auto
  moreover have "fc = fc\<lparr>fc_head := fc_head fc\<rparr>" by simp
  ultimately show ?thesis unfolding keeps_def by metis
qed

lemma merge_lookup:
  "distinct (map fst xs) \<Longrightarrow> map_of (fold (\<lambda>(v, a). AList.update v a) xs m) v =
     (case map_of xs v of Some a \<Rightarrow> Some a | None \<Rightarrow> map_of m v)"
proof (induction xs arbitrary: m)
  case (Cons x xs)
  obtain w a where x: "x = (w, a)" by fastforce
  have "map_of xs w = None" using Cons.prems x by (simp add: map_of_eq_None_iff)
  with Cons x show ?case by (auto simp: update_conv' split: option.split)
qed simp

lemma accept_known:
  assumes "distinct (map fst (fc_latest_new_attestations fc))"
  shows "map_of (fc_latest_known_attestations (snd (acceptNewAttestations e fc))) v =
    (case map_of (fc_latest_new_attestations fc) v of Some a \<Rightarrow> Some a | None \<Rightarrow> map_of (fc_latest_known_attestations fc) v)"
proof -
  obtain h where "snd (acceptNewAttestations e fc) =
      fc\<lparr>fc_latest_known_attestations := fold (\<lambda>(v, a). AList.update v a) (fc_latest_new_attestations fc) (fc_latest_known_attestations fc),
         fc_latest_new_attestations := [], fc_head := h\<rparr>"
    unfolding acceptNewAttestations_def
    using updateHead_frame[of e "fc\<lparr>fc_latest_known_attestations := fold (\<lambda>(v, a). AList.update v a) (fc_latest_new_attestations fc) (fc_latest_known_attestations fc),
         fc_latest_new_attestations := []\<rparr>"] by auto
  with merge_lookup[OF assms] show ?thesis by simp
qed

subsection \<open>Properties\<close>

text \<open>
  C13. The invariant of the pools: in every store the public operations reach from the
  constructor, failing calls included, a validator has at most one known and one pending
  vote; every vote has source, target and head in slot order; pending votes are not later
  than the current slot and known votes at most one slot later; and no validator has a
  single signature waiting for data for which a stored proof already covers it.
\<close>

theorem reachable_pools_ok:
  assumes "store_reachable e fc"
  shows "pools_ok (env_ssz e) fc"
  using assms by (induction rule: store_reachable.induct) (auto intro: pools_new pools_step)

lemma fd_new: "\<exists>fc. ForkChoiceStore_new fd_env (Chains.demo_state 0 0 0 []) (fd_header 0) 9000 False 1 fd_block_tree = Inr fc"
proof -
  have no_state: "loadState fd_env 1000 fc = Inl (E_FC STATE_NOT_FOUND)" if "fc_block_tree fc = fd_block_tree" for fc
    using that by (simp add: loadState_def getState_def fd_read fd_storage_def)
  have safe: "\<exists>c. LOGGED (updateSafeTarget fd_env) fc = (Inr None, fc\<lparr>fc_states := c\<rparr>)"
    if "fc_block_tree fc = fd_block_tree" "fc_head fc = demo_checkpoint 0"
      "fc_states fc = \<lparr>lc_max_size = 16, lc_bits = 64, lc_ticks = 0, lc_cache = []\<rparr>" for fc
    using that no_state[OF that(1)]
    by (simp add: LOGGED_def updateSafeTarget_def CATCH_def TRY_def OK_def ForkChoice_getState_def lru_get_else_def
        lru_get_def lru_tick_def Let_def) blast
  have head: "\<exists>fc'. LOGGED (updateHead fd_env) fc = (Inr (Some ()), fc')"
    if "fc_block_tree fc = fd_block_tree" "fc_head fc = demo_checkpoint 0" "fc_anchor_block_slots fc = []"
      "fc_latest_known_attestations fc = []" for fc
    using that
    by (simp add: LOGGED_def updateHead_def CATCH_def TRY_def OK_def READ_def Let_def fd_head getBlockSlot_def
        getSlotByHash_def common_ancestor_numeral lift_one_def BlockTree_getBlockHeader_def getBlockHeaderNoLock_def)
  define fc0 where "fc0 = fd_store\<lparr>fc_head := demo_checkpoint 0, fc_safe_target := \<lparr>cp_root = 0, cp_slot = 0\<rparr>\<rparr>"
  obtain c where s: "LOGGED (updateSafeTarget fd_env) fc0 = (Inr None, fc0\<lparr>fc_states := c\<rparr>)"
    using safe[of fc0] by (auto simp: fc0_def fd_store_def)
  obtain fc' where h: "LOGGED (updateHead fd_env) (fc0\<lparr>fc_states := c\<rparr>) = (Inr (Some ()), fc')"
    using head[of "fc0\<lparr>fc_states := c\<rparr>"] by (auto simp: fc0_def fd_store_def)
  have "hdr_state_root (fd_header 0) = 500" "Interval_fromTime 9000 \<lparr>cfg_genesis_time = 0\<rparr> = Some 11"
    by (simp_all add: fd_header_def getHeader_def demo_block_def Interval_fromTime_def genesisTimeMs_def INTERVAL_DURATION_MS_def)
  then show ?thesis
    using s h
    by (simp add: ForkChoiceStore_new_def getValidatorId_def lru_new_def kStateCacheSize_def kZeroHash_def TRY_def Let_def
        fc0_def fd_store_def Chains.demo_state_def)
qed

theorem reachable_pools_ok_witness:
  "\<exists>fc. store_reachable fd_env (dontPropose fc) \<and> pools_ok fd_ssz (dontPropose fc)"
proof -
  obtain fc where "store_reachable fd_env fc" using fd_new reach_new by blast
  then have "store_reachable fd_env (dontPropose fc)" by (rule reach_step[OF _ step_dont])
  with reachable_pools_ok[OF this] show ?thesis by auto
qed

text \<open>What the three operations do to the validators covered for each data.\<close>

lemma put_by_data_other:
  "hash_attdata z data' \<noteq> hash_attdata z data \<Longrightarrow>
   attestationsByData z data' (put_by_data z data a fc) = attestationsByData z data' fc"
  by (simp add: attestationsByData_def put_by_data_def update_conv')

lemma added_signature_covered:
  "addSignatureToAggregate e data v sig fc = (Inr (), fc0) \<and> getLatestFinalized fc = Inr finalized \<and>
      cp_slot finalized \<le> cp_slot (ad_target data) \<longrightarrow>
      covered (attestationsByData (env_ssz e) data fc0) = insert v (covered (attestationsByData (env_ssz e) data fc)) \<and>
      (\<forall>data'. hash_attdata (env_ssz e) data' \<noteq> hash_attdata (env_ssz e) data \<longrightarrow>
         attestationsByData (env_ssz e) data' fc0 = attestationsByData (env_ssz e) data' fc)"
  by (auto simp: addSignatureToAggregate_def TRY_def READ_def add_signature_covered put_by_data_other)

lemma added_proof_covered:
  "addProofToAggregate e saa fc = (Inr (), fc1) \<and> getLatestFinalized fc = Inr finalized \<and>
      cp_slot finalized \<le> cp_slot (ad_target (saa_data saa)) \<longrightarrow>
      covered (attestationsByData (env_ssz e) (saa_data saa) fc1) =
        covered (attestationsByData (env_ssz e) (saa_data saa) fc) \<union>
        {v. AggregationBits_contains (pf_participants (saa_proof saa)) v} \<and>
      (\<forall>data'. hash_attdata (env_ssz e) data' \<noteq> hash_attdata (env_ssz e) (saa_data saa) \<longrightarrow>
         attestationsByData (env_ssz e) data' fc1 = attestationsByData (env_ssz e) data' fc)"
  by (auto simp: addProofToAggregate_def TRY_def READ_def Let_def add_proof_covered put_by_data_other)

lemma aggregated_covered:
  assumes "pools_ok (env_ssz e) fc" and run: "aggregateSignatures e fc = (Inr out, fc2)"
  shows "covered (attestationsByData (env_ssz e) data fc2) = covered (attestationsByData (env_ssz e) data fc)"
    and "s \<in> set out \<Longrightarrow> AggregationBits_contains (pf_participants (saa_proof s)) v \<longleftrightarrow>
      v \<in> covered (attestationsByData (env_ssz e) (saa_data s) fc)"
proof -
  let ?m = "fc_attestations_by_data fc"
  have d: "distinct (map fst ?m)" using assms(1) by (simp add: pools_ok_def)
  then have m: "\<forall>(k, a) \<in> set ?m. map_of ?m k = Some a" by auto
  note agg = aggregate_entries_covered[OF run[unfolded aggregateSignatures_def] d m]
  show "covered (attestationsByData (env_ssz e) data fc2) = covered (attestationsByData (env_ssz e) data fc)"
    using agg(1) by (simp add: covered_by_data)
  assume "s \<in> set out"
  with agg(2) obtain k a where a: "(k, a) \<in> set ?m" "saa_data s = abd_data a"
    "\<forall>v. AggregationBits_contains (pf_participants (saa_proof s)) v \<longleftrightarrow> v \<in> covered a" by blast
  from a(1) assms(1) have "k = hash_attdata (env_ssz e) (abd_data a)" by (auto simp: pools_ok_def entry_ok_def)
  with a m have "attestationsByData (env_ssz e) (saa_data s) fc = a" by (auto simp: attestationsByData_def)
  with a(3) show "AggregationBits_contains (pf_participants (saa_proof s)) v \<longleftrightarrow>
      v \<in> covered (attestationsByData (env_ssz e) (saa_data s) fc)" by simp
qed

text \<open>
  C14. No signature gathered for aggregation is lost.  Adding a signature for data that is not
  older than finality makes the validators covered for that data the earlier ones and the
  signer, and adding a proof makes them the earlier ones and the participants of the proof;
  both leave the entries of other data alone.  Aggregation leaves the covered validators as
  they were for all data, with every produced proof covering exactly the validators gathered
  for its data.
\<close>

theorem signatures_not_lost:
  assumes "pools_ok (env_ssz e) fc"
  shows "(addSignatureToAggregate e data v sig fc = (Inr (), fc0) \<and> getLatestFinalized fc = Inr finalized \<and>
      cp_slot finalized \<le> cp_slot (ad_target data) \<longrightarrow>
      covered (attestationsByData (env_ssz e) data fc0) = insert v (covered (attestationsByData (env_ssz e) data fc)) \<and>
      (\<forall>data'. hash_attdata (env_ssz e) data' \<noteq> hash_attdata (env_ssz e) data \<longrightarrow>
         attestationsByData (env_ssz e) data' fc0 = attestationsByData (env_ssz e) data' fc)) \<and>
    (addProofToAggregate e saa fc = (Inr (), fc1) \<and> getLatestFinalized fc = Inr finalized \<and>
      cp_slot finalized \<le> cp_slot (ad_target (saa_data saa)) \<longrightarrow>
      covered (attestationsByData (env_ssz e) (saa_data saa) fc1) =
        covered (attestationsByData (env_ssz e) (saa_data saa) fc) \<union>
        {v. AggregationBits_contains (pf_participants (saa_proof saa)) v} \<and>
      (\<forall>data'. hash_attdata (env_ssz e) data' \<noteq> hash_attdata (env_ssz e) (saa_data saa) \<longrightarrow>
         attestationsByData (env_ssz e) data' fc1 = attestationsByData (env_ssz e) data' fc)) \<and>
    (aggregateSignatures e fc = (Inr out, fc2) \<longrightarrow>
      (\<forall>data. covered (attestationsByData (env_ssz e) data fc2) = covered (attestationsByData (env_ssz e) data fc)) \<and>
      (\<forall>s \<in> set out. \<forall>v. AggregationBits_contains (pf_participants (saa_proof s)) v \<longleftrightarrow>
         v \<in> covered (attestationsByData (env_ssz e) (saa_data s) fc)))"
proof (intro conjI)
  show "addSignatureToAggregate e data v sig fc = (Inr (), fc0) \<and> getLatestFinalized fc = Inr finalized \<and>
      cp_slot finalized \<le> cp_slot (ad_target data) \<longrightarrow>
      covered (attestationsByData (env_ssz e) data fc0) = insert v (covered (attestationsByData (env_ssz e) data fc)) \<and>
      (\<forall>data'. hash_attdata (env_ssz e) data' \<noteq> hash_attdata (env_ssz e) data \<longrightarrow>
         attestationsByData (env_ssz e) data' fc0 = attestationsByData (env_ssz e) data' fc)"
    by (rule added_signature_covered)
  show "addProofToAggregate e saa fc = (Inr (), fc1) \<and> getLatestFinalized fc = Inr finalized \<and>
      cp_slot finalized \<le> cp_slot (ad_target (saa_data saa)) \<longrightarrow>
      covered (attestationsByData (env_ssz e) (saa_data saa) fc1) =
        covered (attestationsByData (env_ssz e) (saa_data saa) fc) \<union>
        {v. AggregationBits_contains (pf_participants (saa_proof saa)) v} \<and>
      (\<forall>data'. hash_attdata (env_ssz e) data' \<noteq> hash_attdata (env_ssz e) (saa_data saa) \<longrightarrow>
         attestationsByData (env_ssz e) data' fc1 = attestationsByData (env_ssz e) data' fc)"
    by (rule added_proof_covered)
  show "aggregateSignatures e fc = (Inr out, fc2) \<longrightarrow>
      (\<forall>data. covered (attestationsByData (env_ssz e) data fc2) = covered (attestationsByData (env_ssz e) data fc)) \<and>
      (\<forall>s \<in> set out. \<forall>v. AggregationBits_contains (pf_participants (saa_proof s)) v \<longleftrightarrow>
         v \<in> covered (attestationsByData (env_ssz e) (saa_data s) fc))"
    using aggregated_covered[OF assms] by blast
qed

definition fd_signed_store :: "InMemorySpacedStorage ForkChoiceStore" where
  "fd_signed_store = fd_store\<lparr>fc_attestations_by_data :=
     [(301, \<lparr>abd_data = aa_data (demo_attestation 0 1), abd_signatures = [(0, [1]), (2, [1])], abd_proofs = []\<rparr>)]\<rparr>"

lemma fd_signed_ok: "pools_ok fd_ssz fd_signed_store"
  by (simp add: pools_ok_def fd_signed_store_def fd_store_def entry_ok_def demo_attestation_def)

theorem signatures_not_lost_witness:
  "\<exists>fc0 fc1 out fc2.
     addSignatureToAggregate fd_env (aa_data (demo_attestation 0 1)) 5 [1] fd_signed_store = (Inr (), fc0) \<and>
     covered (attestationsByData fd_ssz (aa_data (demo_attestation 0 1)) fc0) = {0, 2, 5} \<and>
     addProofToAggregate fd_env \<lparr>saa_data = aa_data (demo_attestation 0 1), saa_proof = \<lparr>pf_participants = [False, True], pf_data = [9]\<rparr>\<rparr>
       fd_signed_store = (Inr (), fc1) \<and>
     covered (attestationsByData fd_ssz (aa_data (demo_attestation 0 1)) fc1) = {0, 1, 2} \<and>
     aggregateSignatures fd_env fd_signed_store = (Inr out, fc2) \<and>
     covered (attestationsByData fd_ssz (aa_data (demo_attestation 0 1)) fc2) = {0, 2}"
proof -
  let ?d = "aa_data (demo_attestation 0 1)"
  let ?saa = "\<lparr>saa_data = ?d, saa_proof = \<lparr>pf_participants = [False, True], pf_data = [9]\<rparr>\<rparr>"
  have fin: "getLatestFinalized fd_signed_store = Inr (demo_checkpoint 0)"
    by (simp add: getLatestFinalized_def fd_signed_store_def fd_store_def toCheckpoint_def demo_checkpoint_def)
  obtain fc0 where fc0: "addSignatureToAggregate fd_env ?d 5 [1] fd_signed_store = (Inr (), fc0)"
    by (simp add: addSignatureToAggregate_def TRY_def READ_def fin)
  obtain fc1 where fc1: "addProofToAggregate fd_env ?saa fd_signed_store = (Inr (), fc1)"
    by (simp add: addProofToAggregate_def TRY_def READ_def fin Let_def)
  have state: "ForkChoice_getState fd_env 1001 fd_signed_store =
      (Inr (Chains.demo_state 1 0 0 []), fd_signed_store\<lparr>fc_states := fd_cache\<rparr>)"
    by (rule fd_getState) (simp_all add: fd_signed_store_def fd_store_def)
  have one: "\<exists>p. aggregate_one fd_env (Chains.demo_state 1 0 0 [])
      \<lparr>abd_data = ?d, abd_signatures = [(0, [1]), (2, [1])], abd_proofs = []\<rparr> = Inr p"
    by (simp add: aggregate_one_def pubkeys_at_def validators_at_def Chains.demo_state_def demo_validators_def)
  have by_data: "fc_attestations_by_data fd_signed_store =
      [(301, \<lparr>abd_data = ?d, abd_signatures = [(0, [1]), (2, [1])], abd_proofs = []\<rparr>)]"
    by (simp add: fd_signed_store_def)
  have "\<exists>out fc2. aggregateSignatures fd_env fd_signed_store = (Inr out, fc2)"
    using one by (auto simp: aggregateSignatures_def by_data CATCH_def TRY_def OK_def LIFT_def state)
  then obtain out fc2 where fc2: "aggregateSignatures fd_env fd_signed_store = (Inr out, fc2)" by blast
  have "covered (attestationsByData fd_ssz ?d fd_signed_store) = {0, 2}"
    by (simp add: attestationsByData_def by_data covered_def demo_attestation_def)
  moreover have "{v. AggregationBits_contains [False, True] v} = {1}"
    by (auto simp: AggregationBits_contains_def nth_Cons' less_Suc_eq)
  ultimately show ?thesis
    using signatures_not_lost[of fd_env fd_signed_store ?d 5 "[1]" fc0 "demo_checkpoint 0" ?saa fc1 out fc2] fd_signed_ok fc0 fc1 fc2 fin
    by (auto simp: insert_commute)
qed

text \<open>
  C19. A pending vote replaces a newer known one: when a validator's known vote is newer
  than a valid vote that arrives by gossip and nothing is pending, accepting the pending
  votes leaves the older vote as the known one.
\<close>

theorem accept_overwrites_newer:
  assumes "pools_ok (env_ssz e) fc"
    and "onAttestation e \<lparr>at_validator_id = v, at_data = old\<rparr> False fc = (Inr (), fc1)"
    and "map_of (fc_latest_new_attestations fc) v = None"
    and "map_of (fc_latest_known_attestations fc) v = Some newer" "ad_slot old < ad_slot newer"
  shows "map_of (fc_latest_known_attestations (snd (acceptNewAttestations e fc1))) v = Some old"
proof -
  let ?new = "AList.update v old (fc_latest_new_attestations fc)"
  from assms(2,3) have fc1: "fc1 = fc\<lparr>fc_latest_new_attestations := ?new\<rparr>"
    by (auto simp: onAttestation_def TRY_def READ_def Let_def split: sum.splits if_splits)
  have "distinct (map fst ?new)" using assms(1) by (auto simp: pools_ok_def distinct_update)
  from accept_known[of fc1 e v] this show ?thesis by (simp add: fc1 update_conv')
qed

lemma fd_valid_attestation:
  assumes "fc_block_tree fc = fd_block_tree" "fc_anchor_block_slots fc = []" "fc_time fc = 11"
  shows "validateAttestation fd_env \<lparr>at_validator_id = v, at_data = aa_data (demo_attestation 0 1)\<rparr> fc = Inr ()"
  using assms
  by (simp add: validateAttestation_def Let_def has_block_def BlockTree_has_def slot_consistent_def getBlockSlot_def
      getSlotByHash_def getCurrentSlot_def Interval_slot_def INTERVALS_PER_SLOT_def u64_add_def demo_attestation_def)

definition fd_newer_store :: "InMemorySpacedStorage ForkChoiceStore" where
  "fd_newer_store = fd_store\<lparr>fc_latest_known_attestations := [(0, (aa_data (demo_attestation 0 1))\<lparr>ad_slot := 2\<rparr>)]\<rparr>"

theorem accept_overwrites_newer_witness:
  "\<exists>fc1. onAttestation fd_env \<lparr>at_validator_id = 0, at_data = aa_data (demo_attestation 0 1)\<rparr> False fd_newer_store = (Inr (), fc1) \<and>
     map_of (fc_latest_known_attestations fd_newer_store) 0 = Some ((aa_data (demo_attestation 0 1))\<lparr>ad_slot := 2\<rparr>) \<and>
     map_of (fc_latest_known_attestations (snd (acceptNewAttestations fd_env fc1))) 0 = Some (aa_data (demo_attestation 0 1))"
proof -
  have ok: "pools_ok (env_ssz fd_env) fd_newer_store"
    by (simp add: pools_ok_def fd_newer_store_def fd_store_def vote_ok_def getCurrentSlot_def Interval_slot_def
        INTERVALS_PER_SLOT_def demo_attestation_def)
  have valid: "validateAttestation fd_env \<lparr>at_validator_id = 0, at_data = aa_data (demo_attestation 0 1)\<rparr> fd_newer_store = Inr ()"
    by (rule fd_valid_attestation) (simp_all add: fd_newer_store_def fd_store_def)
  have "ad_slot (aa_data (demo_attestation 0 1)) = 1" by (simp add: demo_attestation_def)
  with valid obtain fc1 where
    fc1: "onAttestation fd_env \<lparr>at_validator_id = 0, at_data = aa_data (demo_attestation 0 1)\<rparr> False fd_newer_store = (Inr (), fc1)"
    by (simp add: onAttestation_def TRY_def READ_def Let_def getCurrentSlot_def Interval_slot_def INTERVALS_PER_SLOT_def
        fd_newer_store_def fd_store_def)
  from accept_overwrites_newer[OF ok fc1] fc1 show ?thesis
    by (simp add: fd_newer_store_def fd_store_def demo_attestation_def)
qed

end
