(* ===== verification/BlockImport.thy ===== *)
theory BlockImport
  imports ForkDemo StoreInvariants
begin

text \<open>
  The import of a block: what has to hold before it changes the store, what its signature
  checks do not cover, and how it fails on a proposer index outside the validator set.
\<close>

subsection \<open>A run of the import\<close>

text \<open>A block of slot two on top of the demonstration store, with one aggregated signature.\<close>

definition fd_signed :: "AggregatedAttestation list \<Rightarrow> AggregatedSignatureProof list \<Rightarrow> SignedBlock" where
  "fd_signed atts proofs =
     \<lparr>sb_block = demo_block 2 atts,
      sb_signature = \<lparr>bs_attestation_signatures = proofs, bs_proposer_signature = [1]\<rparr>\<rparr>"

definition fd_spaces1 :: InMemorySpacedStorage where
  "fd_spaces1 =
     [(Header, \<lparr>ims_storage = [(hash_bytes 1000, [0]), (hash_bytes 1001, [1]), (hash_bytes 1002, [2])], ims_size = 3\<rparr>),
      (StateSpace, \<lparr>ims_storage = [(hash_bytes 1001, [1])], ims_size = 1\<rparr>),
      (SignatureSpace, \<lparr>ims_storage = [(hash_bytes 1002, [])], ims_size = 0\<rparr>),
      (Body, \<lparr>ims_storage = [(hash_bytes 1002, [])], ims_size = 0\<rparr>)]"

lemma fd_put:
  "putBlock fd_ssz in_memory (BlockData_of fd_ssz (fd_signed atts proofs)) fd_storage =
     (Inr 1002, \<lparr>bst_storage = fd_spaces1, bst_block_tree_leaves = None\<rparr>)"
  by (simp add: fd_run fd_storage_def fd_signed_def getHeader_def fd_spaces1_def u64_add_def)

definition fd_tree2 :: CachedTree where
  "fd_tree2 =
     \<lparr>ct_root = 1000, ct_justified = \<lparr>bi_slot = 0, bi_hash = 1000\<rparr>, ct_best = 1002,
      ct_nodes =
        [(1000, \<lparr>tn_index = \<lparr>bi_slot = 0, bi_hash = 1000\<rparr>, tn_parent = None, tn_depth = 0, tn_reverted = False,
                 tn_children = [1001]\<rparr>),
         (1001, \<lparr>tn_index = \<lparr>bi_slot = 1, bi_hash = 1001\<rparr>, tn_parent = Some 1000, tn_depth = 1, tn_reverted = False,
                 tn_children = [1002]\<rparr>),
         (1002, \<lparr>tn_index = \<lparr>bi_slot = 2, bi_hash = 1002\<rparr>, tn_parent = Some 1001, tn_depth = 2, tn_reverted = False,
                 tn_children = []\<rparr>)],
      ct_leaves = [(1002, 2)]\<rparr>"

lemma fd_ct_add:
  "ct_add (TreeNode_child \<lparr>bi_slot = 2, bi_hash = 1002\<rparr> (the (find_node fd_tree 1001))) fd_tree =
     Inr (Some \<lparr>ro_common = \<lparr>bi_slot = 1, bi_hash = 1001\<rparr>, ro_revert = [], ro_apply = [\<lparr>bi_slot = 2, bi_hash = 1002\<rparr>]\<rparr>, fd_tree2)"
  by (simp, simp add: ct_add_def fd_tree_def TreeNode_child_def deref_def set_node_def
      TreeNode_parent_def TreeNode_weight_def reorg_def reorg_loop_numeral fd_tree2_def)

definition fd_spaces2 :: InMemorySpacedStorage where
  "fd_spaces2 = fd_spaces1 @
     [(Default, \<lparr>ims_storage = [(kBlockTreeLeavesLookupKey, hash_bytes 1002)], ims_size = 32\<rparr>),
      (SlotToHashes, \<lparr>ims_storage = [(slotToHashLookupKey 2, hash_bytes 1002)], ims_size = 32\<rparr>)]"

definition fd_block_tree2 :: "TreeEvent list \<Rightarrow> InMemorySpacedStorage BlockTree" where
  "fd_block_tree2 events =
     \<lparr>bt_storage = \<lparr>bst_storage = fd_spaces2, bst_block_tree_leaves = Some [1002]\<rparr>, bt_tree = fd_tree2,
      bt_genesis_block_hash = None, bt_events = events\<rparr>"

lemma fd_reorg: "reorgAndPrune fd_ssz in_memory
      \<lparr>rp_reorg = Some \<lparr>ro_common = \<lparr>bi_slot = 1, bi_hash = 1001\<rparr>, ro_revert = [], ro_apply = [\<lparr>bi_slot = 2, bi_hash = 1002\<rparr>]\<rparr>,
       rp_prune = []\<rparr>
      \<lparr>bt_storage = \<lparr>bst_storage = fd_spaces1, bst_block_tree_leaves = None\<rparr>, bt_tree = fd_tree2,
       bt_genesis_block_hash = None, bt_events = []\<rparr> = (Inr (), fd_block_tree2 [])"
proof -
  have len: "length (hash_bytes 1002) = 32" by (simp add: hash_bytes_def)
  have leaf: "leafHashes fd_tree2 = [1002]" by (simp add: leafHashes_def fd_tree2_def)
  show ?thesis
    by (simp add: reorgAndPrune_def bt_store_def setBlockTreeLeaves_def assignHashToSlot_def getBlockHash_def Let_def
        fd_spaces1_def fd_spaces2_def fd_block_tree2_def fd_run leaf u64_add_def len)
qed

lemma fd_addBlock:
  "\<exists>events. addBlock fd_ssz in_memory (fd_signed atts proofs) fd_block_tree = (Inr (), fd_block_tree2 events)"
proof -
  let ?sb = "fd_signed atts proofs"
  let ?h = "getHeader fd_ssz (sb_block ?sb)"
  have h: "BlockHeader_index fd_ssz ?h = \<lparr>bi_slot = 2, bi_hash = 1002\<rparr>" "hash_header fd_ssz ?h = 1002"
    by (simp_all add: BlockHeader_index_def) (simp_all add: getHeader_def fd_signed_def)
  have p: "blk_parent_root (sb_block ?sb) = 1001" by (simp add: fd_signed_def demo_block_def)
  have d: "\<lparr>data_hash = 1002, data_header = Some ?h, data_body = Some (blk_body (sb_block ?sb)),
      data_signature = Some (sb_signature ?sb)\<rparr> = BlockData_of fd_ssz ?sb"
    by (simp add: BlockData_of_def Block_hash_def) (simp add: getHeader_def fd_signed_def)
  have best: "bestBlock (fd_block_tree2 []) = Inr \<lparr>bi_slot = 2, bi_hash = 1002\<rparr>"
    by (simp add: bestBlock_def bestBlockNoLock_def fd_block_tree2_def ct_best_index_def fd_tree2_def)
  have n: "find_node (bt_tree fd_block_tree) (blk_parent_root (sb_block ?sb)) = Some (the (find_node fd_tree 1001))"
    unfolding p by simp
  have "addBlock fd_ssz in_memory ?sb fd_block_tree = (Inr (), fd_block_tree2 [NewLeaf ?h True])"
    unfolding addBlock_def Let_def n option.case h d
    by (simp add: TRY_def bt_store_def fd_block_tree_def fd_put bt_cached_def fd_ct_add[simplified] fd_reorg[simplified] READ_def best
        bt_notify_def) (simp add: fd_block_tree2_def)
  then show ?thesis by blast
qed

text \<open>The storage and the tree once the state is stored and block \<open>1001\<close> is justified.\<close>

definition fd_storage3 :: "InMemorySpacedStorage BlockStorage" where
  "fd_storage3 =
     \<lparr>bst_storage = AList.update StateSpace
        \<lparr>ims_storage = [(hash_bytes 1001, [1]), (hash_bytes 1002, [2])], ims_size = 2\<rparr> fd_spaces2,
      bst_block_tree_leaves = Some [1002]\<rparr>"

lemma fd_putState:
  "putState fd_ssz in_memory 1002 (Chains.demo_state 2 j f bits) \<lparr>bst_storage = fd_spaces2, bst_block_tree_leaves = Some [1002]\<rparr> =
     (Inr (), fd_storage3)"
  by (simp add: putState_def fd_run fd_spaces2_def fd_spaces1_def fd_storage3_def u64_add_def)

lemma fd_headers3 [simp]:
  "getBlockHeader fd_ssz in_memory 1000 fd_storage3 = Inr (fd_header 0)"
  "getBlockHeader fd_ssz in_memory 1001 fd_storage3 = Inr (fd_header 1)"
  "getBlockHeader fd_ssz in_memory 1002 fd_storage3 = Inr (fd_header 2)"
  by (simp_all add: fd_read fd_storage3_def fd_spaces2_def fd_spaces1_def) (simp_all add: fd_ssz_def)

definition fd_justified_tree :: CachedTree where
  "fd_justified_tree = fd_tree2\<lparr>ct_justified := \<lparr>bi_slot = 1, bi_hash = 1001\<rparr>\<rparr>"

lemma fd_tree2_reads [simp]:
  "find_node fd_tree2 1000 = Some \<lparr>tn_index = \<lparr>bi_slot = 0, bi_hash = 1000\<rparr>, tn_parent = None, tn_depth = 0, tn_reverted = False, tn_children = [1001]\<rparr>"
  "find_node fd_tree2 1001 = Some \<lparr>tn_index = \<lparr>bi_slot = 1, bi_hash = 1001\<rparr>, tn_parent = Some 1000, tn_depth = 1, tn_reverted = False, tn_children = [1002]\<rparr>"
  "find_node fd_tree2 1002 = Some \<lparr>tn_index = \<lparr>bi_slot = 2, bi_hash = 1002\<rparr>, tn_parent = Some 1001, tn_depth = 2, tn_reverted = False, tn_children = []\<rparr>"
  "find_node fd_justified_tree h = find_node fd_tree2 h"
  "ct_finalized fd_tree2 = Inr \<lparr>bi_slot = 0, bi_hash = 1000\<rparr>" "ct_finalized fd_justified_tree = Inr \<lparr>bi_slot = 0, bi_hash = 1000\<rparr>"
  "ct_justified fd_tree2 = \<lparr>bi_slot = 0, bi_hash = 1000\<rparr>" "ct_justified fd_justified_tree = \<lparr>bi_slot = 1, bi_hash = 1001\<rparr>"
  by (simp_all add: find_node_def fd_justified_tree_def ct_finalized_def fd_tree2_def)

lemma fd_ancestors: "ancestors_of fd_tree2 (the (find_node fd_tree2 1001)) = Inr [\<lparr>bi_slot = 0, bi_hash = 1000\<rparr>]"
  by (simp add: ancestors_of_def TreeNode_parent_def) (simp add: fd_tree2_def eval_nat_numeral TreeNode_parent_def)

lemma fd_setJustified:
  assumes "bt_tree t = fd_tree2" "bt_storage t = fd_storage3"
  shows "BlockTree_setJustified fd_ssz in_memory 1001 t = (Inr (), t\<lparr>bt_tree := fd_justified_tree\<rparr>)"
  using assms fd_ancestors
  by (simp add: BlockTree_setJustified_def getLastJustifiedNoLock_def TRY_def bt_read_def READ_def setJustified_def fd_justified_tree_def)

definition fd_proof :: AggregatedSignatureProof where
  "fd_proof = \<lparr>pf_participants = [True], pf_data = [9]\<rparr>"

lemma fd_iter [simp]: "AggregationBits_iter [True] = [0]"
  by (simp add: AggregationBits_iter_def upt_rec)

lemmas fd_fc = TRY_def OK_def READ_def LIFT_def FAIL_def CATCH_def on_tree_def Let_def

text \<open>The tree of the store after the import.\<close>

definition fd_after :: "InMemorySpacedStorage BlockTree \<Rightarrow> bool" where
  "fd_after t \<longleftrightarrow> bt_tree t = fd_justified_tree \<and> bt_storage t = fd_storage3"

lemma fd_after_reads:
  assumes "fd_after t"
  shows "lastFinalized t = Inr \<lparr>bi_slot = 0, bi_hash = 1000\<rparr>" "getLatestJustified t = demo_checkpoint 1"
    and "find_node (bt_tree t) h = find_node fd_tree2 h" "bt_storage t = fd_storage3"
  using assms by (simp_all add: fd_after_def lastFinalized_def getLastFinalizedNoLock_def getLatestJustified_def
      getLastJustifiedNoLock_def demo_checkpoint_def)

lemma fd_import:
  assumes t: "fd_after (fc_block_tree fc)"
    and fc: "fc_anchor_block_slots fc = []" "fc_time fc = 11" "fc_attestations_by_data fc = []"
      "fc_latest_known_attestations fc = []" "fc_latest_new_attestations fc = []"
  shows "import_attestations fd_env (fd_signed [demo_attestation 0 1] [fd_proof]) fc =
    (Inr (), fc\<lparr>fc_latest_known_attestations := [(0, aa_data (demo_attestation 0 1))],
       fc_attestations_by_data := [(301, \<lparr>abd_data = aa_data (demo_attestation 0 1), abd_signatures = [], abd_proofs = [fd_proof]\<rparr>)]\<rparr>)"
proof -
  let ?d = "aa_data (demo_attestation 0 1)"
  have fin: "getLatestFinalized fc = Inr (demo_checkpoint 0)"
    using fd_after_reads[OF t] by (simp add: getLatestFinalized_def toCheckpoint_def demo_checkpoint_def)
  have d: "ad_slot ?d = 1" "ad_head ?d = demo_checkpoint 1" "ad_target ?d = demo_checkpoint 1" "ad_source ?d = demo_checkpoint 0"
    by (simp_all add: demo_attestation_def)
  have add: "addProofToAggregate fd_env \<lparr>saa_data = ?d, saa_proof = fd_proof\<rparr> fc =
      (Inr (), fc\<lparr>fc_attestations_by_data := [(301, \<lparr>abd_data = ?d, abd_signatures = [], abd_proofs = [fd_proof]\<rparr>)]\<rparr>)"
    using fc fin d
    by (simp add: addProofToAggregate_def fd_fc put_by_data_def attestationsByData_def add_proof_def bits_subset_def fd_proof_def
        omap_erase_def)
  have valid: "validateAttestation fd_env \<lparr>at_validator_id = 0, at_data = ?d\<rparr> fc1 = Inr ()"
    if "fc_block_tree fc1 = fc_block_tree fc" "fc_anchor_block_slots fc1 = []" "fc_time fc1 = 11" for fc1
    using that d fd_after_reads[OF t]
    by (simp add: validateAttestation_def Let_def has_block_def BlockTree_has_def slot_consistent_def getBlockSlot_def
        getSlotByHash_def getCurrentSlot_def Interval_slot_def INTERVALS_PER_SLOT_def u64_add_def)
  show ?thesis
    using fc add valid d
    by (simp add: import_attestations_def fd_signed_def MAX_ATTESTATIONS_DATA_def fd_fc onAggregatedAttestation_def
        onAttestation_def fd_proof_def)
qed

lemma fd_updateHead:
  assumes t: "fd_after (fc_block_tree fc)"
    and fc: "fc_anchor_block_slots fc = []" "fc_head fc = demo_checkpoint 1"
      "fc_latest_known_attestations fc = [(0, aa_data (demo_attestation 0 1))]"
  shows "updateHead fd_env fc = (Inr (), fc\<lparr>fc_head := demo_checkpoint 2\<rparr>)"
proof -
  have w: "collect_weights fd_env 1 (fc_block_tree fc) [(0, aa_data (demo_attestation 0 1))] = Inr []"
    using fd_after_reads[OF t]
    by (simp add: collect_weights_def climb_vote_numeral BlockTree_tryGetBlockHeader_def demo_attestation_def)
  have slots: "getBlockSlot fd_env 1001 fc = Inr 1" "getBlockSlot fd_env 1002 fc = Inr 2"
    using fc fd_after_reads[OF t] by (simp_all add: getBlockSlot_def getSlotByHash_def)
  have "computeLmdGhostHead fd_env 1001 [(0, aa_data (demo_attestation 0 1))] 0 fc = Inr 1002"
    using fc fd_after_reads[OF t] w slots
    by (simp add: computeLmdGhostHead_def Let_def kZeroHash_def BlockTree_has_def ghost_walk_numeral getChildren_def)
  then show ?thesis
    using fc fd_after_reads[OF t] slots
    by (simp add: updateHead_def fd_fc common_ancestor_numeral lift_one_def BlockTree_getBlockHeader_def
        getBlockHeaderNoLock_def getSlotByHash_def demo_checkpoint_def)
qed

lemma fd_stf:
  "stateTransition fd_ssz (demo_block 2 [demo_attestation 0 1]) (Chains.demo_state 1 0 0 []) True = Inr (Chains.demo_state 2 1 0 [True])"
  by (simp add: demo_eval stf_eval)

definition fd_cache2 :: "(hash, State) lru" where
  "fd_cache2 = \<lparr>lc_max_size = 16, lc_bits = 64, lc_ticks = 3,
     lc_cache = [\<lparr>ce_key = 1001, ce_value = Chains.demo_state 1 0 0 [], ce_tick = 3\<rparr>]\<rparr>"

lemma fd_getState2:
  assumes "fc_states fc = fd_cache"
  shows "ForkChoice_getState fd_env 1001 fc = (Inr (Chains.demo_state 1 0 0 []), fc\<lparr>fc_states := fd_cache2\<rparr>)"
  using assms
  by (simp add: ForkChoice_getState_def lru_get_else_def lru_get_def lru_tick_def Let_def fd_cache_def fd_cache2_def)

lemma fd_signatures:
  "validateBlockSignatures fd_env (fd_signed atts proofs) (fd_store\<lparr>fc_states := fd_cache\<rparr>) =
     (Inr (length proofs = length atts \<and> list_all (\<lambda>(a, s). validateAggregatedSignature fd_env (Chains.demo_state 1 0 0 []) (aa_data a) s) (zip atts proofs)),
      fd_store\<lparr>fc_states := if length proofs = length atts then fd_cache2 else fd_cache\<rparr>)"
proof -
  have "length (st_validators (Chains.demo_state 1 0 0 [])) = 3" by (simp add: Chains.demo_state_def demo_validators_def)
  moreover have "blk_parent_root (sb_block (fd_signed atts proofs)) = 1001" "blk_proposer_index (sb_block (fd_signed atts proofs)) = 2"
    by (simp_all add: fd_signed_def demo_block_def)
  ultimately show ?thesis
    using fd_getState2[of "fd_store\<lparr>fc_states := fd_cache\<rparr>"]
    by (simp add: validateBlockSignatures_def fd_fc) (simp add: fd_signed_def)
qed

lemma fd_onBlock:
  "\<exists>fc'. onBlock fd_env (fd_signed [demo_attestation 0 1] [fd_proof]) fd_store = (Inr (), fc') \<and>
     fd_after (fc_block_tree fc') \<and> fc_head fc' = demo_checkpoint 2"
proof -
  let ?sb = "fd_signed [demo_attestation 0 1] [fd_proof]" and ?post = "Chains.demo_state 2 1 0 [True]"
  have sb: "sb_block ?sb = demo_block 2 [demo_attestation 0 1]" "Block_hash fd_ssz (demo_block 2 [demo_attestation 0 1]) = 1002"
    "blk_parent_root (demo_block 2 [demo_attestation 0 1]) = 1001"
    by (simp_all add: fd_signed_def Block_hash_def demo_block_def getHeader_def)
  have known: "BlockTree_has in_memory 1002 fd_block_tree = Inr False"
    by (simp add: BlockTree_has_def hasBlockHeader_def hasInSpace_def fd_run fd_storage_def)
      (simp add: find_node_def fd_tree_def)
  have get: "ForkChoice_getState fd_env 1001 fd_store = (Inr (Chains.demo_state 1 0 0 []), fd_store\<lparr>fc_states := fd_cache\<rparr>)"
    by (rule fd_getState) (simp_all add: fd_store_def)
  have sig: "validateBlockSignatures fd_env ?sb (fd_store\<lparr>fc_states := fd_cache\<rparr>) = (Inr True, fd_store\<lparr>fc_states := fd_cache2\<rparr>)"
    unfolding fd_signatures by (simp add: validateAggregatedSignature_def fd_proof_def Chains.demo_state_def demo_validators_def)
  obtain events where add: "addBlock fd_ssz in_memory ?sb fd_block_tree = (Inr (), fd_block_tree2 events)"
    using fd_addBlock by blast
  let ?t3 = "\<lparr>bt_storage = fd_storage3, bt_tree = fd_tree2, bt_genesis_block_hash = None, bt_events = events\<rparr>"
  have put: "bt_store (putState fd_ssz in_memory 1002 ?post) (fd_block_tree2 events) = (Inr (), ?t3)"
    by (simp add: bt_store_def fd_block_tree2_def fd_putState)
  have just: "getLatestJustified ?t3 = demo_checkpoint 0"
    by (simp add: getLatestJustified_def getLastJustifiedNoLock_def demo_checkpoint_def)
  have fin: "lastFinalized (?t3\<lparr>bt_tree := fd_justified_tree\<rparr>) = Inr \<lparr>bi_slot = 0, bi_hash = 1000\<rparr>"
    by (simp add: lastFinalized_def getLastFinalizedNoLock_def)
  let ?t4 = "?t3\<lparr>bt_tree := fd_justified_tree\<rparr>"
  have after: "fd_after ?t4" by (simp add: fd_after_def)
  have check: "update_checkpoints fd_env ?post (fc\<lparr>fc_block_tree := ?t3\<rparr>) = (Inr (), fc\<lparr>fc_block_tree := ?t4\<rparr>)" for fc
    using just fin fd_setJustified[of ?t3] by (simp add: update_checkpoints_def fd_fc)
  obtain c where cache: "cacheState 1002 ?post (fc\<lparr>fc_states := fd_cache2\<rparr>) = (Inr (), fc\<lparr>fc_states := c\<rparr>)"
    for fc :: "InMemorySpacedStorage ForkChoiceStore"
    by (simp add: cacheState_def lru_put_def lru_tick_def fd_cache2_def Let_def Chains.demo_state_def)
  let ?fc = "fd_store\<lparr>fc_states := fd_cache2\<rparr>"
  let ?fc5 = "fd_store\<lparr>fc_states := c, fc_block_tree := ?t4\<rparr>"
  have s1: "on_tree (addBlock fd_ssz in_memory ?sb) ?fc = (Inr (), ?fc\<lparr>fc_block_tree := fd_block_tree2 events\<rparr>)"
    using add by (simp add: on_tree_def fd_store_def)
  have s2: "CATCH (on_tree (bt_store (putState fd_ssz in_memory 1002 ?post))) (\<lambda>_. OK ()) (?fc\<lparr>fc_block_tree := fd_block_tree2 events\<rparr>) =
      (Inr (), ?fc\<lparr>fc_block_tree := ?t3\<rparr>)"
    using put by (simp add: CATCH_def on_tree_def)
  have s4: "cacheState 1002 ?post (?fc\<lparr>fc_block_tree := ?t4\<rparr>) = (Inr (), ?fc5)"
    using cache[of "fd_store\<lparr>fc_block_tree := ?t4\<rparr>"] by (simp add: fd_store_def)
  let ?fc6 = "?fc5\<lparr>fc_latest_known_attestations := [(0, aa_data (demo_attestation 0 1))],
       fc_attestations_by_data := [(301, \<lparr>abd_data = aa_data (demo_attestation 0 1), abd_signatures = [], abd_proofs = [fd_proof]\<rparr>)]\<rparr>"
  have s5: "import_attestations fd_env ?sb ?fc5 = (Inr (), ?fc6)"
    using after by (intro fd_import) (simp_all add: fd_store_def)
  have s6: "updateHead fd_env ?fc6 = (Inr (), ?fc6\<lparr>fc_head := demo_checkpoint 2\<rparr>)"
    using after by (intro fd_updateHead) (simp_all add: fd_store_def)
  have tree: "fc_block_tree fd_store = fd_block_tree" by (simp add: fd_store_def)
  have "onBlock fd_env ?sb fd_store = (Inr (), ?fc6\<lparr>fc_head := demo_checkpoint 2\<rparr>)"
    by (simp only: onBlock_def Let_def sb fd_env_simps TRY_def READ_def LIFT_def tree known if_False if_True
        not_True_eq_False not_False_eq_True prod.case sum.case get sig s1 s2 check s4 s5 s6 fd_stf)
  then show ?thesis using after by (intro exI[of _ "?fc6\<lparr>fc_head := demo_checkpoint 2\<rparr>"]) simp
qed

subsection \<open>What a rejected block leaves behind\<close>

text \<open>The store up to its cache of states.\<close>

definition only_cache_changed :: "'s ForkChoiceStore \<Rightarrow> 's ForkChoiceStore \<Rightarrow> bool" where
  "only_cache_changed fc fc' \<longleftrightarrow> fc' = fc\<lparr>fc_states := fc_states fc'\<rparr>"

lemma only_cache_refl: "only_cache_changed fc fc"
  by (simp add: only_cache_changed_def)

lemma only_cache_set: "only_cache_changed fc fc1 \<Longrightarrow> only_cache_changed fc (fc1\<lparr>fc_states := c\<rparr>)"
  unfolding only_cache_changed_def by (cases fc, cases fc1) simp

lemma only_cache_getState: "keeps (only_cache_changed fc) (ForkChoice_getState e h)"
  by (auto simp: keeps_def ForkChoice_getState_def only_cache_set split: prod.splits)

lemma only_cache_signatures: "keeps (only_cache_changed fc) (validateBlockSignatures e sb)"
  unfolding validateBlockSignatures_def Let_def by (intro keeps_intros only_cache_getState)

lemma only_cache_prefix:
  assumes "ForkChoice_getState e h fc = (r, fc1)"
  shows "only_cache_changed fc fc1"
    and "validateBlockSignatures e sb fc1 = (r', fc2) \<Longrightarrow> only_cache_changed fc fc2"
  using keepsD[OF only_cache_getState[of fc e h] only_cache_refl] keepsD[OF only_cache_signatures[of fc e sb], of fc1] assms
  by simp_all

text \<open>
  C15. A block changes nothing of the store but the cache of states unless it was unknown,
  the state of its parent could be read, its signatures were accepted and the whole state
  transition, with the check of the state root, succeeded.
\<close>

theorem onBlock_guarded:
  "only_cache_changed fc (snd (onBlock e sb fc)) \<or>
   BlockTree_has (env_db e) (Block_hash (env_ssz e) (sb_block sb)) (fc_block_tree fc) = Inr False \<and>
   (\<exists>parent_state post_state fc1 fc2.
      ForkChoice_getState e (blk_parent_root (sb_block sb)) fc = (Inr parent_state, fc1) \<and>
      validateBlockSignatures e sb fc1 = (Inr True, fc2) \<and>
      stateTransition (env_ssz e) (sb_block sb) parent_state True = Inr post_state)"
  (is "_ \<or> ?has = _ \<and> ?valid")
proof (rule disjCI)
  assume "\<not> (?has = Inr False \<and> ?valid)"
  then consider (known) "?has \<noteq> Inr False" | (invalid) "?has = Inr False" "\<not> ?valid" by blast
  then show "only_cache_changed fc (snd (onBlock e sb fc))"
  proof cases
    case known
    then show ?thesis
      by (auto simp: onBlock_def Let_def TRY_def READ_def OK_def only_cache_refl split: sum.split)
  next
    case invalid
    obtain r fc1 where get: "ForkChoice_getState e (blk_parent_root (sb_block sb)) fc = (r, fc1)" by fastforce
    obtain r' fc2 where sig: "validateBlockSignatures e sb fc1 = (r', fc2)" by fastforce
    have "only_cache_changed fc fc1" "only_cache_changed fc fc2"
      using only_cache_prefix(1)[OF get] only_cache_prefix(2)[OF get sig] .
    moreover have "stateTransition (env_ssz e) (sb_block sb) s True \<noteq> Inr post" if "r = Inr s" "r' = Inr True" for s post
      using invalid(2) get sig that by blast
    ultimately show ?thesis using invalid(1) get sig
      by (auto simp: onBlock_def Let_def TRY_def READ_def LIFT_def FAIL_def split: sum.split)
  qed
qed

subsection \<open>What the signatures of a block cover\<close>

lemma validateBlockSignatures_at:
  assumes "ForkChoice_getState e (blk_parent_root (sb_block sb)) fc = (Inr s, fc')"
    and "length (bs_attestation_signatures (sb_signature sb)) = length (bd_attestations (blk_body (sb_block sb)))"
  shows "validateBlockSignatures e sb fc =
    (if list_all (\<lambda>(d, p). validateAggregatedSignature e s d p)
          (zip (map aa_data (bd_attestations (blk_body (sb_block sb)))) (bs_attestation_signatures (sb_signature sb)))
     then if blk_proposer_index (sb_block sb) \<ge> length (st_validators s) then Inl (Exn OutOfRange)
          else Inr (env_verify e (va_proposal_pubkey (st_validators s ! blk_proposer_index (sb_block sb)))
                     (env_hash_block e (sb_block sb)) (epoch (blk_slot (sb_block sb)))
                     (bs_proposer_signature (sb_signature sb)))
     else Inr False, fc')"
  using assms
  by (auto simp: validateBlockSignatures_def fd_fc zip_map1 list_all_iff split: if_splits)

text \<open>
  The index of the proposer is used before the state transition has checked it: a block
  without attestations whose proposer is no validator raises \<^verbatim>\<open>std::out_of_range\<close>.
\<close>

lemma proposer_out_of_range:
  assumes "ForkChoice_getState e (blk_parent_root (sb_block sb)) fc = (Inr s, fc')"
    and "bd_attestations (blk_body (sb_block sb)) = []" "bs_attestation_signatures (sb_signature sb) = []"
    and "blk_proposer_index (sb_block sb) \<ge> length (st_validators s)"
  shows "validateBlockSignatures e sb fc = (Inl (Exn OutOfRange), fc')"
  using validateBlockSignatures_at[OF assms(1)] assms(2-) by simp

text \<open>
  C18. The aggregation bits of the attestations in a block, which the state transition counts
  as votes, are not compared with the participants of the proofs.  If the signatures of a
  block are accepted, they are accepted after a proposer has replaced the bits of every
  attestation by arbitrary ones and signed the block again.
\<close>

theorem aggregation_bits_unsigned:
  assumes parent: "ForkChoice_getState e (blk_parent_root (sb_block sb)) fc = (Inr s, fc')"
    and valid: "validateBlockSignatures e sb fc = (Inr True, fc')"
    and same_data: "map aa_data attestations = map aa_data (bd_attestations (blk_body (sb_block sb)))"
    and forged: "block = (sb_block sb)\<lparr>blk_body := (blk_body (sb_block sb))\<lparr>bd_attestations := attestations\<rparr>\<rparr>"
    and signed: "env_verify e (va_proposal_pubkey (st_validators s ! blk_proposer_index block))
                   (env_hash_block e block) (epoch (blk_slot block)) sig"
  shows "validateBlockSignatures e
      \<lparr>sb_block = block, sb_signature = (sb_signature sb)\<lparr>bs_proposer_signature := sig\<rparr>\<rparr> fc = (Inr True, fc')"
proof -
  have len: "length (bs_attestation_signatures (sb_signature sb)) = length (bd_attestations (blk_body (sb_block sb)))"
    using valid by (auto simp: validateBlockSignatures_def OK_def Let_def split: if_splits)
  have "length attestations = length (bd_attestations (blk_body (sb_block sb)))"
    using same_data by (metis length_map)
  then show ?thesis
    using parent valid validateBlockSignatures_at[OF parent len] same_data forged len signed
    by (subst validateBlockSignatures_at[where s = s and fc' = fc']) (auto split: if_splits)
qed

text \<open>
  One of three validators signs; with the bits of the proof its vote justifies nothing, with the
  forged bits the block is imported and block 1001 becomes the justified one.
\<close>

definition fd_honest :: AggregatedAttestation where
  "fd_honest = (demo_attestation 0 1)\<lparr>aa_bits := [True]\<rparr>"

theorem aggregation_bits_unsigned_witness:
  "validateBlockSignatures fd_env (fd_signed [fd_honest] [fd_proof]) (fd_store\<lparr>fc_states := fd_cache\<rparr>) =
     (Inr True, fd_store\<lparr>fc_states := fd_cache2\<rparr>) \<and>
   validateBlockSignatures fd_env (fd_signed [demo_attestation 0 1] [fd_proof]) (fd_store\<lparr>fc_states := fd_cache\<rparr>) =
     (Inr True, fd_store\<lparr>fc_states := fd_cache2\<rparr>) \<and>
   (\<exists>fc'. onBlock fd_env (fd_signed [demo_attestation 0 1] [fd_proof]) fd_store = (Inr (), fc') \<and>
      getLatestJustified (fc_block_tree fc') = demo_checkpoint 1)"
proof (intro conjI)
  let ?fc = "fd_store\<lparr>fc_states := fd_cache\<rparr>" and ?fc' = "fd_store\<lparr>fc_states := fd_cache2\<rparr>"
  have parent: "ForkChoice_getState fd_env (blk_parent_root (sb_block (fd_signed [fd_honest] [fd_proof]))) ?fc =
      (Inr (Chains.demo_state 1 0 0 []), ?fc')"
    using fd_getState2[of ?fc] by (simp add: fd_signed_def demo_block_def)
  show honest: "validateBlockSignatures fd_env (fd_signed [fd_honest] [fd_proof]) ?fc = (Inr True, ?fc')"
    unfolding fd_signatures by (simp add: validateAggregatedSignature_def fd_proof_def Chains.demo_state_def demo_validators_def)
  have "fd_signed [demo_attestation 0 1] [fd_proof] =
      \<lparr>sb_block = demo_block 2 [demo_attestation 0 1],
       sb_signature = (sb_signature (fd_signed [fd_honest] [fd_proof]))\<lparr>bs_proposer_signature := [1]\<rparr>\<rparr>"
    by (simp add: fd_signed_def)
  then show "validateBlockSignatures fd_env (fd_signed [demo_attestation 0 1] [fd_proof]) ?fc = (Inr True, ?fc')"
    using aggregation_bits_unsigned[OF parent honest, of "[demo_attestation 0 1]" "demo_block 2 [demo_attestation 0 1]" "[1]"]
    by (simp add: fd_signed_def fd_honest_def demo_block_def)
  show "\<exists>fc'. onBlock fd_env (fd_signed [demo_attestation 0 1] [fd_proof]) fd_store = (Inr (), fc') \<and>
      getLatestJustified (fc_block_tree fc') = demo_checkpoint 1"
    using fd_onBlock fd_after_reads(2) by blast
qed

end
