(* ===== verification/TickProgress.thy ===== *)
theory TickProgress
  imports StoreInvariants BlockImport
begin

text \<open>
  The clock of the store.  No operation but the tick moves it, every tick brings it nearer to
  the time it is called with, and only an exception keeps it from getting there: error codes
  of the duties of an interval are logged and the tick goes on.  The last part is about the
  blocks the node proposes.
\<close>

subsection \<open>The clock as an invariant\<close>

definition clock_at :: "nat \<Rightarrow> Config \<Rightarrow> 's ForkChoiceStore \<Rightarrow> bool" where
  "clock_at time config fc \<longleftrightarrow> fc_time fc = time \<and> fc_config fc = config"

lemma clock_onAttestation: "keeps (clock_at time config) (onAttestation e a from_block)"
  by (auto simp: keeps_def onAttestation_def TRY_def READ_def OK_def FAIL_def Let_def clock_at_def
      split: sum.split prod.split option.split)

lemma clock_addSignature: "keeps (clock_at time config) (addSignatureToAggregate e data v sig)"
  by (auto simp: keeps_def addSignatureToAggregate_def TRY_def READ_def put_by_data_def clock_at_def split: sum.split)

lemma clock_addProof: "keeps (clock_at time config) (addProofToAggregate e saa)"
  by (auto simp: keeps_def addProofToAggregate_def TRY_def READ_def put_by_data_def clock_at_def Let_def split: sum.split)

lemma clock_getState: "keeps (clock_at time config) (ForkChoice_getState e h)"
  by (auto simp: keeps_def ForkChoice_getState_def clock_at_def split: prod.splits)

lemma clock_by_data: "clock_at time config fc \<Longrightarrow> clock_at time config (fc\<lparr>fc_attestations_by_data := m\<rparr>)"
  by (simp add: clock_at_def)

lemma clock_aggregate: "keeps (clock_at time config) (aggregate_entries e entries)"
proof (induction entries)
  case (Cons entry rest)
  show ?case
    by (cases entry) (auto intro!: keeps_intros keeps_set clock_getState Cons clock_by_data)
qed (simp add: keeps_intros)

lemma clock_aggregateSignatures: "keeps (clock_at time config) (aggregateSignatures e)"
  using clock_aggregate[of time config e] by (simp add: keeps_def aggregateSignatures_def)

interpretation clock: store_invariant "clock_at time config" e for time config and e :: "'s FcEnv"
  by unfold_locales
    (simp_all add: clock_onAttestation clock_addSignature clock_addProof clock_aggregateSignatures,
     simp_all add: clock_at_def prune_def)

lemma tick_phase_time: "tick_phase e n s fc = (r, fc') \<Longrightarrow> fc_time fc' = fc_time fc"
  using keepsD[OF clock.keeps_tick_phase[of "fc_time fc" "fc_config fc" e n s], of fc]
  by (simp add: clock_at_def)

subsection \<open>Exceptions\<close>

text \<open>The action fails with an exception only; the same for a result.\<close>

definition throws_only :: "('s, 'a) action \<Rightarrow> bool" where
  "throws_only m \<longleftrightarrow> (\<forall>s err s'. m s = (Inl err, s') \<longrightarrow> is_exn err)"

definition exn_only :: "'a result \<Rightarrow> bool" where
  "exn_only r \<longleftrightarrow> (\<forall>err. r = Inl err \<longrightarrow> is_exn err)"

named_theorems throws_intros \<open>actions that fail with exceptions only\<close>

lemma throws_basic [throws_intros]:
  "throws_only (OK x)" "throws_only (FAIL (Exn ex))" "throws_only (\<lambda>s. (Inr x, g s))"
  by (auto simp: throws_only_def OK_def FAIL_def)

lemma throws_TRY [throws_intros]: "throws_only m \<Longrightarrow> (\<And>x. throws_only (f x)) \<Longrightarrow> throws_only (TRY m f)"
  by (auto simp: throws_only_def TRY_def split: prod.splits sum.splits)

lemma throws_LIFT [throws_intros]: "exn_only r \<Longrightarrow> throws_only (LIFT r)"
  by (auto simp: throws_only_def exn_only_def LIFT_def)

lemma throws_READ [throws_intros]: "(\<And>s. exn_only (f s)) \<Longrightarrow> throws_only (READ f)"
  by (auto simp: throws_only_def exn_only_def READ_def)

lemma throws_LOGGED [throws_intros]: "throws_only (LOGGED m)"
  by (auto simp: throws_only_def LOGGED_def CATCH_def TRY_def OK_def split: prod.splits sum.splits if_splits)

lemma throws_FATAL [throws_intros]: "throws_only (FATAL m)"
  by (auto simp: throws_only_def FATAL_def CATCH_def FAIL_def split: prod.splits sum.splits if_splits)

lemma throws_if [throws_intros]: "throws_only m \<Longrightarrow> throws_only m' \<Longrightarrow> throws_only (if c then m else m')"
  by simp

lemma throws_if_state: "throws_only m \<Longrightarrow> throws_only m' \<Longrightarrow> throws_only (\<lambda>s. if c s then m s else m' s)"
  by (auto simp: throws_only_def)

lemma throws_option [throws_intros]:
  "throws_only m \<Longrightarrow> (\<And>x. throws_only (f x)) \<Longrightarrow> throws_only (case o' of None \<Rightarrow> m | Some x \<Rightarrow> f x)"
  by (cases o') simp_all

lemma exn_Inr [simp]: "exn_only (Inr x)"
  by (simp add: exn_only_def)

lemma exn_OUTCOME_TRY: "exn_only r \<Longrightarrow> (\<And>x. exn_only (f x)) \<Longrightarrow> exn_only (OUTCOME_TRY r f)"
  by (cases r) (simp_all add: exn_only_def)

lemma exn_fold_result: "(\<And>x a. exn_only (f x a)) \<Longrightarrow> exn_only (fold_result f xs a)"
  by (induction xs arbitrary: a) (simp_all add: exn_OUTCOME_TRY)

subsection \<open>The duties of an interval\<close>

lemma exn_get: "exn_only (get_slot_and_parent e t head parent h)"
  by (auto simp: exn_only_def get_slot_and_parent_def split: sum.splits if_splits)

lemma exn_lookback: "(\<And>h. exn_only (get h)) \<Longrightarrow> exn_only (lookback i get limit root)"
  by (induction i arbitrary: root) (auto intro!: exn_OUTCOME_TRY split: prod.splits)

lemma exn_isJustifiableSlot: "exn_only (isJustifiableSlot f c)"
  by (simp add: exn_only_def isJustifiableSlot_def)

lemma exn_to_justifiable: "(\<And>h. exn_only (get h)) \<Longrightarrow> exn_only (to_justifiable i get f root)"
  by (induction i arbitrary: root)
    (auto intro!: exn_OUTCOME_TRY exn_isJustifiableSlot split: prod.splits, simp add: exn_only_def)

lemma exn_lastFinalized: "exn_only (lastFinalized t)"
  by (auto simp: exn_only_def lastFinalized_def getLastFinalizedNoLock_def ct_finalized_def deref_def OUTCOME_TRY_eq_Inl
      split: option.splits)

lemma exn_getAttestationTarget: "exn_only (getAttestationTarget e justified head parent fc)"
  unfolding getAttestationTarget_def Let_def
  by (intro exn_OUTCOME_TRY exn_lookback exn_to_justifiable exn_lastFinalized exn_get) (auto split: prod.split)

lemma exn_validators_at: "exn_only (validators_at s i)"
  by (simp add: exn_only_def validators_at_def)

lemma exn_aggregate_one: "exn_only (aggregate_one e s a)"
  unfolding aggregate_one_def pubkeys_at_def
  by (intro exn_OUTCOME_TRY exn_fold_result exn_validators_at exn_Inr)

lemma throws_aggregate_entries: "throws_only (aggregate_entries e entries)"
proof (induction entries)
  case (Cons entry rest)
  have "throws_only (CATCH (TRY (ForkChoice_getState e h) (\<lambda>s. OK (Some s))) (\<lambda>_. OK None))" for h
    using throws_LOGGED[of "ForkChoice_getState e h"] by (simp add: LOGGED_def)
  then show ?case
    by (cases entry) (auto intro!: throws_intros Cons exn_aggregate_one)
qed (simp add: throws_intros)

lemma throws_import_own: "throws_only (import_own e xs)"
  by (induction xs) (auto intro!: throws_intros)

lemma throws_tick_aggregate [throws_intros]: "throws_only (tick_aggregate e)"
proof -
  have "throws_only (TRY (aggregateSignatures e) (import_own e))"
    using throws_aggregate_entries[of e]
    by (intro throws_intros throws_import_own) (simp add: throws_only_def aggregateSignatures_def)
  then show ?thesis by (simp add: throws_only_def tick_aggregate_def)
qed

lemma throws_vote_loop: "throws_only (vote_loop e slot s att ids)"
proof (induction ids arbitrary: att)
  case (Cons i ids)
  have "exn_only (produceAttestation e slot i justified head parent fc)" for justified head parent fc
    unfolding produceAttestation_def by (intro exn_OUTCOME_TRY exn_getAttestationTarget exn_Inr)
  then show ?case unfolding vote_loop.simps Let_def
    by (intro throws_if_state throws_intros Cons exn_validators_at)
qed (simp add: throws_intros)

lemma throws_tick_vote [throws_intros]: "throws_only (tick_vote e slot s)"
  unfolding tick_vote_def Let_def
  by (intro throws_intros exn_getAttestationTarget throws_if_state throws_vote_loop)

lemma throws_tick_propose [throws_intros]: "throws_only (tick_propose e n slot s)"
  unfolding tick_propose_def Let_def by (intro throws_intros throws_if_state)

lemma throws_tick_phase [throws_intros]: "throws_only (tick_phase e n s)"
proof -
  have "throws_only (TRY (tick_vote e slot s) (\<lambda>actions. OK (actions, s)))"
    "throws_only (TRY (tick_aggregate e) (\<lambda>actions. OK (actions, s)))"
    "throws_only (TRY (LOGGED (updateSafeTarget e)) (\<lambda>_. OK ([] :: OnTickAction list, s)))"
    "throws_only (TRY (LOGGED (acceptNewAttestations e)) (\<lambda>_. OK ([] :: OnTickAction list, s)))" for slot
    by (intro throws_intros)+
  with throws_tick_propose[of e n _ s] show ?thesis
    by (auto simp: throws_only_def tick_phase_def Let_def OK_def split: if_splits)
qed

subsection \<open>Progress\<close>

lemma tick_loop_progress:
  assumes "tick_loop k e n s fc = (r, fc')"
  shows "fc_time fc + (if k = 0 then 0 else 1) \<le> fc_time fc' \<and> fc_time fc' \<le> fc_time fc + k \<and>
    (case r of Inl err \<Rightarrow> is_exn err | Inr _ \<Rightarrow> fc_time fc' = fc_time fc + k)"
  using assms
proof (induction k arbitrary: s fc r fc')
  case 0
  then show ?case by (auto simp: OK_def)
next
  case (Suc k)
  let ?fc = "fc\<lparr>fc_time := fc_time fc + 1\<rparr>"
  obtain r1 fc1 where phase: "tick_phase e n s ?fc = (r1, fc1)" by fastforce
  have time: "fc_time fc1 = fc_time fc + 1" using tick_phase_time[OF phase] by simp
  show ?case
  proof (cases r1)
    case (Inl err)
    have "is_exn err" using throws_tick_phase[of e n s] phase Inl by (auto simp: throws_only_def)
    with Suc.prems phase Inl time show ?thesis by (auto simp: TRY_def)
  next
    case (Inr x)
    obtain actions s' where x: "x = (actions, s')" by fastforce
    obtain r2 fc2 where rest: "tick_loop k e n s' fc1 = (r2, fc2)" by fastforce
    show ?thesis using Suc.IH[OF rest] Suc.prems phase Inr x rest time
      by (cases r2) (auto simp: TRY_def OK_def split: if_splits)
  qed
qed

text \<open>
  C16. The tick makes progress.  If the state of the head can be read, a tick that finds the
  store behind the clock moves it forward by at least one interval and never past the
  clock; it stops before the clock only for an exception, never for an error code of a duty.
\<close>

theorem onTick_progress:
  assumes now: "Interval_fromTime now (fc_config fc) = Some now_interval"
    and head: "ForkChoice_getState e (cp_root (fc_head fc)) fc = (Inr head_state, fc1)"
    and behind: "fc_time fc < now_interval"
    and tick: "onTick e now fc = (r, fc')"
  shows "fc_time fc < fc_time fc' \<and> fc_time fc' \<le> now_interval \<and>
    (case r of Inl err \<Rightarrow> is_exn err | Inr _ \<Rightarrow> fc_time fc' = now_interval)"
proof -
  have "fc_time fc1 = fc_time fc"
    using keepsD[OF clock_getState[of "fc_time fc" "fc_config fc" e "cp_root (fc_head fc)"], of fc] head
    by (simp add: clock_at_def)
  moreover have "tick_loop (now_interval - fc_time fc) e (validatorCount head_state) head_state fc1 = (r, fc')"
    using now head tick by (simp add: onTick_def TRY_def FATAL_def CATCH_def)
  ultimately show ?thesis
    using tick_loop_progress[of "now_interval - fc_time fc" e "validatorCount head_state" head_state fc1 r fc'] behind
    by (auto split: sum.splits)
qed

theorem onTick_progress_witness:
  "onTick fd_env 9600 fd_store = (Inr [], fd_store\<lparr>fc_states := fd_cache, fc_time := 12\<rparr>) \<and>
   fc_time fd_store < fc_time (snd (onTick fd_env 9600 fd_store)) \<and>
   fc_time (snd (onTick fd_env 9600 fd_store)) = 12"
proof -
  have fc: "fc_time fd_store = 11" "fc_config fd_store = \<lparr>cfg_genesis_time = 0\<rparr>" "cp_root (fc_head fd_store) = 1001"
    by (simp_all add: fd_store_def demo_checkpoint_def)
  have now: "Interval_fromTime 9600 (fc_config fd_store) = Some 12"
    by (simp add: fc Interval_fromTime_def genesisTimeMs_def INTERVAL_DURATION_MS_def)
  have get: "ForkChoice_getState fd_env (cp_root (fc_head fd_store)) fd_store =
      (Inr (Chains.demo_state 1 0 0 []), fd_store\<lparr>fc_states := fd_cache\<rparr>)"
    unfolding fc by (rule fd_getState) (simp_all add: fd_store_def)
  have phase: "tick_phase fd_env n s (fd_store\<lparr>fc_states := fd_cache, fc_time := 12\<rparr>) =
      (Inr ([], s), fd_store\<lparr>fc_states := fd_cache, fc_time := 12\<rparr>)" for n s
    by (simp add: tick_phase_def Let_def Interval_phase_def INTERVALS_PER_SLOT_def tick_aggregate_def TRY_def OK_def)
      (simp add: fd_store_def)
  have run: "onTick fd_env 9600 fd_store = (Inr [], fd_store\<lparr>fc_states := fd_cache, fc_time := 12\<rparr>)"
    using now get phase by (simp add: onTick_def TRY_def OK_def FATAL_def CATCH_def fc numeral_eq_Suc[of "num.One"])
  show ?thesis using onTick_progress[OF now get _ run] run by (simp add: fc)
qed

subsection \<open>Proposed blocks\<close>

lemma processBlock_state_root: "processBlock z s (block\<lparr>blk_state_root := r\<rparr>) = processBlock z s block"
proof -
  let ?block = "block\<lparr>blk_state_root := r\<rparr>"
  have header: "(getHeader z ?block)\<lparr>hdr_state_root := kZeroHash\<rparr> = (getHeader z block)\<lparr>hdr_state_root := kZeroHash\<rparr>"
    by (simp add: getHeader_def)
  have fields: "validateProposerIndex s ?block = validateProposerIndex s block" "blk_slot ?block = blk_slot block"
    "blk_parent_root ?block = blk_parent_root block"
    by (simp_all add: validateProposerIndex_def)
  have "processBlockHeader z s ?block = processBlockHeader z s block"
    unfolding processBlockHeader_def header fields by (rule refl)
  then show ?thesis by (simp add: processBlock_def)
qed

lemma stateTransition_state_root:
  assumes "stateTransition z block s False = Inr post"
  shows "stateTransition z (block\<lparr>blk_state_root := hash_state z post\<rparr>) s True = Inr post"
  using assms by (auto simp: stateTransition_def processBlock_state_root OUTCOME_TRY_eq_Inr)

lemma pack_attestations_bits:
  "pack_attestations e s block by_data ds source atts proofs = Inr (atts', proofs') \<Longrightarrow>
   map aa_bits atts = map pf_participants proofs \<Longrightarrow> map aa_bits atts' = map pf_participants proofs'"
  by (induction ds arbitrary: source atts proofs)
    (auto simp: Let_def OUTCOME_TRY_eq_Inr o_def split: if_splits option.splits)

lemma getProposalAttestations_bits:
  "getProposalAttestations e slot i root fc = (Inr (atts, proofs), fc') \<Longrightarrow> map aa_bits atts = map pf_participants proofs"
  by (auto simp: getProposalAttestations_def TRY_eq_Inr READ_def intro: pack_attestations_bits split: prod.splits)

text \<open>
  C17. A block the node proposes extends the head, carries the root of its post-state and
  passes the state transition with that check on, and the aggregation bits of its
  attestations are the participants of the proofs that come with them.
\<close>

theorem produced_block_valid:
  assumes "produceBlockWithSignatures e slot proposer_index fc = (Inr sb, fc')"
  shows "blk_slot (sb_block sb) = slot \<and> blk_proposer_index (sb_block sb) = proposer_index \<and>
    blk_parent_root (sb_block sb) = cp_root (fc_head fc) \<and>
    map aa_bits (bd_attestations (blk_body (sb_block sb))) =
      map pf_participants (bs_attestation_signatures (sb_signature sb)) \<and>
    (\<exists>head_state post_state.
       fst (ForkChoice_getState e (cp_root (fc_head fc)) fc) = Inr head_state \<and>
       stateTransition (env_ssz e) (sb_block sb) head_state True = Inr post_state \<and>
       blk_state_root (sb_block sb) = hash_state (env_ssz e) post_state)"
  using assms
  by (auto simp: produceBlockWithSignatures_def Let_def TRY_eq_Inr LIFT_def FAIL_def OK_def
      dest!: getProposalAttestations_bits stateTransition_state_root
      split: if_splits option.splits prod.splits)

text \<open>The store already knows a block with this hash, so that the import of the new one is immediate.\<close>

theorem produced_block_valid_witness:
  "\<exists>fc'. produceBlockWithSignatures fd_env 2 2 (fd_store\<lparr>fc_block_tree := fd_block_tree2 [], fc_states := fd_cache\<rparr>) =
      (Inr (fd_signed [] []), fc') \<and>
    stateTransition fd_ssz (demo_block 2 []) (Chains.demo_state 1 0 0 []) True = Inr (Chains.demo_state 2 0 0 [False])"
proof -
  let ?fc = "fd_store\<lparr>fc_block_tree := fd_block_tree2 [], fc_states := fd_cache\<rparr>"
  let ?block0 = "\<lparr>blk_slot = 2, blk_proposer_index = 2, blk_parent_root = 1001, blk_state_root = kZeroHash,
     blk_body = \<lparr>bd_attestations = []\<rparr>\<rparr>"
  have root: "cp_root (fc_head fd_store) = 1001" and none: "fc_latest_known_attestations fd_store = []"
    by (simp_all add: fd_store_def)
  have get: "ForkChoice_getState fd_env 1001 ?fc = (Inr (Chains.demo_state 1 0 0 []), ?fc\<lparr>fc_states := fd_cache2\<rparr>)"
    by (simp add: fd_getState2)
  obtain c where again: "ForkChoice_getState fd_env 1001 (?fc\<lparr>fc_states := fd_cache2\<rparr>) =
      (Inr (Chains.demo_state 1 0 0 []), ?fc\<lparr>fc_states := c\<rparr>)"
    by (simp add: ForkChoice_getState_def lru_get_else_def lru_get_def lru_tick_def Let_def fd_cache2_def)
  have atts: "getProposalAttestations fd_env 2 2 1001 (?fc\<lparr>fc_states := fd_cache2\<rparr>) = (Inr ([], []), ?fc\<lparr>fc_states := c\<rparr>)"
    using again none by (simp add: getProposalAttestations_def fd_fc sorted_attestation_data_def)
  have stf: "stateTransition fd_ssz ?block0 (Chains.demo_state 1 0 0 []) False = Inr (Chains.demo_state 2 0 0 [False])"
    by (simp add: demo_eval stf_eval)
  have block: "?block0\<lparr>blk_state_root := hash_state fd_ssz (Chains.demo_state 2 0 0 [False])\<rparr> = demo_block 2 []"
    by (simp add: demo_block_def)
  have known: "onBlock fd_env (fd_signed [] []) (?fc\<lparr>fc_states := c\<rparr>) = (Inr (), ?fc\<lparr>fc_states := c\<rparr>)"
    by (simp add: onBlock_def Let_def TRY_def READ_def OK_def BlockTree_has_def fd_signed_def Block_hash_def getHeader_def
        fd_block_tree2_def)
  have key: "env_keypair fd_env k = Some [5]" "env_sign fd_env k ep msg = [1]"
    "length (st_validators (Chains.demo_state 1 0 0 [])) = 3" for k ep msg
    by (simp_all add: fd_env_def Chains.demo_state_def demo_validators_def)
  have run: "produceBlockWithSignatures fd_env 2 2 ?fc = (Inr (fd_signed [] []), ?fc\<lparr>fc_states := c\<rparr>)"
    using get atts stf block known key
    by (simp add: produceBlockWithSignatures_def root TRY_def LIFT_def OK_def isProposer_def validators_at_def Let_def
        fd_signed_def)
  from produced_block_valid[OF run] show ?thesis
    using run get stateTransition_state_root[OF stf] block root by (auto simp: fd_signed_def)
qed

end
