(* ===== verification/BlockSync.thy ===== *)
theory BlockSync
  imports StoreInvariants "HOL-Library.Multiset"
begin

text \<open>
  The block synchronisation of \<^verbatim>\<open>modules/networking/networking.cpp\<close>: blocks whose
  parent is unknown wait in a cache, their missing ancestors are requested from peers, and
  when a block connects to the tree it is imported together with its cached descendants and
  the attestations that waited for them.

  The iterator a cache item holds into the multimap of children denotes the only entry for
  its block, so that the item keeps the entry itself.  Spawned requests are collected in a
  list; their completion is the operation \<open>onBlockResponse\<close>.  The clock is in milliseconds.
\<close>

subsection \<open>State\<close>

type_synonym PeerId = bytes

record BlockCacheItem =
  ci_child_it :: "hash \<times> hash"
  ci_block :: SignedBlock

record 's Networking =
  nw_fork_choice_store :: "'s ForkChoiceStore"
  nw_block_requested_at :: "(hash, nat) umap"
  nw_block_cache :: "(hash, BlockCacheItem) umap"
  nw_block_children :: "(hash \<times> hash) list"
  nw_attestation_cache :: "(hash \<times> SignedAttestation) list"
  nw_aggregated_attestation_cache :: "(hash \<times> SignedAggregatedAttestation) list"
  nw_spawned_requests :: "(PeerId \<times> hash) list"

definition on_store :: "('s ForkChoiceStore, 'a) action \<Rightarrow> ('s Networking, 'a) action" where
  "on_store m nw = (case m (nw_fork_choice_store nw) of (r, fc) \<Rightarrow> (r, nw\<lparr>nw_fork_choice_store := fc\<rparr>))"

definition tree_has :: "'s FcEnv \<Rightarrow> hash \<Rightarrow> 's Networking \<Rightarrow> bool result" where
  "tree_has e h nw = BlockTree_has (env_db e) h (fc_block_tree (nw_fork_choice_store nw))"

definition tree_lastFinalized :: "'s Networking \<Rightarrow> BlockIndex result" where
  "tree_lastFinalized nw = lastFinalized (fc_block_tree (nw_fork_choice_store nw))"

definition kRetryRequestBlock :: nat where
  "kRetryRequestBlock = 3000"

definition consumeMultimap :: "('k \<times> 'v) list \<Rightarrow> 'k \<Rightarrow> 'v list \<times> ('k \<times> 'v) list" where
  "consumeMultimap multimap key =
     (map snd (filter (\<lambda>p. fst p = key) multimap), filter (\<lambda>p. fst p \<noteq> key) multimap)"

subsection \<open>Requests\<close>

text \<open>
  The loop of \<open>requestBlock\<close> to the first ancestor that is not cached; \<open>None\<close> for a finalized
  fork.  It visits every cached block at most once unless the parents form a cycle, so the
  size of the cache is enough fuel.
\<close>

fun find_missing :: "nat \<Rightarrow> (hash, BlockCacheItem) umap \<Rightarrow> slot \<Rightarrow> hash \<Rightarrow> hash option result" where
  "find_missing 0 block_cache finalized_slot block_hash = Inl (Exn Diverges)"
| "find_missing (Suc fuel) block_cache finalized_slot block_hash =
     (case map_of block_cache block_hash of
        None \<Rightarrow> Inr (Some block_hash)
      | Some item \<Rightarrow>
          let block = sb_block (ci_block item) in
          if blk_slot block \<le> finalized_slot then Inr None
          else find_missing fuel block_cache finalized_slot (blk_parent_root block))"

definition requestBlock :: "'s FcEnv \<Rightarrow> nat \<Rightarrow> PeerId \<Rightarrow> hash \<Rightarrow> ('s Networking, unit) action" where
  "requestBlock e now peer_id block_hash =
     TRY (READ tree_lastFinalized) (\<lambda>finalized.
     TRY (READ (\<lambda>nw. find_missing (Suc (length (nw_block_cache nw))) (nw_block_cache nw) (bi_slot finalized) block_hash)) (\<lambda>missing.
     case missing of
       None \<Rightarrow> OK ()
     | Some missing_hash \<Rightarrow>
         TRY (READ (tree_has e missing_hash)) (\<lambda>known.
         if known then OK ()
         else (\<lambda>nw.
           let requested_at = (case map_of (nw_block_requested_at nw) missing_hash of None \<Rightarrow> 0 | Some t \<Rightarrow> t) in
           if now < requested_at + kRetryRequestBlock
           then (Inr (), nw\<lparr>nw_block_requested_at := AList.update missing_hash requested_at (nw_block_requested_at nw)\<rparr>)
           else (Inr (), nw\<lparr>nw_block_requested_at := AList.update missing_hash now (nw_block_requested_at nw),
                            nw_spawned_requests := nw_spawned_requests nw @ [(peer_id, missing_hash)]\<rparr>)))))"

subsection \<open>Consuming cached blocks\<close>

type_synonym 's BlockConsumer =
  "bool \<Rightarrow> SignedBlock \<Rightarrow> SignedAttestation list \<Rightarrow> SignedAggregatedAttestation list \<Rightarrow> ('s Networking, bool) action"

definition erase_cached :: "hash \<Rightarrow> BlockCacheItem \<Rightarrow> 's Networking \<Rightarrow> 's Networking" where
  "erase_cached h item nw =
     nw\<lparr>nw_block_children := remove1 (ci_child_it item) (nw_block_children nw),
        nw_block_cache := AList.delete h (nw_block_cache nw)\<rparr>"

definition children_of :: "hash \<Rightarrow> 's Networking \<Rightarrow> hash list" where
  "children_of h nw = map snd (filter (\<lambda>p. fst p = h) (nw_block_children nw))"

definition call_consumer :: "'s BlockConsumer option \<Rightarrow> 's BlockConsumer" where
  "call_consumer consumer good block attestations aggregated =
     (case consumer of None \<Rightarrow> OK good | Some f \<Rightarrow> f good block attestations aggregated)"

text \<open>Every round removes a block from the cache or ends the process.\<close>

fun consume_queue :: "nat \<Rightarrow> 's BlockConsumer option \<Rightarrow> (bool \<times> hash) list \<Rightarrow> ('s Networking, unit) action" where
  "consume_queue fuel consumer [] = OK ()"
| "consume_queue 0 consumer (entry # queue) = FAIL (Exn Diverges)"
| "consume_queue (Suc fuel) consumer ((good, h) # queue) = (\<lambda>nw.
     case map_of (nw_block_cache nw) h of
       None \<Rightarrow> (Inl (Exn FatalLog), nw)
     | Some item \<Rightarrow>
         let (attestations, attestation_cache) = consumeMultimap (nw_attestation_cache nw) h;
             (aggregated, aggregated_cache) = consumeMultimap (nw_aggregated_attestation_cache nw) h;
             nw1 = (erase_cached h item nw)\<lparr>nw_attestation_cache := attestation_cache,
                                            nw_aggregated_attestation_cache := aggregated_cache\<rparr>
         in TRY (call_consumer consumer good (ci_block item) attestations aggregated)
              (\<lambda>new_good nw2.
                 consume_queue fuel consumer (queue @ map (\<lambda>child. (new_good, child)) (children_of h nw2)) nw2) nw1)"

definition consumeBlockTree :: "bool \<Rightarrow> hash \<Rightarrow> 's BlockConsumer option \<Rightarrow> ('s Networking, unit) action" where
  "consumeBlockTree init_good init_hash consumer nw =
     consume_queue (Suc (length (nw_block_cache nw))) consumer [(init_good, init_hash)] nw"

definition import_pending :: "('x \<Rightarrow> ('s ForkChoiceStore, unit) action) \<Rightarrow> 'x list \<Rightarrow> ('s Networking, unit) action" where
  "import_pending f xs = FOREACH (\<lambda>x. TRY (on_store (LOGGED (f x))) (\<lambda>_. OK ())) xs"

definition consume_block :: "'s FcEnv \<Rightarrow> 's BlockConsumer" where
  "consume_block e good block attestations aggregated_attestations =
     TRY (on_store (LOGGED (onBlock e block))) (\<lambda>block_res.
     case block_res of
       None \<Rightarrow> OK False
     | Some _ \<Rightarrow>
         TRY (import_pending (onGossipAttestation e) attestations) (\<lambda>_.
         TRY (import_pending (onGossipAggregatedAttestation e) aggregated_attestations) (\<lambda>_.
         OK True)))"

definition nw_prune :: "('s Networking, unit) action" where
  "nw_prune =
     TRY (READ tree_lastFinalized) (\<lambda>finalized nw.
     let old = filter (\<lambda>(_, item). blk_slot (sb_block (ci_block item)) \<le> bi_slot finalized) (nw_block_cache nw) in
     (Inr (), nw\<lparr>nw_block_cache :=
                   filter (\<lambda>(_, item). \<not> blk_slot (sb_block (ci_block item)) \<le> bi_slot finalized) (nw_block_cache nw),
                 nw_block_children := fold (\<lambda>(_, item). remove1 (ci_child_it item)) old (nw_block_children nw),
                 nw_attestation_cache :=
                   filter (\<lambda>(_, a). \<not> cp_slot (ad_head (sa_data a)) \<le> bi_slot finalized) (nw_attestation_cache nw),
                 nw_aggregated_attestation_cache :=
                   filter (\<lambda>(_, a). \<not> cp_slot (ad_head (saa_data a)) \<le> bi_slot finalized) (nw_aggregated_attestation_cache nw)\<rparr>))"

subsection \<open>Received messages\<close>

text \<open>
  The children of a block of a finalized fork: the loop goes over the range of the block in
  the multimap, whose bounds are taken before the first round.  After a round the iterator
  is incremented, which is undefined when the call in the round erased the entry the
  iterator points to; an iterator whose entry is still there moves on.
\<close>

fun forget_range :: "hash \<Rightarrow> hash list \<Rightarrow> ('s Networking, unit) action" where
  "forget_range h [] = OK ()"
| "forget_range h (child # rest) =
     TRY (consumeBlockTree False child None) (\<lambda>_.
     TRY (READ (\<lambda>nw. if (h, child) \<in> set (nw_block_children nw) then Inr () else Inl (Exn UndefinedBehaviour))) (\<lambda>_.
     forget_range h rest))"

definition forget_children :: "hash \<Rightarrow> ('s Networking, unit) action" where
  "forget_children h nw = forget_range h (children_of h nw) nw"

definition request_from :: "'s FcEnv \<Rightarrow> nat \<Rightarrow> PeerId option \<Rightarrow> hash \<Rightarrow> ('s Networking, unit) action" where
  "request_from e now from_peer h = (case from_peer of None \<Rightarrow> OK () | Some peer_id \<Rightarrow> requestBlock e now peer_id h)"

definition cache_block :: "hash \<Rightarrow> SignedBlock \<Rightarrow> 's Networking \<Rightarrow> 's Networking" where
  "cache_block h signed_block nw =
     (let child_it = (blk_parent_root (sb_block signed_block), h) in
      nw\<lparr>nw_block_children := nw_block_children nw @ [child_it],
         nw_block_cache := nw_block_cache nw @ [(h, \<lparr>ci_child_it = child_it, ci_block = signed_block\<rparr>)]\<rparr>)"

definition receiveBlock :: "'s FcEnv \<Rightarrow> nat \<Rightarrow> PeerId option \<Rightarrow> SignedBlock \<Rightarrow> ('s Networking, unit) action" where
  "receiveBlock e now from_peer signed_block nw =
     (let block = sb_block signed_block;
          h = Block_hash (env_ssz e) block;
          parent_hash = blk_parent_root block
      in if map_of (nw_block_cache nw) h \<noteq> None then request_from e now from_peer parent_hash nw
         else
           TRY (READ (tree_has e h)) (\<lambda>known.
           if known then OK ()
           else
             TRY (READ tree_lastFinalized) (\<lambda>finalized.
             if blk_slot block \<le> bi_slot finalized then forget_children h
             else
               TRY (\<lambda>nw. (Inr (), cache_block h signed_block nw)) (\<lambda>_.
               TRY (request_from e now from_peer parent_hash) (\<lambda>_.
               TRY (READ (tree_has e parent_hash)) (\<lambda>parent_known.
               if \<not> parent_known then OK ()
               else TRY (consumeBlockTree True h (Some (consume_block e))) (\<lambda>_. nw_prune)))))) nw)"

definition onBlockResponse ::
  "'s FcEnv \<Rightarrow> nat \<Rightarrow> PeerId \<Rightarrow> hash \<Rightarrow> SignedBlock option \<Rightarrow> ('s Networking, unit) action" where
  "onBlockResponse e now peer_id block_hash response_res =
     TRY (\<lambda>nw. (Inr (), nw\<lparr>nw_block_requested_at := AList.delete block_hash (nw_block_requested_at nw)\<rparr>)) (\<lambda>_.
     case response_res of
       Some block \<Rightarrow> receiveBlock e now (Some peer_id) block
     | None \<Rightarrow> OK ())"

definition statusFinalizedIsGood :: "'s FcEnv \<Rightarrow> Checkpoint \<Rightarrow> 's Networking \<Rightarrow> bool result" where
  "statusFinalizedIsGood e slot_hash nw =
     (case getSlotByHash (env_ssz e) (env_db e) (cp_root slot_hash) (fc_block_tree (nw_fork_choice_store nw)) of
        Inr expected \<Rightarrow> Inr (cp_slot slot_hash = expected)
      | Inl err \<Rightarrow>
          if is_exn err then Inl err
          else OUTCOME_TRY (tree_lastFinalized nw) (\<lambda>finalized. Inr (cp_slot slot_hash > bi_slot finalized)))"

text \<open>The result says whether the message is dispatched to the other modules.\<close>

definition receiveStatus ::
  "'s FcEnv \<Rightarrow> nat \<Rightarrow> PeerId \<Rightarrow> Checkpoint \<Rightarrow> Checkpoint \<Rightarrow> ('s Networking, bool) action" where
  "receiveStatus e now from_peer finalized head =
     TRY (READ (statusFinalizedIsGood e finalized)) (\<lambda>finalized_good.
     if \<not> finalized_good then OK False
     else
       TRY (READ (statusFinalizedIsGood e head)) (\<lambda>head_good.
       if \<not> head_good then OK False
       else
         TRY (READ tree_lastFinalized) (\<lambda>last_finalized.
         TRY (if cp_slot head > bi_slot last_finalized
              then TRY (READ (tree_has e (cp_root head))) (\<lambda>known.
                   if known then OK () else requestBlock e now from_peer (cp_root head))
              else OK ()) (\<lambda>_.
         OK True))))"

text \<open>An attestation whose head is unknown waits for it.\<close>

definition onGossipVote :: "'s FcEnv \<Rightarrow> nat \<Rightarrow> PeerId option \<Rightarrow> SignedAttestation \<Rightarrow> ('s Networking, unit) action" where
  "onGossipVote e now peer_id signed_attestation =
     (let head = ad_head (sa_data signed_attestation) in
      TRY (READ (tree_has e (cp_root head))) (\<lambda>known.
      if \<not> known then
        TRY (READ tree_lastFinalized) (\<lambda>finalized.
        if cp_slot head \<le> bi_slot finalized then OK ()
        else
          TRY (\<lambda>nw. (Inr (), nw\<lparr>nw_attestation_cache := nw_attestation_cache nw @ [(cp_root head, signed_attestation)]\<rparr>)) (\<lambda>_.
          request_from e now peer_id (cp_root head)))
      else TRY (on_store (LOGGED (onGossipAttestation e signed_attestation))) (\<lambda>_. OK ())))"

definition onGossipAggregation ::
  "'s FcEnv \<Rightarrow> nat \<Rightarrow> PeerId option \<Rightarrow> SignedAggregatedAttestation \<Rightarrow> ('s Networking, unit) action" where
  "onGossipAggregation e now peer_id aggregated =
     (let head = ad_head (saa_data aggregated) in
      TRY (READ (tree_has e (cp_root head))) (\<lambda>known.
      if \<not> known then
        TRY (READ tree_lastFinalized) (\<lambda>finalized.
        if cp_slot head \<le> bi_slot finalized then OK ()
        else
          TRY (\<lambda>nw. (Inr (), nw\<lparr>nw_aggregated_attestation_cache :=
                              nw_aggregated_attestation_cache nw @ [(cp_root head, aggregated)]\<rparr>)) (\<lambda>_.
          request_from e now peer_id (cp_root head)))
      else TRY (on_store (LOGGED (onGossipAggregatedAttestation e aggregated))) (\<lambda>_. OK ())))"

subsection \<open>Consistency of the caches\<close>

text \<open>
  Every cached block is stored under its hash and holds its own entry among the children
  of its parent, and there are no other entries.
\<close>

definition item_ok :: "ssz \<Rightarrow> hash \<times> BlockCacheItem \<Rightarrow> bool" where
  "item_ok z p \<longleftrightarrow> fst p = Block_hash z (sb_block (ci_block (snd p))) \<and>
     ci_child_it (snd p) = (blk_parent_root (sb_block (ci_block (snd p))), fst p)"

definition cache_ok :: "ssz \<Rightarrow> 's Networking \<Rightarrow> bool" where
  "cache_ok z nw \<longleftrightarrow> distinct (map fst (nw_block_cache nw)) \<and> list_all (item_ok z) (nw_block_cache nw) \<and>
     mset (nw_block_children nw) = mset (map (ci_child_it \<circ> snd) (nw_block_cache nw))"

lemma mset_delete:
  "distinct (map fst m) \<Longrightarrow> map_of m k = Some v \<Longrightarrow> mset m = add_mset (k, v) (mset (AList.delete k m))"
proof (induction m)
  case (Cons p m)
  show ?case
  proof (cases "fst p = k")
    case True
    with Cons.prems have "AList.delete k m = m" by (auto simp: AList.delete_eq filter_id_conv image_iff)
    with True Cons.prems show ?thesis by (cases p) simp
  next
    case False
    with Cons show ?thesis by (cases p) simp
  qed
qed simp

lemma erase_cached_ok:
  assumes ok: "cache_ok z nw" and item: "map_of (nw_block_cache nw) h = Some item"
  shows "cache_ok z (erase_cached h item nw)"
proof -
  have d: "distinct (map fst (nw_block_cache nw))" using ok by (simp add: cache_ok_def)
  have "mset (map (ci_child_it \<circ> snd) (nw_block_cache nw)) =
      add_mset (ci_child_it item) (mset (map (ci_child_it \<circ> snd) (AList.delete h (nw_block_cache nw))))"
    using arg_cong[OF mset_delete[OF d item], of "image_mset (ci_child_it \<circ> snd)"] by simp
  then show ?thesis using ok
    by (auto simp: cache_ok_def erase_cached_def distinct_map_filter list_all_iff AList.delete_eq)
qed

lemma cache_block_ok:
  assumes ok: "cache_ok z nw" and new: "map_of (nw_block_cache nw) (Block_hash z (sb_block sb)) = None"
  shows "cache_ok z (cache_block (Block_hash z (sb_block sb)) sb nw)"
  using assms by (auto simp: cache_ok_def cache_block_def Let_def item_ok_def map_of_eq_None_iff)

lemma mset_fold_remove1:
  "mset (fold (\<lambda>p. remove1 (f p)) xs ys) = mset ys - mset (map f xs)"
  by (induction xs arbitrary: ys) (simp_all)

lemma cache_prune_ok:
  assumes "cache_ok z nw"
  shows "cache_ok z (nw\<lparr>nw_block_cache := filter (\<lambda>(_, item). \<not> blk_slot (sb_block (ci_block item)) \<le> n) (nw_block_cache nw),
    nw_block_children := fold (\<lambda>(_, item). remove1 (ci_child_it item))
       (filter (\<lambda>(_, item). blk_slot (sb_block (ci_block item)) \<le> n) (nw_block_cache nw)) (nw_block_children nw),
    nw_attestation_cache := a, nw_aggregated_attestation_cache := b\<rparr>)"
proof -
  let ?f = "\<lambda>p. ci_child_it (snd p)" and ?old = "\<lambda>p. blk_slot (sb_block (ci_block (snd p))) \<le> n"
  let ?c = "nw_block_cache nw"
  have "mset (map ?f ?c) = mset (map ?f (filter ?old ?c)) + mset (map ?f (filter (\<lambda>p. \<not> ?old p) ?c))"
    unfolding mset_map mset_filter image_mset_union[symmetric] multiset_partition[symmetric] by (rule refl)
  then have "mset (nw_block_children nw) = mset (map ?f (filter ?old ?c)) + mset (map ?f (filter (\<lambda>p. \<not> ?old p) ?c))"
    using assms unfolding cache_ok_def comp_def by simp
  then have "mset (fold (\<lambda>p. remove1 (?f p)) (filter ?old ?c) (nw_block_children nw)) = mset (map ?f (filter (\<lambda>p. \<not> ?old p) ?c))"
    unfolding mset_fold_remove1 by simp
  moreover have "distinct (map fst (filter (\<lambda>p. \<not> ?old p) ?c))" "list_all (item_ok z) (filter (\<lambda>p. \<not> ?old p) ?c)"
    using assms by (auto simp: cache_ok_def distinct_map_filter list_all_iff)
  ultimately show ?thesis by (simp add: cache_ok_def case_prod_unfold comp_def)
qed

lemma keeps_prune: "keeps (cache_ok z) nw_prune"
  by (auto simp: keeps_def nw_prune_def TRY_def READ_def Let_def intro: cache_prune_ok split: sum.split)

subsection \<open>Consumers\<close>

text \<open>
  What the walk over the cached blocks needs of the consumer: it does not touch the
  caches.  Then the walk never meets a block that is not cached, hands every block to
  the consumer once, and ends.
\<close>

definition same_caches :: "'s Networking \<Rightarrow> 's Networking \<Rightarrow> bool" where
  "same_caches nw nw' \<longleftrightarrow> nw_block_cache nw' = nw_block_cache nw \<and> nw_block_children nw' = nw_block_children nw"

definition consumer_fails :: "'s BlockConsumer option \<Rightarrow> error \<Rightarrow> bool" where
  "consumer_fails consumer err \<longleftrightarrow>
     (\<exists>good block as ags nw nw'. call_consumer consumer good block as ags nw = (Inl err, nw'))"

text \<open>The cached blocks below \<open>h\<close>.\<close>

definition cached_child :: "(hash, BlockCacheItem) umap \<Rightarrow> hash \<Rightarrow> hash \<Rightarrow> bool" where
  "cached_child cache p c \<longleftrightarrow> (\<exists>item. map_of cache c = Some item \<and> blk_parent_root (sb_block (ci_block item)) = p)"

abbreviation cached_below :: "(hash, BlockCacheItem) umap \<Rightarrow> hash \<Rightarrow> hash \<Rightarrow> bool" where
  "cached_below cache \<equiv> (cached_child cache)\<^sup>*\<^sup>*"

lemma children_of_ok:
  assumes ok: "cache_ok z nw"
  shows "set (children_of h nw) = {c. cached_child (nw_block_cache nw) h c}" "distinct (children_of h nw)"
proof -
  let ?c = "nw_block_cache nw"
  have d: "distinct (map fst ?c)" and items: "\<And>p. p \<in> set ?c \<Longrightarrow> item_ok z p"
    and m: "mset (nw_block_children nw) = mset (map (ci_child_it \<circ> snd) ?c)"
    using ok by (auto simp: cache_ok_def list_all_iff)
  have map_eq: "map (ci_child_it \<circ> snd) ?c = map (\<lambda>p. (blk_parent_root (sb_block (ci_block (snd p))), fst p)) ?c"
    using items by (auto simp: item_ok_def)
  have "set (nw_block_children nw) = set (map (ci_child_it \<circ> snd) ?c)" using m by (metis set_mset_mset)
  moreover have "c \<in> set (children_of h nw) \<longleftrightarrow> (h, c) \<in> set (nw_block_children nw)" for c
    by (force simp: children_of_def)
  ultimately show "set (children_of h nw) = {c. cached_child ?c h c}"
    unfolding map_eq using d
    by (simp add: cached_child_def set_eq_iff image_iff Bex_def split_paired_Ex map_of_eq_Some_iff conj_commute) blast
  have "distinct (map snd (map (\<lambda>p. (blk_parent_root (sb_block (ci_block (snd p))), fst p)) ?c))"
    using d by (simp add: comp_def)
  then have "distinct (map snd (nw_block_children nw))"
    using m unfolding map_eq by (metis mset_eq_imp_distinct_iff mset_map)
  then show "distinct (children_of h nw)" by (simp add: children_of_def distinct_map_filter)
qed

locale block_consumer =
  fixes consumer :: "'s BlockConsumer option"
  assumes quiet: "call_consumer consumer good block as ags nw = (r, nw') \<Longrightarrow> same_caches nw nw'"
begin

lemma consume_round:
  assumes ok: "cache_ok z nw" and item: "map_of (nw_block_cache nw) h = Some item"
    and run: "consume_queue (Suc k) consumer ((good, h) # queue) nw = (r, nw')"
  obtains (failed) err where "r = Inl err" "consumer_fails consumer err" "cache_ok z nw'"
  | (step) good' nw2 where "cache_ok z nw2" "nw_block_cache nw2 = AList.delete h (nw_block_cache nw)"
      "consume_queue k consumer (queue @ map (\<lambda>child. (good', child)) (children_of h nw2)) nw2 = (r, nw')"
proof -
  obtain as ac where a: "consumeMultimap (nw_attestation_cache nw) h = (as, ac)" by fastforce
  obtain gs gc where g: "consumeMultimap (nw_aggregated_attestation_cache nw) h = (gs, gc)" by fastforce
  define nw1 where "nw1 = (erase_cached h item nw)\<lparr>nw_attestation_cache := ac, nw_aggregated_attestation_cache := gc\<rparr>"
  have ok1: "cache_ok z nw1"
    using erase_cached_ok[OF ok item] by (simp add: nw1_def cache_ok_def)
  obtain r2 nw2 where call: "call_consumer consumer good (ci_block item) as gs nw1 = (r2, nw2)" by fastforce
  have same: "same_caches nw1 nw2" by (rule quiet[OF call])
  with ok1 have ok2: "cache_ok z nw2" by (simp add: same_caches_def cache_ok_def)
  have cache2: "nw_block_cache nw2 = AList.delete h (nw_block_cache nw)"
    using same by (simp add: same_caches_def nw1_def erase_cached_def)
  have eq: "consume_queue (Suc k) consumer ((good, h) # queue) nw =
      (case r2 of Inl err \<Rightarrow> (Inl err, nw2)
       | Inr good' \<Rightarrow> consume_queue k consumer (queue @ map (\<lambda>child. (good', child)) (children_of h nw2)) nw2)"
    using item a g call by (simp add: nw1_def TRY_def Let_def split: sum.split)
  show ?thesis
  proof (cases r2)
    case (Inl err)
    then have "consumer_fails consumer err" using call unfolding consumer_fails_def by blast
    with Inl eq run ok2 show ?thesis by (intro failed[of err]) auto
  next
    case (Inr good')
    with eq run ok2 cache2 show ?thesis by (intro step[of nw2 good']) auto
  qed
qed

lemma consume_queue_ok:
  "cache_ok z nw \<Longrightarrow> consume_queue k consumer queue nw = (r, nw') \<Longrightarrow> cache_ok z nw'"
proof (induction k arbitrary: queue nw)
  case 0
  then show ?case by (cases queue) (auto simp: OK_def FAIL_def)
next
  case (Suc k)
  show ?case
  proof (cases queue)
    case (Cons q rest)
    obtain good h where q: "q = (good, h)" by fastforce
    show ?thesis
    proof (cases "map_of (nw_block_cache nw) h")
      case None
      with Suc.prems Cons q show ?thesis by auto
    next
      case (Some item)
      from Suc.prems(2) have "consume_queue (Suc k) consumer ((good, h) # rest) nw = (r, nw')" by (simp add: Cons q)
      from consume_round[OF Suc.prems(1) Some this] show ?thesis using Suc.IH by metis
    qed
  qed (use Suc.prems in \<open>auto simp: OK_def\<close>)
qed

text \<open>
  The walk after it has removed the blocks \<open>P\<close> from the cache \<open>C\<close>: the children of every
  removed block are removed or queued, and every queued block was queued by its parent.
\<close>

definition walking :: "(hash, BlockCacheItem) umap \<Rightarrow> hash set \<Rightarrow> hash list \<Rightarrow> 's Networking \<Rightarrow> bool" where
  "walking C P Q nw \<longleftrightarrow>
     nw_block_cache nw = filter (\<lambda>p. fst p \<notin> P) C \<and> distinct Q \<and> set Q \<subseteq> fst ` set (nw_block_cache nw) \<and>
     (P = {} \<longrightarrow> length Q \<le> 1) \<and>
     (\<forall>q \<in> set Q. \<forall>p. cached_child C p q \<longrightarrow> p \<in> P \<or> P = {}) \<and>
     (\<forall>p \<in> P. \<forall>c. cached_child C p c \<longrightarrow> c \<in> P \<union> set Q)"

lemma walking_step:
  assumes C: "distinct (map fst C)" and w: "walking C P (h # Q) nw" and ok: "cache_ok z nw2"
    and cache: "nw_block_cache nw2 = AList.delete h (nw_block_cache nw)"
  shows "walking C (insert h P) (Q @ children_of h nw2) nw2"
    and "set (children_of h nw2) \<subseteq> {c. cached_child C h c}"
proof -
  have c2: "nw_block_cache nw2 = filter (\<lambda>p. fst p \<notin> insert h P) C"
    using w cache by (auto simp: walking_def AList.delete_eq case_prod_unfold intro!: filter_cong)
  have child: "cached_child (nw_block_cache nw2) p c \<longleftrightarrow> cached_child C p c \<and> c \<notin> insert h P" for p c
    unfolding c2 cached_child_def using C
    by (auto simp: distinct_map_filter map_of_eq_Some_iff)
  have ch: "set (children_of h nw2) = {c. cached_child C h c \<and> c \<notin> insert h P}" "distinct (children_of h nw2)"
    using children_of_ok[OF ok] child by auto
  then show "set (children_of h nw2) \<subseteq> {c. cached_child C h c}" by auto
  have Q: "nw_block_cache nw = filter (\<lambda>p. fst p \<notin> P) C" "h \<notin> set Q" "distinct Q"
      "h \<in> fst ` set (nw_block_cache nw)" "set Q \<subseteq> fst ` set (nw_block_cache nw)" "P = {} \<longrightarrow> Q = []"
    and parents: "\<forall>q \<in> set Q. \<forall>p. cached_child C p q \<longrightarrow> p \<in> P \<or> P = {}"
    and closed: "\<forall>p \<in> P. \<forall>c. cached_child C p c \<longrightarrow> c \<in> P \<union> set (h # Q)"
    using w by (auto simp: walking_def)
  have h: "h \<notin> P" using Q(1,4) by auto
  have disj: "set Q \<inter> set (children_of h nw2) = {}"
  proof (rule equals0I, elim IntE)
    fix c assume c: "c \<in> set Q" "c \<in> set (children_of h nw2)"
    then have "h \<in> P \<or> P = {}" using parents ch(1) by blast
    with h Q(6) c(1) show False by auto
  qed
  have in_cache: "c \<in> fst ` set (nw_block_cache nw2)" if "c \<in> fst ` set C" "c \<notin> insert h P" for c
    using that unfolding c2 by auto
  have sub: "set (children_of h nw2) \<subseteq> fst ` set (nw_block_cache nw2)"
  proof
    fix c assume "c \<in> set (children_of h nw2)"
    then have "cached_child C h c" "c \<notin> insert h P" using ch(1) by auto
    then show "c \<in> fst ` set (nw_block_cache nw2)"
      by (intro in_cache) (auto simp: cached_child_def dest!: map_of_SomeD intro: rev_image_eqI)
  qed
  have subQ: "set Q \<subseteq> fst ` set (nw_block_cache nw2)"
    using Q(1,2,5) by (auto intro!: in_cache)
  have par: "p = h" if "cached_child C h c" "cached_child C p c" for p c
    using that by (auto simp: cached_child_def)
  have q: "\<forall>q \<in> set (Q @ children_of h nw2). \<forall>p. cached_child C p q \<longrightarrow> p \<in> insert h P \<or> insert h P = {}"
  proof (intro ballI allI impI disjI1)
    fix q p assume "q \<in> set (Q @ children_of h nw2)" "cached_child C p q"
    then show "p \<in> insert h P" using parents Q(6) ch(1) par by (cases "q \<in> set Q") auto
  qed
  have cl: "\<forall>p \<in> insert h P. \<forall>c. cached_child C p c \<longrightarrow> c \<in> insert h P \<union> set (Q @ children_of h nw2)"
    using closed ch(1) by auto
  show "walking C (insert h P) (Q @ children_of h nw2) nw2"
    unfolding walking_def using c2 ch(2) disj sub subQ q cl Q(3) by simp
qed

lemma consume_walk:
  assumes "consume_queue k consumer queue nw = (r, nw')" "cache_ok z nw" "length (nw_block_cache nw) \<le> k"
    and "distinct (map fst C)" "walking C P (map snd queue) nw"
  shows "case r of
      Inl err \<Rightarrow> consumer_fails consumer err
    | Inr _ \<Rightarrow> \<exists>P'. nw_block_cache nw' = filter (\<lambda>p. fst p \<notin> P') C \<and> P \<union> snd ` set queue \<subseteq> P' \<and>
        (\<forall>p \<in> P'. \<forall>c. cached_child C p c \<longrightarrow> c \<in> P') \<and>
        (\<forall>p \<in> P'. p \<in> P \<or> (\<exists>q \<in> snd ` set queue. cached_below C q p))"
  using assms
proof (induction k arbitrary: queue nw P)
  case 0
  then have "queue = []" by (auto simp: walking_def)
  with 0 show ?case by (auto simp: OK_def walking_def intro!: exI[of _ P])
next
  case (Suc k)
  show ?case
  proof (cases queue)
    case Nil
    with Suc.prems show ?thesis by (auto simp: OK_def walking_def intro!: exI[of _ P])
  next
    case (Cons q rest)
    obtain good h where q: "q = (good, h)" by fastforce
    from Suc.prems(5) Cons q have w: "walking C P (h # map snd rest) nw" by simp
    then obtain item where item: "map_of (nw_block_cache nw) h = Some item"
      by (auto simp: walking_def dest!: weak_map_of_SomeI)
    from Suc.prems(1) have run: "consume_queue (Suc k) consumer ((good, h) # rest) nw = (r, nw')" by (simp add: Cons q)
    from Suc.prems(2) item run show ?thesis
    proof (cases rule: consume_round)
      case (failed err)
      then show ?thesis by simp
    next
      case (step good' nw2)
      let ?queue = "rest @ map (\<lambda>child. (good', child)) (children_of h nw2)"
      note walk = walking_step[OF Suc.prems(4) w step(1,2)]
      have "length (nw_block_cache nw2) < length (nw_block_cache nw)"
        using item step(2) by (auto simp: AList.delete_eq dest!: map_of_SomeD intro!: length_filter_less)
      then have IH: "case r of Inl err \<Rightarrow> consumer_fails consumer err
        | Inr _ \<Rightarrow> \<exists>P'. nw_block_cache nw' = filter (\<lambda>p. fst p \<notin> P') C \<and> insert h P \<union> snd ` set ?queue \<subseteq> P' \<and>
          (\<forall>p \<in> P'. \<forall>c. cached_child C p c \<longrightarrow> c \<in> P') \<and>
          (\<forall>p \<in> P'. p \<in> insert h P \<or> (\<exists>q \<in> snd ` set ?queue. cached_below C q p))"
        using Suc.IH[OF step(3,1) _ Suc.prems(4)] walk(1) Suc.prems(3) by (simp add: comp_def)
      have below: "cached_below C h p" if "cached_below C c p" "c \<in> set (children_of h nw2)" for c p
        using that walk(2) by (auto intro: converse_rtranclp_into_rtranclp)
      have snds: "snd ` set ?queue = snd ` set rest \<union> set (children_of h nw2)" "snd ` set queue = insert h (snd ` set rest)"
        by (simp_all add: Cons q image_Un image_image)
      show ?thesis
      proof (cases r)
        case (Inl err)
        with IH show ?thesis by simp
      next
        case (Inr u)
        with IH obtain P' where P': "nw_block_cache nw' = filter (\<lambda>p. fst p \<notin> P') C" "insert h P \<union> snd ` set ?queue \<subseteq> P'"
          "\<forall>p \<in> P'. \<forall>c. cached_child C p c \<longrightarrow> c \<in> P'"
          "\<forall>p \<in> P'. p \<in> insert h P \<or> (\<exists>q \<in> snd ` set ?queue. cached_below C q p)" by auto
        have "p \<in> P \<or> (\<exists>q \<in> snd ` set queue. cached_below C q p)" if "p \<in> P'" for p
          using P'(4) that below unfolding snds by blast
        moreover have "P \<union> snd ` set queue \<subseteq> P'" using P'(2) unfolding snds by blast
        ultimately show ?thesis using P'(1,3) Inr by auto
      qed
    qed
  qed
qed

lemma keeps_consumeBlockTree: "keeps (cache_ok z) (consumeBlockTree good h consumer)"
  unfolding keeps_def consumeBlockTree_def by (metis consume_queue_ok surjective_pairing)

lemma consume_exact:
  assumes ok: "cache_ok z nw" and h: "h \<in> fst ` set (nw_block_cache nw)"
    and run: "consumeBlockTree good h consumer nw = (r, nw')"
  shows "case r of
      Inl err \<Rightarrow> consumer_fails consumer err
    | Inr _ \<Rightarrow> nw_block_cache nw' = filter (\<lambda>p. \<not> cached_below (nw_block_cache nw) h (fst p)) (nw_block_cache nw)"
proof -
  let ?C = "nw_block_cache nw"
  have C: "distinct (map fst ?C)" using ok by (simp add: cache_ok_def)
  have walk: "walking ?C {} (map snd [(good, h)]) nw" using h by (simp add: walking_def)
  note w = consume_walk[OF run[unfolded consumeBlockTree_def] ok _ C walk]
  show ?thesis
  proof (cases r)
    case (Inl err)
    with w show ?thesis by simp
  next
    case (Inr u)
    with w obtain P where P: "nw_block_cache nw' = filter (\<lambda>p. fst p \<notin> P) ?C" "h \<in> P"
      "\<And>p c. p \<in> P \<Longrightarrow> cached_child ?C p c \<Longrightarrow> c \<in> P" "\<And>p. p \<in> P \<Longrightarrow> cached_below ?C h p" by auto
    have "x \<in> P" if "cached_below ?C h x" for x
      using that P(2) by (induction rule: rtranclp_induct) (auto intro: P(3))
    with P(4) have "x \<in> P \<longleftrightarrow> cached_below ?C h x" for x by blast
    with P(1) Inr show ?thesis by simp
  qed
qed

end

text \<open>Both consumers of the module: none, and the import into the fork choice store.\<close>

interpretation forgetting: block_consumer None
  by unfold_locales (simp add: call_consumer_def OK_def same_caches_def)

lemma same_caches_refl: "same_caches nw nw"
  by (simp add: same_caches_def)

lemma keeps_on_store: "keeps (same_caches nw) (on_store m)"
  by (auto simp: keeps_def on_store_def same_caches_def split: prod.splits)

lemma keeps_import_pending: "keeps (same_caches nw) (import_pending f xs)"
  unfolding import_pending_def by (intro keeps_intros keeps_on_store)

lemma keeps_consume_block: "keeps (same_caches nw) (consume_block e good block as ags)"
  unfolding consume_block_def by (intro keeps_intros keeps_on_store keeps_import_pending)

interpretation importing: block_consumer "Some (consume_block e)" for e :: "'s FcEnv"
  by unfold_locales (auto simp: call_consumer_def intro: keepsD[OF keeps_consume_block same_caches_refl])

subsection \<open>Operations and reachable states\<close>

lemma cache_ok_fields [simp]:
  "cache_ok z (nw\<lparr>nw_block_requested_at := a\<rparr>) = cache_ok z nw"
  "cache_ok z (nw\<lparr>nw_spawned_requests := b\<rparr>) = cache_ok z nw"
  "cache_ok z (nw\<lparr>nw_attestation_cache := c\<rparr>) = cache_ok z nw"
  "cache_ok z (nw\<lparr>nw_aggregated_attestation_cache := d\<rparr>) = cache_ok z nw"
  "cache_ok z (nw\<lparr>nw_fork_choice_store := fc\<rparr>) = cache_ok z nw"
  by (simp_all add: cache_ok_def)

named_theorems cache_keeps \<open>operations that keep the caches consistent\<close>

lemma cache_on_store [cache_keeps]: "keeps (cache_ok z) (on_store m)"
  by (auto simp: keeps_def on_store_def split: prod.splits)

lemma cache_requestBlock [cache_keeps]: "keeps (cache_ok z) (requestBlock e now peer h)"
proof -
  have "keeps (cache_ok z) (\<lambda>nw.
      let requested_at = (case map_of (nw_block_requested_at nw) m of None \<Rightarrow> 0 | Some t \<Rightarrow> t) in
      if now < requested_at + kRetryRequestBlock
      then (Inr (), nw\<lparr>nw_block_requested_at := AList.update m requested_at (nw_block_requested_at nw)\<rparr>)
      else (Inr (), nw\<lparr>nw_block_requested_at := AList.update m now (nw_block_requested_at nw),
                       nw_spawned_requests := nw_spawned_requests nw @ [(peer, m)]\<rparr>))" for m
    by (simp add: keeps_def Let_def)
  then show ?thesis unfolding requestBlock_def by (intro keeps_intros keeps_READ)
qed

lemma cache_request_from [cache_keeps]: "keeps (cache_ok z) (request_from e now from_peer h)"
  unfolding request_from_def by (intro keeps_intros cache_keeps)

lemma cache_forget_range: "keeps (cache_ok z) (forget_range h rest)"
proof (induction rest)
  case (Cons child rest)
  then show ?case unfolding forget_range.simps by (intro keeps_intros forgetting.keeps_consumeBlockTree)
qed (simp add: keeps_intros)

lemma cache_forget_children [cache_keeps]: "keeps (cache_ok z) (forget_children h)"
  using cache_forget_range by (fastforce simp: keeps_def forget_children_def)

lemma cache_receiveBlock [cache_keeps]:
  fixes e :: "'s FcEnv"
  shows "keeps (cache_ok (env_ssz e)) (receiveBlock e now from_peer sb)"
  unfolding keeps_def
proof (intro allI impI)
  fix nw :: "'s Networking"
  assume ok: "cache_ok (env_ssz e) nw"
  let ?h = "Block_hash (env_ssz e) (sb_block sb)"
  show "cache_ok (env_ssz e) (snd (receiveBlock e now from_peer sb nw))"
  proof (cases "map_of (nw_block_cache nw) ?h")
    case None
    define rest where "rest = TRY (request_from e now from_peer (blk_parent_root (sb_block sb))) (\<lambda>_.
      TRY (READ (tree_has e (blk_parent_root (sb_block sb)))) (\<lambda>parent_known.
      if \<not> parent_known then OK ()
      else TRY (consumeBlockTree True ?h (Some (consume_block e))) (\<lambda>_. nw_prune)))"
    have rest: "keeps (cache_ok (env_ssz e)) rest"
      unfolding rest_def by (intro keeps_intros keeps_READ cache_keeps importing.keeps_consumeBlockTree keeps_prune)
    have "cache_ok (env_ssz e) (snd (rest (cache_block ?h sb nw)))"
      using rest cache_block_ok[OF ok None] by (simp add: keeps_def)
    moreover have "cache_ok (env_ssz e) (snd (forget_children ?h nw))"
      using ok by (rule cache_forget_children[unfolded keeps_def, rule_format])
    ultimately show ?thesis
      using None ok by (simp add: receiveBlock_def Let_def TRY_def[of "READ f" for f] READ_def OK_def
          TRY_def[of "\<lambda>nw. (Inr (), cache_block ?h sb nw)"] rest_def split: sum.split)
  next
    case (Some item)
    then show ?thesis using cache_request_from[of "env_ssz e" e] ok by (simp add: receiveBlock_def keeps_def)
  qed
qed

lemma cache_onBlockResponse [cache_keeps]: "keeps (cache_ok (env_ssz e)) (onBlockResponse e now peer h res)"
proof -
  have "keeps (cache_ok (env_ssz e)) (\<lambda>nw. (Inr (), nw\<lparr>nw_block_requested_at := AList.delete h (nw_block_requested_at nw)\<rparr>))"
    by (simp add: keeps_def)
  then show ?thesis unfolding onBlockResponse_def by (intro keeps_intros cache_keeps)
qed

lemma cache_receiveStatus [cache_keeps]: "keeps (cache_ok z) (receiveStatus e now peer finalized head)"
  unfolding receiveStatus_def by (intro keeps_intros keeps_READ cache_keeps)

lemma cache_onGossipVote [cache_keeps]: "keeps (cache_ok z) (onGossipVote e now peer a)"
proof -
  have "keeps (cache_ok z) (\<lambda>nw. (Inr (), nw\<lparr>nw_attestation_cache := nw_attestation_cache nw @ x\<rparr>))" for x
    by (simp add: keeps_def)
  then show ?thesis unfolding onGossipVote_def Let_def by (intro keeps_intros keeps_READ cache_keeps)
qed

lemma cache_onGossipAggregation [cache_keeps]: "keeps (cache_ok z) (onGossipAggregation e now peer a)"
proof -
  have "keeps (cache_ok z) (\<lambda>nw. (Inr (), nw\<lparr>nw_aggregated_attestation_cache := nw_aggregated_attestation_cache nw @ x\<rparr>))" for x
    by (simp add: keeps_def)
  then show ?thesis unfolding onGossipAggregation_def Let_def by (intro keeps_intros keeps_READ cache_keeps)
qed

text \<open>
  A message or a response, whatever its handler returns; the fork choice store also changes
  under the hands of the other modules.
\<close>

inductive net_step :: "'s FcEnv \<Rightarrow> 's Networking \<Rightarrow> 's Networking \<Rightarrow> bool" for e nw where
  net_block: "receiveBlock e now from_peer sb nw = (r, nw') \<Longrightarrow> net_step e nw nw'"
| net_response: "onBlockResponse e now peer h res nw = (r, nw') \<Longrightarrow> net_step e nw nw'"
| net_status: "receiveStatus e now peer finalized head nw = (r', nw') \<Longrightarrow> net_step e nw nw'"
| net_vote: "onGossipVote e now from_peer a nw = (r, nw') \<Longrightarrow> net_step e nw nw'"
| net_aggregation: "onGossipAggregation e now from_peer g nw = (r, nw') \<Longrightarrow> net_step e nw nw'"
| net_store: "net_step e nw (nw\<lparr>nw_fork_choice_store := fc\<rparr>)"

definition Networking_new :: "'s ForkChoiceStore \<Rightarrow> 's Networking" where
  "Networking_new fc =
     \<lparr>nw_fork_choice_store = fc, nw_block_requested_at = [], nw_block_cache = [], nw_block_children = [],
      nw_attestation_cache = [], nw_aggregated_attestation_cache = [], nw_spawned_requests = []\<rparr>"

inductive net_reachable :: "'s FcEnv \<Rightarrow> 's Networking \<Rightarrow> bool" for e where
  net_init: "net_reachable e (Networking_new fc)"
| net_more: "net_reachable e nw \<Longrightarrow> net_step e nw nw' \<Longrightarrow> net_reachable e nw'"

lemma net_step_ok: "net_step e nw nw' \<Longrightarrow> cache_ok (env_ssz e) nw \<Longrightarrow> cache_ok (env_ssz e) nw'"
  by (induction rule: net_step.induct)
    (auto dest: keepsD[OF cache_receiveBlock] keepsD[OF cache_onBlockResponse] keepsD[OF cache_receiveStatus]
      keepsD[OF cache_onGossipVote] keepsD[OF cache_onGossipAggregation])

lemma Networking_new_ok: "cache_ok z (Networking_new fc)"
  by (simp add: Networking_new_def cache_ok_def)

lemma net_reachable_ok: "net_reachable e nw \<Longrightarrow> cache_ok (env_ssz e) nw"
  by (induction rule: net_reachable.induct) (auto intro: Networking_new_ok net_step_ok)

subsection \<open>The search for the missing ancestor\<close>

lemma find_missing_ends:
  assumes "acyclicP (cached_child cache)" "distinct (map fst cache)"
    and "card {x \<in> fst ` set cache. cached_below cache x h} < fuel"
  shows "\<exists>m. find_missing fuel cache finalized h = Inr m"
  using assms(3)
proof (induction fuel arbitrary: h)
  case (Suc fuel)
  show ?case
  proof (cases "map_of cache h")
    case (Some item)
    let ?p = "blk_parent_root (sb_block (ci_block item))"
    let ?A = "\<lambda>h. {x \<in> fst ` set cache. cached_below cache x h}"
    have child: "cached_child cache ?p h" using Some by (auto simp: cached_child_def)
    then have "?A ?p \<subseteq> ?A h" by (auto intro: rtranclp.rtrancl_into_rtrancl)
    moreover have "h \<in> ?A h" using map_of_SomeD[OF Some] by force
    moreover have "h \<notin> ?A ?p"
    proof
      assume "h \<in> ?A ?p"
      then have "(cached_child cache)\<^sup>+\<^sup>+ h h" using child by (auto intro: rtranclp_into_tranclp1)
      then show False using assms(1) by (simp add: acyclic_def tranclp_unfold)
    qed
    ultimately have "?A ?p \<subset> ?A h" by blast
    then have "card (?A ?p) < card (?A h)" by (intro psubset_card_mono) auto
    then have "\<exists>m. find_missing fuel cache finalized ?p = Inr m" using Suc by (intro Suc.IH) auto
    then show ?thesis using Some by (simp add: Let_def)
  qed simp
qed simp

end
