(* ===== verification/SyncCaches.thy ===== *)
theory SyncCaches
  imports BlockSync TickProgress
begin

text \<open>
  Properties of the block synchronisation, with a run of it on the small store: blocks of
  slots three and four arrive before their ancestor of slot two.
\<close>

subsection \<open>A run\<close>

definition fd_sync_block :: "slot \<Rightarrow> SignedBlock" where
  "fd_sync_block s = \<lparr>sb_block = demo_block s [], sb_signature = \<lparr>bs_attestation_signatures = [], bs_proposer_signature = [1]\<rparr>\<rparr>"

definition fd_item :: "slot \<Rightarrow> hash \<times> BlockCacheItem" where
  "fd_item s = (1000 + s, \<lparr>ci_child_it = (1000 + (s - 1), 1000 + s), ci_block = fd_sync_block s\<rparr>)"

definition fd_net1 :: "InMemorySpacedStorage Networking" where
  "fd_net1 = (Networking_new fd_store)\<lparr>nw_block_cache := [fd_item 3], nw_block_children := [(1002, 1003)],
     nw_block_requested_at := [(1002, 5000)], nw_spawned_requests := [([7], 1002)]\<rparr>"

definition fd_net2 :: "InMemorySpacedStorage Networking" where
  "fd_net2 = fd_net1\<lparr>nw_block_cache := [fd_item 3, fd_item 4], nw_block_children := [(1002, 1003), (1003, 1004)]\<rparr>"

lemma fd_unknown: "tree_has fd_env h nw = Inr False"
  if "nw_fork_choice_store nw = fd_store" "h \<in> {1002, 1003, 1004}"
proof -
  have "find_node fd_tree h = None" using that(2) by (auto simp: find_node_def fd_tree_def)
  moreover have "hash_bytes h \<noteq> hash_bytes 1000" "hash_bytes h \<noteq> hash_bytes 1001"
    using that(2) by (auto simp: hash_bytes_eq_iff)
  ultimately show ?thesis
    using that(1) by (auto simp: tree_has_def BlockTree_has_def hasBlockHeader_def hasInSpace_def fd_run fd_storage_def fd_store_def)
qed

lemma fd_finalized: "nw_fork_choice_store nw = fd_store \<Longrightarrow> tree_lastFinalized nw = Inr \<lparr>bi_slot = 0, bi_hash = 1000\<rparr>"
  by (simp add: tree_lastFinalized_def fd_store_def)

lemma fd_sync_block_simps [simp]:
  "Block_hash fd_ssz (sb_block (fd_sync_block s)) = 1000 + s" "blk_slot (sb_block (fd_sync_block s)) = s"
  "blk_parent_root (sb_block (fd_sync_block s)) = 1000 + (s - 1)"
  by (simp_all add: fd_sync_block_def Block_hash_def demo_block_def getHeader_def)

lemmas fd_sync = receiveBlock_def request_from_def requestBlock_def cache_block_def Let_def TRY_def READ_def OK_def
  kRetryRequestBlock_def fd_item_def

lemma fd_receive_3:
  "receiveBlock fd_env 5000 (Some [7]) (fd_sync_block 3) (Networking_new fd_store) = (Inr (), fd_net1)"
  by (simp add: fd_sync fd_unknown fd_finalized Networking_new_def fd_net1_def)

lemma fd_receive_4: "receiveBlock fd_env 5001 (Some [7]) (fd_sync_block 4) fd_net1 = (Inr (), fd_net2)"
  by (simp add: fd_sync fd_unknown fd_finalized Networking_new_def fd_net1_def fd_net2_def)

lemma fd_net_reachable: "net_reachable fd_env fd_net1" "net_reachable fd_env fd_net2"
proof -
  show one: "net_reachable fd_env fd_net1"
    using net_more[OF net_init[of fd_env fd_store] net_block[OF fd_receive_3]] .
  show "net_reachable fd_env fd_net2" using net_more[OF one net_block[OF fd_receive_4]] .
qed

subsection \<open>Properties\<close>

text \<open>Importing a block fails with an exception only: error codes are logged.\<close>

lemma throws_on_store: "throws_only m \<Longrightarrow> throws_only (on_store m)"
  by (auto simp: throws_only_def on_store_def split: prod.splits)

lemma throws_import_pending: "throws_only (import_pending f xs)"
  by (induction xs) (auto simp: import_pending_def intro!: throws_intros throws_on_store)

lemma consume_block_exn: "throws_only (consume_block e good block as ags)"
  unfolding consume_block_def by (intro throws_intros throws_on_store throws_import_pending)

text \<open>
  C20. In every state the messages of peers can lead to, each cached block is stored once,
  under its own hash, and the index of children holds exactly one entry for each cached
  block, under the hash of its parent.
\<close>

theorem net_caches_consistent: "net_reachable e nw \<Longrightarrow> cache_ok (env_ssz e) nw"
  by (rule net_reachable_ok)

theorem net_caches_consistent_witness:
  "cache_ok fd_ssz fd_net2 \<and> map fst (nw_block_cache fd_net2) = [1003, 1004]"
  using net_caches_consistent[OF fd_net_reachable(2)] by (simp add: fd_net2_def fd_item_def)

text \<open>
  C21. The walk over cached blocks that starts at a cached block ends, never meets a block
  that is missing from the cache, and removes exactly that block and its cached
  descendants; if it fails, then because the import of a block raised an exception.  Without
  a consumer it does not fail.
\<close>

theorem consumeBlockTree_correct:
  assumes reach: "net_reachable e nw" and cached: "h \<in> fst ` set (nw_block_cache nw)"
    and consumer: "consumer = None \<or> consumer = Some (consume_block e)"
    and run: "consumeBlockTree good h consumer nw = (r, nw')"
  shows "case r of
      Inl err \<Rightarrow> consumer \<noteq> None \<and> is_exn err \<and> consumer_fails consumer err
    | Inr _ \<Rightarrow> nw_block_cache nw' = filter (\<lambda>p. \<not> cached_below (nw_block_cache nw) h (fst p)) (nw_block_cache nw)"
proof -
  have ok: "cache_ok (env_ssz e) nw" by (rule net_reachable_ok[OF reach])
  from consumer show ?thesis
  proof
    assume c: "consumer = None"
    have "\<not> consumer_fails (None :: 'a BlockConsumer option) err" for err
      by (simp add: consumer_fails_def call_consumer_def OK_def)
    then show ?thesis using forgetting.consume_exact[OF ok cached run[unfolded c]] c by (auto split: sum.splits)
  next
    assume c: "consumer = Some (consume_block e)"
    have "is_exn err" if "consumer_fails (Some (consume_block e)) err" for err
      using that unfolding consumer_fails_def call_consumer_def option.case
      by (elim exE) (rule consume_block_exn[unfolded throws_only_def, rule_format])
    then show ?thesis using importing.consume_exact[OF ok cached run[unfolded c]] c by (auto split: sum.splits)
  qed
qed

theorem consumeBlockTree_correct_witness:
  "consumeBlockTree False 1003 None fd_net2 = (Inr (), fd_net2\<lparr>nw_block_cache := [], nw_block_children := []\<rparr>) \<and>
   [] = filter (\<lambda>p. \<not> cached_below (nw_block_cache fd_net2) 1003 (fst p)) (nw_block_cache fd_net2)"
proof -
  have run: "consumeBlockTree False 1003 None fd_net2 = (Inr (), fd_net2\<lparr>nw_block_cache := [], nw_block_children := []\<rparr>)"
    by (simp add: consumeBlockTree_def fd_net2_def fd_net1_def Networking_new_def fd_item_def call_consumer_def TRY_def OK_def
        consumeMultimap_def erase_cached_def children_of_def)
  have "1003 \<in> fst ` set (nw_block_cache fd_net2)" by (simp add: fd_net2_def fd_item_def)
  from consumeBlockTree_correct[OF fd_net_reachable(2) this _ run] run show ?thesis by simp
qed

lemma child_entry_cached:
  assumes "cache_ok z nw" "(h, c) \<in> set (nw_block_children nw)"
  shows "c \<in> fst ` set (nw_block_cache nw)"
proof -
  have "set (nw_block_children nw) = (ci_child_it \<circ> snd) ` set (nw_block_cache nw)"
    using assms(1) unfolding cache_ok_def by (metis set_map set_mset_mset)
  with assms(2) obtain p where p: "p \<in> set (nw_block_cache nw)" "ci_child_it (snd p) = (h, c)" by auto
  then have "item_ok z p" using assms(1) unfolding cache_ok_def list_all_iff by blast
  with p(2) have "c = fst p" by (simp add: item_ok_def)
  with imageI[OF p(1), of fst] show ?thesis by (simp only:)
qed

text \<open>Forgetting a cached block always succeeds and erases its entry among the children of its parent.\<close>

lemma forgotten_entry_erased:
  assumes ok: "cache_ok z nw" and c: "c \<in> fst ` set (nw_block_cache nw)"
    and run: "consumeBlockTree good c None nw = (r, nw')"
  shows "r = Inr ()" "(h, c) \<notin> set (nw_block_children nw')"
proof -
  note exact = forgetting.consume_exact[OF ok c run]
  then show r: "r = Inr ()" by (cases r) (auto simp: consumer_fails_def call_consumer_def OK_def)
  with exact have "c \<notin> fst ` set (nw_block_cache nw')" by auto
  moreover have "cache_ok z nw'"
    using forgetting.keeps_consumeBlockTree[of z good c] ok run unfolding keeps_def by (metis snd_conv)
  ultimately show "(h, c) \<notin> set (nw_block_children nw')" using child_entry_cached by blast
qed

text \<open>
  C22. A block of a finalized slot that is neither cached nor in the tree, but has cached
  children, makes the loop that forgets the children increment an iterator whose entry was
  erased in its body: the first round consumes the child and with it the very entry of the
  children's multimap that the loop points to.
\<close>

theorem finalized_fork_undefined:
  assumes reach: "net_reachable e nw" and h: "h = Block_hash (env_ssz e) (sb_block sb)"
    and new: "map_of (nw_block_cache nw) h = None" "tree_has e h nw = Inr False"
    and old: "tree_lastFinalized nw = Inr finalized" "blk_slot (sb_block sb) \<le> bi_slot finalized"
    and child: "children_of h nw \<noteq> []"
  shows "fst (receiveBlock e now from_peer sb nw) = Inl (Exn UndefinedBehaviour)"
proof -
  have ok: "cache_ok (env_ssz e) nw" by (rule net_reachable_ok[OF reach])
  obtain c cs where c: "children_of h nw = c # cs" using child by (cases "children_of h nw") auto
  then have "cached_child (nw_block_cache nw) h c" using children_of_ok(1)[OF ok, of h] by auto
  then have "c \<in> fst ` set (nw_block_cache nw)"
    by (auto simp: cached_child_def dest!: map_of_SomeD intro: rev_image_eqI)
  moreover obtain r nw' where run: "consumeBlockTree False c None nw = (r, nw')" by fastforce
  ultimately have "r = Inr ()" "(h, c) \<notin> set (nw_block_children nw')"
    using forgotten_entry_erased[OF ok _ run] by blast+
  then show ?thesis
    using run c new old h by (simp add: receiveBlock_def Let_def TRY_def READ_def forget_children_def)
qed

definition fd_fork_env :: "InMemorySpacedStorage FcEnv" where
  "fd_fork_env = fd_env\<lparr>env_ssz := fd_ssz\<lparr>hash_header := \<lambda>h. 2000 + hdr_slot h\<rparr>\<rparr>"

definition fd_fork_child :: SignedBlock where
  "fd_fork_child = (fd_sync_block 3)\<lparr>sb_block := (demo_block 3 [])\<lparr>blk_parent_root := 2000\<rparr>\<rparr>"

theorem finalized_fork_undefined_witness:
  "fst (receiveBlock fd_fork_env 6000 None (fd_sync_block 0)
     (snd (receiveBlock fd_fork_env 5000 None fd_fork_child (Networking_new fd_store)))) = Inl (Exn UndefinedBehaviour)"
proof -
  let ?nw = "cache_block 2003 fd_fork_child (Networking_new fd_store)"
  have env: "Block_hash (env_ssz fd_fork_env) b = 2000 + blk_slot b" "env_db fd_fork_env = in_memory" for b
    by (simp_all add: fd_fork_env_def Block_hash_def getHeader_def)
  have tree: "tree_has fd_fork_env h nw = Inr False"
    if "nw_fork_choice_store nw = fd_store" "h \<in> {2000, 2003}" for h nw
  proof -
    have "find_node fd_tree h = None" using that(2) by (auto simp: find_node_def fd_tree_def)
    moreover have "hash_bytes h \<noteq> hash_bytes 1000" "hash_bytes h \<noteq> hash_bytes 1001"
      using that(2) by (auto simp: hash_bytes_eq_iff)
    ultimately show ?thesis using that(1)
      by (auto simp: tree_has_def BlockTree_has_def hasBlockHeader_def hasInSpace_def fd_run fd_storage_def fd_store_def env)
  qed
  have store: "nw_fork_choice_store (Networking_new fd_store) = fd_store" "nw_fork_choice_store ?nw = fd_store"
    by (simp_all add: Networking_new_def cache_block_def Let_def)
  have first: "receiveBlock fd_fork_env 5000 None fd_fork_child (Networking_new fd_store) = (Inr (), ?nw)"
    using tree store fd_finalized[OF store(1)]
    by (simp add: receiveBlock_def request_from_def Let_def TRY_def READ_def OK_def env fd_fork_child_def)
      (simp add: Networking_new_def)
  have "net_reachable fd_fork_env ?nw" by (rule net_more[OF net_init net_block[OF first]])
  from finalized_fork_undefined[OF this refl, of "fd_sync_block 0"] show ?thesis
    using first tree[of ?nw 2000] store fd_finalized[OF store(2)]
    by (simp add: env cache_block_def Let_def Networking_new_def children_of_def fd_fork_child_def)
qed

end
