(* ===== verification/PeerStates.thy ===== *)
theory PeerStates
  imports BlockSync
begin

text \<open>
  The connection states of the bootnodes in \<^verbatim>\<open>modules/networking/networking.cpp\<close>:
  which peers may be dialled, the exponential backoff after a failed dial, and the handlers
  of connection events.  Times are in milliseconds.  The random choice of the next peer
  is a parameter: a sequence of draws, each reduced to the size of the list.
\<close>

subsection \<open>State\<close>

datatype ConnectionState =
    Connectable nat
  | Connecting nat
  | Connected
  | Backoff nat nat

record PeerStates =
  ps_connectable_peers :: "PeerId list"
  ps_peer_states :: "(PeerId, ConnectionState) umap"
  ps_subnet_aggregators :: "PeerId list"
  ps_spawned_connects :: "PeerId list"

definition kInitBackoff :: nat where
  "kInitBackoff = 10 * 1000"

definition kMaxBackoff :: nat where
  "kMaxBackoff = 5 * 60 * 1000"

record BootnodeInfo =
  bn_peer_id :: PeerId
  bn_is_aggregator :: bool

subsection \<open>Start\<close>

text \<open>The subnet of the validators of the node; more than one is fatal.\<close>

definition own_subnets :: "validator_index list \<Rightarrow> nat \<Rightarrow> nat list result" where
  "own_subnets indices subnet_count =
     fold_result (\<lambda>i subnets. OUTCOME_TRY (validatorSubnet i subnet_count) (\<lambda>s. Inr (List.insert s subnets))) indices []"

definition subnet_id :: "nat list \<Rightarrow> nat result" where
  "subnet_id subnets = (case subnets of [s] \<Rightarrow> Inr s | _ \<Rightarrow> Inl (Exn FatalLog))"

fun add_bootnodes ::
  "PeerId \<Rightarrow> nat list \<Rightarrow> nat \<Rightarrow> (validator_index \<times> BootnodeInfo) list \<Rightarrow> PeerStates \<Rightarrow> PeerStates result" where
  "add_bootnodes own subnets subnet_count [] ps = Inr ps"
| "add_bootnodes own subnets subnet_count ((validator_index, bootnode) # rest) ps =
     (if bn_peer_id bootnode = own then add_bootnodes own subnets subnet_count rest ps
      else
        OUTCOME_TRY (if bn_is_aggregator bootnode
                     then OUTCOME_TRY (validatorSubnet validator_index subnet_count) (\<lambda>s. Inr (s \<in> set subnets))
                     else Inr False) (\<lambda>aggregator.
        let p = bn_peer_id bootnode;
            ps1 = (if aggregator then ps\<lparr>ps_subnet_aggregators := List.insert p (ps_subnet_aggregators ps)\<rparr>
                   else ps\<lparr>ps_connectable_peers := ps_connectable_peers ps @ [p]\<rparr>);
            ps2 = (if map_of (ps_peer_states ps1) p = None
                   then ps1\<lparr>ps_peer_states := ps_peer_states ps1 @ [(p, Connectable kInitBackoff)]\<rparr> else ps1)
        in add_bootnodes own subnets subnet_count rest ps2))"

definition start_peers ::
  "PeerId \<Rightarrow> nat list \<Rightarrow> nat \<Rightarrow> nat \<Rightarrow> BootnodeInfo list \<Rightarrow> PeerStates result" where
  "start_peers own subnets subnet_count validator_count bootnodes =
     add_bootnodes own subnets subnet_count (zip [0..<validator_count] bootnodes)
       \<lparr>ps_connectable_peers = [], ps_peer_states = [], ps_subnet_aggregators = [], ps_spawned_connects = []\<rparr>"

subsection \<open>Events of the host\<close>

definition set_state :: "PeerId \<Rightarrow> ConnectionState \<Rightarrow> PeerStates \<Rightarrow> PeerStates" where
  "set_state p s ps = ps\<lparr>ps_peer_states := AList.update p s (ps_peer_states ps)\<rparr>"

definition on_peer_connected :: "PeerId \<Rightarrow> (PeerStates, unit) action" where
  "on_peer_connected peer_id ps =
     (case map_of (ps_peer_states ps) peer_id of
        None \<Rightarrow> (Inr (), ps)
      | Some Connected \<Rightarrow> (Inr (), ps)
      | Some (Connectable _) \<Rightarrow>
          if peer_id \<notin> set (ps_connectable_peers ps) then (Inl (Exn LogicError), ps)
          else (Inr (), set_state peer_id Connected (ps\<lparr>ps_connectable_peers := remove1 peer_id (ps_connectable_peers ps)\<rparr>))
      | Some _ \<Rightarrow> (Inr (), set_state peer_id Connected ps))"

definition on_peer_disconnected :: "nat \<Rightarrow> PeerId \<Rightarrow> (PeerStates, unit) action" where
  "on_peer_disconnected now peer_id ps =
     (case map_of (ps_peer_states ps) peer_id of
        Some Connected \<Rightarrow> (Inr (), set_state peer_id (Backoff kInitBackoff (now + kInitBackoff)) ps)
      | _ \<Rightarrow> (Inr (), ps))"

text \<open>The end of a dial.\<close>

definition on_connect_finished :: "nat \<Rightarrow> PeerId \<Rightarrow> bool \<Rightarrow> (PeerStates, unit) action" where
  "on_connect_finished now peer_id success ps =
     (case map_of (ps_peer_states ps) peer_id of
        None \<Rightarrow> (Inl (Exn OutOfRange), ps)
      | Some state \<Rightarrow>
          if success then (Inr (), ps)
          else case state of
                 Connecting backoff \<Rightarrow>
                   (Inr (), set_state peer_id (Backoff (min (2 * backoff) kMaxBackoff) (now + backoff)) ps)
               | _ \<Rightarrow> (Inr (), ps))"

subsection \<open>Dialling\<close>

definition is_active :: "ConnectionState \<Rightarrow> bool" where
  "is_active s \<longleftrightarrow> (case s of Connecting _ \<Rightarrow> True | Connected \<Rightarrow> True | _ \<Rightarrow> False)"

definition is_connectable :: "ConnectionState \<Rightarrow> bool" where
  "is_connectable s \<longleftrightarrow> (case s of Connectable _ \<Rightarrow> True | _ \<Rightarrow> False)"

text \<open>The first loop: count the active peers and release those whose backoff is over.\<close>

definition release :: "nat \<Rightarrow> ConnectionState \<Rightarrow> ConnectionState" where
  "release now s = (case s of Backoff backoff until \<Rightarrow> if until \<le> now then Connectable backoff else s | _ \<Rightarrow> s)"

fun scan_peers ::
  "nat \<Rightarrow> PeerId list \<Rightarrow> (PeerId \<times> ConnectionState) list \<Rightarrow> (PeerId \<times> ConnectionState) list \<times> PeerId list \<times> nat" where
  "scan_peers now aggregators [] = ([], [], 0)"
| "scan_peers now aggregators ((p, s) # rest) =
     (let (states, released, active) = scan_peers now aggregators rest;
          s' = release now s
      in ((p, s') # states,
          (if s' \<noteq> s \<and> p \<notin> set aggregators then p # released else released),
          (if is_active s then Suc active else active)))"

definition connect :: "PeerId \<Rightarrow> (PeerStates, unit) action" where
  "connect p ps =
     (case map_of (ps_peer_states ps) p of
        None \<Rightarrow> (Inl (Exn OutOfRange), ps)
      | Some (Connectable backoff) \<Rightarrow>
          (Inr (), (set_state p (Connecting backoff) ps)\<lparr>ps_spawned_connects := ps_spawned_connects ps @ [p]\<rparr>)
      | Some _ \<Rightarrow> (Inl (Exn BadVariantAccess), ps))"

text \<open>The aggregators of the subnet first; the result is the number of dials.\<close>

fun connect_aggregators :: "PeerId list \<Rightarrow> (PeerStates, nat) action" where
  "connect_aggregators [] = OK 0"
| "connect_aggregators (p # rest) = (\<lambda>ps.
     case map_of (ps_peer_states ps) p of
       None \<Rightarrow> (Inl (Exn OutOfRange), ps)
     | Some s \<Rightarrow>
         if \<not> is_connectable s then connect_aggregators rest ps
         else TRY (connect p) (\<lambda>_. TRY (connect_aggregators rest) (\<lambda>n. OK (Suc n))) ps)"

text \<open>Then random peers, as many as are wanted; \<open>k\<close> counts the draws.\<close>

fun connect_random :: "nat \<Rightarrow> (nat \<Rightarrow> nat) \<Rightarrow> nat \<Rightarrow> (PeerStates, unit) action" where
  "connect_random 0 random k = OK ()"
| "connect_random (Suc missing) random k = (\<lambda>ps.
     let peers = ps_connectable_peers ps in
     if peers = [] then (Inr (), ps)
     else let i = random k mod length peers;
              p = peers ! i
          in TRY (connect p) (\<lambda>_. connect_random missing random (Suc k))
               (ps\<lparr>ps_connectable_peers := butlast (peers[i := last peers])\<rparr>))"

definition connectToPeers :: "nat \<Rightarrow> nat option \<Rightarrow> (nat \<Rightarrow> nat) \<Rightarrow> (PeerStates, unit) action" where
  "connectToPeers now maxBootnodes random ps =
     (let size = length (ps_peer_states ps);
          want = (case maxBootnodes of None \<Rightarrow> size | Some limit \<Rightarrow> min size limit);
          (states, released, active) = scan_peers now (ps_subnet_aggregators ps) (ps_peer_states ps);
          ps1 = ps\<lparr>ps_peer_states := states, ps_connectable_peers := ps_connectable_peers ps @ released\<rparr>
      in TRY (connect_aggregators (ps_subnet_aggregators ps)) (\<lambda>dialled.
         connect_random (want - (active + dialled)) random 0) ps1)"

subsection \<open>Names of the peers in the metrics\<close>

text \<open>The user agent of a peer in lower case, up to the version.\<close>

fun lower_until_slash :: "string \<Rightarrow> string" where
  "lower_until_slash [] = []"
| "lower_until_slash (ch # rest) =
     (if ch = CHR ''/'' then []
      else (if of_char ch \<ge> (65 :: nat) \<and> of_char ch \<le> (90 :: nat) then char_of (of_char ch + 32 :: nat) else ch)
             # lower_until_slash rest)"

definition client_kind :: "(PeerId, string) umap \<Rightarrow> (PeerId \<Rightarrow> string) \<Rightarrow> PeerId \<Rightarrow> string" where
  "client_kind peer_name user_agent p =
     (case map_of peer_name p of
        Some name \<Rightarrow> name
      | None \<Rightarrow> let ua = lower_until_slash (user_agent p) in if ua = [] then ''unknown'' else ua)"

definition updateMetricConnectedPeerCount ::
  "(PeerId, string) umap \<Rightarrow> (PeerId \<Rightarrow> string) \<Rightarrow> PeerId list \<Rightarrow> (string, nat) umap \<Rightarrow> (string, nat) umap" where
  "updateMetricConnectedPeerCount peer_name user_agent connected counts =
     fold (\<lambda>p m. let kind = client_kind peer_name user_agent p in
                 AList.update kind (Suc (case map_of m kind of None \<Rightarrow> 0 | Some n \<Rightarrow> n)) m)
       connected (map (\<lambda>(kind, _). (kind, 0)) counts)"

subsection \<open>Consistency of list and states\<close>

text \<open>The backoffs stay between the first one and the maximum.\<close>

definition backoff_ok :: "ConnectionState \<Rightarrow> bool" where
  "backoff_ok s \<longleftrightarrow> (case s of
       Connectable b \<Rightarrow> kInitBackoff \<le> b \<and> b \<le> kMaxBackoff
     | Connecting b \<Rightarrow> kInitBackoff \<le> b \<and> b \<le> kMaxBackoff
     | Connected \<Rightarrow> True
     | Backoff b _ \<Rightarrow> kInitBackoff \<le> b \<and> b \<le> kMaxBackoff)"

definition connectable :: "PeerStates \<Rightarrow> PeerId \<Rightarrow> bool" where
  "connectable ps p \<longleftrightarrow> (\<exists>b. map_of (ps_peer_states ps) p = Some (Connectable b))"

definition peers_ok :: "PeerStates \<Rightarrow> bool" where
  "peers_ok ps \<longleftrightarrow>
     distinct (map fst (ps_peer_states ps)) \<and> distinct (ps_connectable_peers ps) \<and> distinct (ps_subnet_aggregators ps) \<and>
     set (ps_subnet_aggregators ps) \<subseteq> fst ` set (ps_peer_states ps) \<and>
     set (ps_connectable_peers ps) = {p. connectable ps p \<and> p \<notin> set (ps_subnet_aggregators ps)} \<and>
     (\<forall>p s. map_of (ps_peer_states ps) p = Some s \<longrightarrow> backoff_ok s)"

lemma set_state_simps [simp]:
  "map_of (ps_peer_states (set_state p s ps)) = (map_of (ps_peer_states ps))(p \<mapsto> s)"
  "ps_connectable_peers (set_state p s ps) = ps_connectable_peers ps"
  "ps_subnet_aggregators (set_state p s ps) = ps_subnet_aggregators ps"
  by (simp_all add: set_state_def update_conv')

lemma keys_iff: "p \<in> fst ` set m \<longleftrightarrow> map_of m p \<noteq> None"
  by (simp add: map_of_eq_None_iff)

lemma distinct_set_state [simp]:
  "distinct (map fst (ps_peer_states (set_state p s ps))) \<longleftrightarrow> distinct (map fst (ps_peer_states ps))"
  by (auto simp: set_state_def update_keys distinct_update)

text \<open>A peer whose new state may not be dialled, taken off the list.\<close>

lemma set_state_ok:
  assumes ok: "peers_ok ps" and known: "map_of (ps_peer_states ps) p = Some s"
    and s': "\<not> is_connectable s'" "backoff_ok s'"
    and cs: "distinct cs" "set cs = set (ps_connectable_peers ps) - {p}"
  shows "peers_ok (set_state p s' (ps\<lparr>ps_connectable_peers := cs\<rparr>))"
proof -
  have c: "connectable (set_state p s' (ps\<lparr>ps_connectable_peers := cs\<rparr>)) q \<longleftrightarrow> connectable ps q \<and> q \<noteq> p" for q
    using s'(1) by (auto simp: connectable_def is_connectable_def)
  show ?thesis
    using ok known s'(2) cs unfolding peers_ok_def c keys_iff subset_iff
    by (auto simp: keys_iff subset_iff)
qed

lemma set_other_state_ok:
  assumes "peers_ok ps" "map_of (ps_peer_states ps) p = Some s" "\<not> is_connectable s" "\<not> is_connectable s'" "backoff_ok s'"
  shows "peers_ok (set_state p s' ps)"
proof -
  have "\<not> connectable ps p" using assms(2,3) unfolding connectable_def is_connectable_def by auto
  then have "p \<notin> set (ps_connectable_peers ps)" using assms(1) unfolding peers_ok_def by blast
  then show ?thesis using set_state_ok[OF assms(1,2,4,5), of "ps_connectable_peers ps"] assms(1)
    by (simp add: peers_ok_def)
qed

lemma keeps_on_peer_connected: "keeps peers_ok (on_peer_connected p)"
proof -
  have "peers_ok (set_state p Connected (ps\<lparr>ps_connectable_peers := remove1 p (ps_connectable_peers ps)\<rparr>))"
    if "peers_ok ps" "map_of (ps_peer_states ps) p = Some s" for ps s
    using that(1) by (intro set_state_ok[OF that]) (auto simp: is_connectable_def backoff_ok_def peers_ok_def)
  then show ?thesis
    by (auto simp: keeps_def on_peer_connected_def is_connectable_def backoff_ok_def
        intro: set_other_state_ok split: option.split ConnectionState.split)
qed

lemma keeps_on_peer_disconnected: "keeps peers_ok (on_peer_disconnected now p)"
  by (auto simp: keeps_def on_peer_disconnected_def is_connectable_def backoff_ok_def kInitBackoff_def kMaxBackoff_def
      intro: set_other_state_ok split: option.split ConnectionState.split)

lemma keeps_on_connect_finished: "keeps peers_ok (on_connect_finished now p success)"
proof -
  have "backoff_ok (Backoff (min (2 * b) kMaxBackoff) t)" if "peers_ok ps" "map_of (ps_peer_states ps) p = Some (Connecting b)" for b t ps
    using that by (force simp: peers_ok_def backoff_ok_def kInitBackoff_def kMaxBackoff_def)
  then show ?thesis
    by (auto simp: keeps_def on_connect_finished_def is_connectable_def
        intro!: set_other_state_ok split: option.split ConnectionState.split)
qed

subsection \<open>Dialling\<close>

definition active_count :: "(PeerId \<times> ConnectionState) list \<Rightarrow> nat" where
  "active_count m = length (filter (\<lambda>x. is_active (snd x)) m)"

lemma active_count_update:
  "distinct (map fst m) \<Longrightarrow> map_of m p = Some s \<Longrightarrow> \<not> is_active s \<Longrightarrow> is_active s' \<Longrightarrow>
   active_count (AList.update p s' m) = Suc (active_count m)"
proof (induction m)
  case (Cons x m)
  then show ?case
  proof (cases "fst x = p")
    case False
    then show ?thesis using Cons by (cases x) (auto simp: active_count_def)
  qed (cases x, auto simp: active_count_def)
qed simp

lemma scan_peers_eq:
  "scan_peers now aggs m =
     (map (\<lambda>(p, s). (p, release now s)) m, map fst (filter (\<lambda>(p, s). release now s \<noteq> s \<and> p \<notin> set aggs) m), active_count m)"
  by (induction m) (auto simp: active_count_def Let_def)

lemma release_cases:
  "release now s = s \<or> (\<exists>b t. s = Backoff b t \<and> t \<le> now \<and> release now s = Connectable b)"
  by (cases s) (auto simp: release_def)

lemma release_facts: "is_active (release now s) = is_active s" "backoff_ok s \<Longrightarrow> backoff_ok (release now s)"
  "is_connectable (release now s) \<longleftrightarrow> is_connectable s \<or> release now s \<noteq> s"
  using release_cases[of now s] by (auto simp: is_active_def backoff_ok_def is_connectable_def)

lemma connectable_iff: "connectable ps p \<longleftrightarrow> (\<exists>s. map_of (ps_peer_states ps) p = Some s \<and> is_connectable s)"
  by (auto simp: connectable_def is_connectable_def split: ConnectionState.splits) (metis ConnectionState.exhaust ConnectionState.simps)

lemma scan_ok:
  assumes ok: "peers_ok ps" and scan: "scan_peers now (ps_subnet_aggregators ps) (ps_peer_states ps) = (states, released, active)"
  defines "ps1 \<equiv> ps\<lparr>ps_peer_states := states, ps_connectable_peers := ps_connectable_peers ps @ released\<rparr>"
  shows "peers_ok ps1" "active = active_count states" "map_of states p = map_option (release now) (map_of (ps_peer_states ps) p)"
proof -
  let ?m = "ps_peer_states ps"
  have d: "distinct (map fst ?m)" using ok by (simp add: peers_ok_def)
  have states: "states = map (\<lambda>(p, s). (p, release now s)) ?m" and active: "active = active_count ?m"
    and released: "released = map fst (filter (\<lambda>(p, s). release now s \<noteq> s \<and> p \<notin> set (ps_subnet_aggregators ps)) ?m)"
    using scan by (auto simp: scan_peers_eq)
  show map: "map_of states p = map_option (release now) (map_of ?m p)" for p
    unfolding states map_of_map by simp
  show "active = active_count states"
    unfolding active states active_count_def by (simp add: filter_map comp_def case_prod_unfold release_facts)
  have rel: "p \<in> set released \<longleftrightarrow> (\<exists>s. map_of ?m p = Some s \<and> release now s \<noteq> s) \<and> p \<notin> set (ps_subnet_aggregators ps)" for p
    unfolding released using d by force
  have conn: "connectable ps1 p \<longleftrightarrow> connectable ps p \<or> (\<exists>s. map_of ?m p = Some s \<and> release now s \<noteq> s)" for p
    unfolding connectable_iff ps1_def by (auto simp: map release_facts)
  have "fst ` set states = fst ` set ?m" unfolding states by force
  moreover have "distinct (map fst states)" unfolding states using d by (simp add: comp_def case_prod_unfold)
  moreover have "\<not> connectable ps p" if "p \<in> set released" for p
    using that release_cases unfolding rel connectable_def by fastforce
  moreover have "distinct released" unfolding released using d by (simp add: distinct_map_filter)
  ultimately show "peers_ok ps1"
    using ok conn rel release_facts(2) unfolding peers_ok_def ps1_def by (auto simp: map)
qed

lemma peers_ok_spawned [simp]: "peers_ok (ps\<lparr>ps_spawned_connects := x\<rparr>) = peers_ok ps"
  by (simp add: peers_ok_def connectable_def)

text \<open>
  What a series of dials does: it starts them in the given order, and only the dialled peers,
  which were connectable before, change their state.
\<close>

definition dial :: "ConnectionState \<Rightarrow> ConnectionState" where
  "dial s = (case s of Connectable b \<Rightarrow> Connecting b | _ \<Rightarrow> s)"

definition dials :: "PeerId list \<Rightarrow> PeerStates \<Rightarrow> PeerStates \<Rightarrow> bool" where
  "dials ds ps ps' \<longleftrightarrow> distinct ds \<and> (\<forall>p \<in> set ds. connectable ps p) \<and>
     ps_spawned_connects ps' = ps_spawned_connects ps @ ds \<and> ps_subnet_aggregators ps' = ps_subnet_aggregators ps \<and>
     active_count (ps_peer_states ps') = active_count (ps_peer_states ps) + length ds \<and>
     (\<forall>q. map_of (ps_peer_states ps') q = map_option (if q \<in> set ds then dial else id) (map_of (ps_peer_states ps) q))"

lemma dials_connectable: "dials ds ps ps' \<Longrightarrow> connectable ps' q \<longleftrightarrow> connectable ps q \<and> q \<notin> set ds"
  by (auto simp: dials_def connectable_def dial_def split: ConnectionState.splits)

lemma dials_Nil: "dials [] ps ps"
  by (simp add: dials_def option.map_id)

lemma dials_trans:
  assumes "dials ds ps ps1" "dials es ps1 ps2"
  shows "dials (ds @ es) ps ps2"
proof -
  have "q \<notin> set ds \<and> connectable ps q" if "q \<in> set es" for q
    using that assms(2) dials_connectable[OF assms(1)] by (auto simp: dials_def)
  then show ?thesis
    using assms unfolding dials_def by (auto simp: option.map_comp comp_def id_def split: if_splits)
qed

text \<open>One dial of a peer that is taken off the list.\<close>

lemma connect_step:
  assumes ok: "peers_ok ps" and p: "connectable ps p" and cs: "distinct cs" "set cs = set (ps_connectable_peers ps) - {p}"
  obtains ps' where "connect p (ps\<lparr>ps_connectable_peers := cs\<rparr>) = (Inr (), ps')" "peers_ok ps'"
    "dials [p] ps ps'" "ps_connectable_peers ps' = cs"
proof -
  obtain b where b: "map_of (ps_peer_states ps) p = Some (Connectable b)" using p by (auto simp: connectable_def)
  define ps' where "ps' = (set_state p (Connecting b) (ps\<lparr>ps_connectable_peers := cs\<rparr>))
    \<lparr>ps_spawned_connects := ps_spawned_connects ps @ [p]\<rparr>"
  have "backoff_ok (Connectable b)" using ok b unfolding peers_ok_def by blast
  then have "backoff_ok (Connecting b)" by (simp add: backoff_ok_def)
  then have "peers_ok ps'" using set_state_ok[OF ok b _ _ cs] by (simp add: ps'_def is_connectable_def)
  moreover have "connect p (ps\<lparr>ps_connectable_peers := cs\<rparr>) = (Inr (), ps')" using b by (simp add: connect_def ps'_def)
  moreover have "active_count (ps_peer_states ps') = Suc (active_count (ps_peer_states ps))"
    using active_count_update[OF _ b, of "Connecting b"] ok
    by (simp add: ps'_def set_state_def is_active_def peers_ok_def)
  then have "dials [p] ps ps'"
    using p b by (auto simp: dials_def ps'_def set_state_def update_conv' dial_def option.map_id)
  ultimately show ?thesis by (intro that[of ps']) (auto simp: ps'_def set_state_def)
qed

lemma connect_aggregators_run:
  assumes "peers_ok ps" "set as \<subseteq> set (ps_subnet_aggregators ps)" "distinct as"
  shows "\<exists>ps'. connect_aggregators as ps = (Inr (length (filter (connectable ps) as)), ps') \<and> peers_ok ps' \<and>
    dials (filter (connectable ps) as) ps ps' \<and> ps_connectable_peers ps' = ps_connectable_peers ps"
  using assms
proof (induction as arbitrary: ps)
  case Nil
  then show ?case by (simp add: OK_def dials_Nil)
next
  case (Cons p as)
  then have agg: "p \<in> set (ps_subnet_aggregators ps)" by simp
  with Cons.prems(1) obtain s where s: "map_of (ps_peer_states ps) p = Some s"
    unfolding peers_ok_def keys_iff subset_iff by auto
  show ?case
  proof (cases "is_connectable s")
    case False
    moreover have "\<not> connectable ps p" using s False by (simp add: connectable_iff)
    ultimately show ?thesis using Cons.IH[of ps] Cons.prems s by auto
  next
    case True
    then have c: "connectable ps p" using s by (auto simp: connectable_iff)
    have "p \<notin> set (ps_connectable_peers ps)" "distinct (ps_connectable_peers ps)"
      using Cons.prems(1) agg unfolding peers_ok_def by blast+
    with connect_step[OF Cons.prems(1) c, of "ps_connectable_peers ps"] obtain ps1 where
      one: "connect p ps = (Inr (), ps1)" "peers_ok ps1" "dials [p] ps ps1" "ps_connectable_peers ps1 = ps_connectable_peers ps"
      by auto
    have same: "filter (connectable ps1) as = filter (connectable ps) as"
      using Cons.prems(3) dials_connectable[OF one(3)] by (auto intro!: filter_cong)
    have "ps_subnet_aggregators ps1 = ps_subnet_aggregators ps" using one(3) by (simp add: dials_def)
    with Cons.IH[OF one(2)] Cons.prems(2,3) same obtain ps' where
      r: "connect_aggregators as ps1 = (Inr (length (filter (connectable ps) as)), ps')" "peers_ok ps'"
        "dials (filter (connectable ps) as) ps1 ps'" "ps_connectable_peers ps' = ps_connectable_peers ps1" by auto
    show ?thesis using r one s True c dials_trans[OF one(3) r(3)] by (simp add: TRY_def OK_def)
  qed
qed

lemma mset_swap_pop:
  assumes "i < length xs"
  shows "mset (butlast (xs[i := last xs])) = mset xs - {#xs ! i#}"
proof (cases xs rule: rev_cases)
  case (snoc ys l)
  show ?thesis
  proof (cases "i < length ys")
    case True
    then show ?thesis using snoc by (simp add: list_update_append mset_update nth_append)
  next
    case False
    then have "i = length ys" using snoc assms by simp
    then show ?thesis using snoc by (simp add: list_update_append)
  qed
qed (use assms in simp)

lemma swap_pop:
  assumes "i < length xs" "distinct xs"
  shows "distinct (butlast (xs[i := last xs]))" "set (butlast (xs[i := last xs])) = set xs - {xs ! i}"
proof -
  have m: "mset (butlast (xs[i := last xs])) = mset (remove1 (xs ! i) xs)" using mset_swap_pop[OF assms(1)] by simp
  show "distinct (butlast (xs[i := last xs]))" using m assms(2) by (metis distinct_remove1 mset_eq_imp_distinct_iff)
  show "set (butlast (xs[i := last xs])) = set xs - {xs ! i}" using m assms(2) by (metis set_mset_mset set_remove1_eq)
qed

lemma connect_random_run:
  assumes "peers_ok ps"
  shows "\<exists>ds ps'. connect_random n random k ps = (Inr (), ps') \<and> peers_ok ps' \<and> dials ds ps ps' \<and>
    set ds \<subseteq> set (ps_connectable_peers ps) \<and> length ds = min n (length (ps_connectable_peers ps))"
  using assms
proof (induction n arbitrary: k ps)
  case 0
  then show ?case using dials_Nil by (auto simp: OK_def)
next
  case (Suc n)
  let ?xs = "ps_connectable_peers ps"
  show ?case
  proof (cases "?xs = []")
    case True
    with Suc.prems dials_Nil show ?thesis by auto
  next
    case False
    let ?i = "random k mod length ?xs"
    let ?cs = "butlast (?xs[?i := last ?xs])"
    have i: "?i < length ?xs" using False by simp
    then have mem: "?xs ! ?i \<in> set ?xs" by simp
    then have c: "connectable ps (?xs ! ?i)" "distinct ?xs" using Suc.prems unfolding peers_ok_def by blast+
    from connect_step[OF Suc.prems c(1) swap_pop[OF i c(2)]] obtain ps1 where
      one: "connect (?xs ! ?i) (ps\<lparr>ps_connectable_peers := ?cs\<rparr>) = (Inr (), ps1)" "peers_ok ps1"
        "dials [?xs ! ?i] ps ps1" "ps_connectable_peers ps1 = ?cs" by metis
    from Suc.IH[OF one(2), of "Suc k"] obtain ds ps' where
      r: "connect_random n random (Suc k) ps1 = (Inr (), ps')" "peers_ok ps'" "dials ds ps1 ps'"
        "set ds \<subseteq> set ?cs" "length ds = min n (length ?cs)" unfolding one(4) by blast
    have "connect_random (Suc n) random k ps = (Inr (), ps')" using one(1) r(1) False by (simp add: TRY_def Let_def)
    moreover have "set ((?xs ! ?i) # ds) \<subseteq> set ?xs" using r(4) swap_pop(2)[OF i c(2)] mem by auto
    moreover have "length ((?xs ! ?i) # ds) = min (Suc n) (length ?xs)" using r(5) False by (cases "length ?xs") auto
    ultimately show ?thesis using r(2) dials_trans[OF one(3) r(3)] by fastforce
  qed
qed

subsection \<open>Reachable states\<close>

lemma add_bootnodes_ok:
  assumes "add_bootnodes own subnets n nodes ps = Inr ps'" "peers_ok ps"
    and "distinct (map (bn_peer_id \<circ> snd) nodes)" "\<forall>x \<in> set nodes. map_of (ps_peer_states ps) (bn_peer_id (snd x)) = None"
  shows "peers_ok ps'"
  using assms
proof (induction nodes arbitrary: ps)
  case (Cons x nodes)
  obtain i b where x: "x = (i, b)" by fastforce
  let ?p = "bn_peer_id b"
  show ?case
  proof (cases "?p = own")
    case True
    with Cons x show ?thesis by simp
  next
    case False
    have new: "map_of (ps_peer_states ps) ?p = None" using Cons.prems(4) x by simp
    define add where "add aggregator = (if aggregator then ps\<lparr>ps_subnet_aggregators := List.insert ?p (ps_subnet_aggregators ps)\<rparr>
        else ps\<lparr>ps_connectable_peers := ps_connectable_peers ps @ [?p]\<rparr>)
        \<lparr>ps_peer_states := ps_peer_states ps @ [(?p, Connectable kInitBackoff)]\<rparr>" for aggregator
    have "add_bootnodes own subnets n nodes (add True) = Inr ps' \<or> add_bootnodes own subnets n nodes (add False) = Inr ps'"
      using Cons.prems(1) x False new by (auto simp: add_def Let_def OUTCOME_TRY_eq_Inr split: if_splits)
    then obtain aggregator where run: "add_bootnodes own subnets n nodes (add aggregator) = Inr ps'" by blast
    have m: "map_of (ps_peer_states (add a)) = (map_of (ps_peer_states ps))(?p \<mapsto> Connectable kInitBackoff)" for a
      using new by (auto simp: add_def map_add_def fun_eq_iff split: option.split)
    have out: "?p \<notin> set (ps_subnet_aggregators ps)" "?p \<notin> set (ps_connectable_peers ps)"
      using Cons.prems(2) new unfolding peers_ok_def keys_iff connectable_def subset_iff by auto
    have conn: "connectable (add a) q \<longleftrightarrow> connectable ps q \<or> q = ?p" for a q by (auto simp: connectable_def m)
    have "peers_ok (add a)" for a
    proof -
      have "fst ` set (ps_peer_states (add a)) = insert ?p (fst ` set (ps_peer_states ps))" by (auto simp: add_def)
      moreover have "distinct (map fst (ps_peer_states (add a)))"
        using Cons.prems(2) new by (auto simp: add_def peers_ok_def map_of_eq_None_iff)
      moreover have "backoff_ok (Connectable kInitBackoff)" by (simp add: backoff_ok_def kInitBackoff_def kMaxBackoff_def)
      ultimately show ?thesis using Cons.prems(2) out new unfolding peers_ok_def conn m
        by (auto simp: add_def connectable_def)
    qed
    moreover have "\<forall>x \<in> set nodes. map_of (ps_peer_states (add aggregator)) (bn_peer_id (snd x)) = None"
      using Cons.prems(3,4) x unfolding m by (auto simp: image_iff)
    ultimately show ?thesis using Cons.IH[OF run] Cons.prems(3) by simp
  qed
qed simp

lemma start_peers_ok:
  assumes "start_peers own subnets n vcount bootnodes = Inr ps" "distinct (map bn_peer_id bootnodes)"
  shows "peers_ok ps"
proof -
  have "map (bn_peer_id \<circ> snd) (zip [0..<vcount] bootnodes) = take vcount (map bn_peer_id bootnodes)"
    unfolding map_map[symmetric] map_snd_zip_take take_map by (cases "vcount \<le> length bootnodes") simp_all
  then have "distinct (map (bn_peer_id \<circ> snd) (zip [0..<vcount] bootnodes))" using assms(2) by simp
  then show ?thesis
    by (intro add_bootnodes_ok[OF assms(1)[unfolded start_peers_def]]) (simp_all add: peers_ok_def connectable_def)
qed

text \<open>The timer and the events of the host, in any order; the bootnodes have different identities.\<close>

inductive peers_step :: "PeerStates \<Rightarrow> PeerStates \<Rightarrow> bool" for ps where
  peers_timer: "connectToPeers now limit random ps = (r, ps') \<Longrightarrow> peers_step ps ps'"
| peers_connected: "on_peer_connected p ps = (r, ps') \<Longrightarrow> peers_step ps ps'"
| peers_disconnected: "on_peer_disconnected now p ps = (r, ps') \<Longrightarrow> peers_step ps ps'"
| peers_dialled: "on_connect_finished now p success ps = (r, ps') \<Longrightarrow> peers_step ps ps'"

inductive peers_reachable :: "PeerStates \<Rightarrow> bool" where
  peers_start: "start_peers own subnets n vcount bootnodes = Inr ps \<Longrightarrow> distinct (map bn_peer_id bootnodes) \<Longrightarrow> peers_reachable ps"
| peers_more: "peers_reachable ps \<Longrightarrow> peers_step ps ps' \<Longrightarrow> peers_reachable ps'"

text \<open>
  What the timer promises: the peers it may dial, the number of active peers it aims at, and
  the state of a peer afterwards.
\<close>

definition dialable :: "nat \<Rightarrow> PeerStates \<Rightarrow> PeerId \<Rightarrow> bool" where
  "dialable now ps p \<longleftrightarrow> (case map_of (ps_peer_states ps) p of
       Some (Connectable b) \<Rightarrow> True | Some (Backoff b t) \<Rightarrow> t \<le> now | _ \<Rightarrow> False)"

definition wanted_peers :: "nat option \<Rightarrow> PeerStates \<Rightarrow> nat" where
  "wanted_peers limit ps =
     (case limit of None \<Rightarrow> length (ps_peer_states ps) | Some l \<Rightarrow> min (length (ps_peer_states ps)) l)"

definition after_timer :: "nat \<Rightarrow> bool \<Rightarrow> ConnectionState \<Rightarrow> ConnectionState" where
  "after_timer now dialled s = (case s of
       Connectable b \<Rightarrow> if dialled then Connecting b else Connectable b
     | Backoff b t \<Rightarrow> if now < t then Backoff b t else if dialled then Connecting b else Connectable b
     | _ \<Rightarrow> s)"

lemma after_timer_eq: "after_timer now d s = (if d then dial else id) (release now s)"
  by (cases s) (auto simp: after_timer_def dial_def release_def)

lemma dialable_eq:
  assumes "map_of (ps_peer_states ps1) p = map_option (release now) (map_of (ps_peer_states ps) p)"
  shows "connectable ps1 p \<longleftrightarrow> dialable now ps p"
  using assms by (auto simp: connectable_def dialable_def release_def split: option.splits ConnectionState.splits)

lemma connectToPeers_run:
  fixes limit :: "nat option" and ps :: PeerStates and now :: nat
  assumes ok: "peers_ok ps"
  defines "aggregators \<equiv> filter (dialable now ps) (ps_subnet_aggregators ps)"
  shows "\<exists>ps' others. connectToPeers now limit random ps = (Inr (), ps') \<and> peers_ok ps' \<and>
    ps_spawned_connects ps' = ps_spawned_connects ps @ aggregators @ others \<and> distinct others \<and>
    set others \<subseteq> {p. dialable now ps p \<and> p \<notin> set (ps_subnet_aggregators ps)} \<and>
    length others = min (wanted_peers limit ps - (active_count (ps_peer_states ps) + length aggregators))
      (card {p. dialable now ps p \<and> p \<notin> set (ps_subnet_aggregators ps)}) \<and>
    (\<forall>p. map_of (ps_peer_states ps') p =
       map_option (after_timer now (p \<in> set (aggregators @ others))) (map_of (ps_peer_states ps) p)) \<and>
    active_count (ps_peer_states ps') = active_count (ps_peer_states ps) + length aggregators + length others"
proof -
  let ?own = "ps_subnet_aggregators ps" and ?n = "wanted_peers limit ps - (active_count (ps_peer_states ps) + length aggregators)"
  obtain states released active where scan:
    "scan_peers now ?own (ps_peer_states ps) = (states, released, active)" by (metis prod_cases3)
  define ps1 where "ps1 = ps\<lparr>ps_peer_states := states, ps_connectable_peers := ps_connectable_peers ps @ released\<rparr>"
  note s = scan_ok[OF ok scan, folded ps1_def]
  have active: "active = active_count (ps_peer_states ps)" using scan by (simp add: scan_peers_eq)
  have dialable: "connectable ps1 p \<longleftrightarrow> dialable now ps p" for p
    using s(3) by (intro dialable_eq) (simp add: ps1_def)
  have "distinct ?own" using ok by (simp add: peers_ok_def)
  with connect_aggregators_run[OF s(1), of ?own] obtain ps2 where
    two: "connect_aggregators ?own ps1 = (Inr (length aggregators), ps2)" "peers_ok ps2" "dials aggregators ps1 ps2"
      "ps_connectable_peers ps2 = ps_connectable_peers ps1"
    by (auto simp: ps1_def[symmetric] dialable[abs_def] aggregators_def) (auto simp: ps1_def)
  from connect_random_run[OF two(2)] obtain others ps3 where
    three: "connect_random ?n random 0 ps2 = (Inr (), ps3)" "peers_ok ps3" "dials others ps2 ps3"
      "set others \<subseteq> set (ps_connectable_peers ps1)" "length others = min ?n (length (ps_connectable_peers ps1))"
    unfolding two(4) by blast
  have run: "connectToPeers now limit random ps = (Inr (), ps3)"
    using two(1) three(1) scan by (simp add: connectToPeers_def Let_def TRY_def ps1_def wanted_peers_def active)
  have list: "set (ps_connectable_peers ps1) = {p. dialable now ps p \<and> p \<notin> set ?own}" "distinct (ps_connectable_peers ps1)"
    using s(1) dialable unfolding peers_ok_def by (auto simp: ps1_def)
  have all: "dials (aggregators @ others) ps1 ps3" by (rule dials_trans[OF two(3) three(3)])
  then have "map_of (ps_peer_states ps3) p =
      map_option (after_timer now (p \<in> set (aggregators @ others))) (map_of (ps_peer_states ps) p)" for p
    using s(3)[of p] by (simp add: dials_def ps1_def option.map_comp comp_def after_timer_eq[abs_def])
  moreover have "ps_spawned_connects ps3 = ps_spawned_connects ps @ aggregators @ others"
    "active_count (ps_peer_states ps3) = active_count (ps_peer_states ps) + length aggregators + length others"
    "distinct others"
    using all s(2) active by (simp_all add: dials_def ps1_def)
  ultimately show ?thesis
    using run three(2,4,5) list distinct_card[OF list(2)] by auto
qed

lemma peers_step_ok: "peers_step ps ps' \<Longrightarrow> peers_ok ps \<Longrightarrow> peers_ok ps'"
proof (induction rule: peers_step.induct)
  case (peers_timer now limit random r ps')
  with connectToPeers_run[of ps now limit random] show ?case by auto
qed (auto dest: keepsD[OF keeps_on_peer_connected] keepsD[OF keeps_on_peer_disconnected] keepsD[OF keeps_on_connect_finished])

lemma peers_reachable_ok: "peers_reachable ps \<Longrightarrow> peers_ok ps"
  by (induction rule: peers_reachable.induct) (auto intro: start_peers_ok peers_step_ok)

subsection \<open>Properties\<close>

definition demo_bootnodes :: "BootnodeInfo list" where
  "demo_bootnodes = [\<lparr>bn_peer_id = [0], bn_is_aggregator = False\<rparr>, \<lparr>bn_peer_id = [1], bn_is_aggregator = True\<rparr>,
     \<lparr>bn_peer_id = [2], bn_is_aggregator = False\<rparr>]"

definition demo_peers :: PeerStates where
  "demo_peers = \<lparr>ps_connectable_peers = [[2]], ps_peer_states = [([1], Connectable 10000), ([2], Connectable 10000)],
     ps_subnet_aggregators = [[1]], ps_spawned_connects = []\<rparr>"

lemma demo_peers_reachable: "peers_reachable demo_peers"
proof (rule peers_start)
  show "start_peers [0] [0] 1 3 demo_bootnodes = Inr demo_peers"
    by (simp add: start_peers_def demo_bootnodes_def demo_peers_def upt_rec validatorSubnet_def kInitBackoff_def Let_def)
qed (simp add: demo_bootnodes_def)

text \<open>
  C23. In every reachable state of the connection manager the timer runs without an exception
  and keeps list and states consistent and all backoffs within their bounds.  The dials it
  starts are, after those started earlier, the aggregators of the subnet that may be dialled,
  in their order, and then distinct other peers that may be dialled: as many as are missing to
  the number of peers wanted, which the limit of the configuration caps, or all of them.
  A peer may be dialled when it is connectable or its backoff is over; exactly the dialled
  peers are being connected afterwards, with their backoffs, and the peers whose backoff is
  over and that were not dialled are connectable again.
\<close>

theorem connectToPeers_correct:
  assumes "peers_reachable ps"
  shows "\<exists>ps' aggregators others. connectToPeers now limit random ps = (Inr (), ps') \<and> peers_ok ps' \<and>
    ps_spawned_connects ps' = ps_spawned_connects ps @ aggregators @ others \<and>
    aggregators = filter (dialable now ps) (ps_subnet_aggregators ps) \<and> distinct others \<and>
    set others \<subseteq> {p. dialable now ps p \<and> p \<notin> set (ps_subnet_aggregators ps)} \<and>
    length others = min (wanted_peers limit ps - (active_count (ps_peer_states ps) + length aggregators))
      (card {p. dialable now ps p \<and> p \<notin> set (ps_subnet_aggregators ps)}) \<and>
    (\<forall>p. map_of (ps_peer_states ps') p =
       map_option (after_timer now (p \<in> set (aggregators @ others))) (map_of (ps_peer_states ps) p)) \<and>
    active_count (ps_peer_states ps') = active_count (ps_peer_states ps) + length aggregators + length others"
  using connectToPeers_run[OF peers_reachable_ok[OF assms], of now limit random] by blast

theorem connectToPeers_correct_witness:
  "\<exists>ps' others. connectToPeers 0 (Some 1) (\<lambda>_. 0) demo_peers = (Inr (), ps') \<and> ps_connectable_peers ps' = [[2]] \<and>
     ps_peer_states ps' = [([1], Connecting 10000), ([2], Connectable 10000)] \<and> peers_ok ps' \<and>
     ps_spawned_connects ps' = [[1]] @ others \<and> length others = 0"
proof -
  have "filter (dialable 0 demo_peers) (ps_subnet_aggregators demo_peers) = [[1]]"
    "wanted_peers (Some 1) demo_peers = 1" "ps_spawned_connects demo_peers = []"
    by (simp_all add: demo_peers_def dialable_def wanted_peers_def)
  with connectToPeers_correct[OF demo_peers_reachable, of 0 "Some 1" "\<lambda>_. 0"] obtain ps' others where
    r: "connectToPeers 0 (Some 1) (\<lambda>_. 0) demo_peers = (Inr (), ps')" "peers_ok ps'"
      "ps_spawned_connects ps' = [[1]] @ others" "length others = 0" by auto
  moreover have "ps_connectable_peers ps' = [[2]] \<and> ps_peer_states ps' = [([1], Connecting 10000), ([2], Connectable 10000)]"
    using r(1) by (auto simp: connectToPeers_def demo_peers_def is_active_def release_def is_connectable_def connect_def
        set_state_def TRY_def OK_def)
  ultimately show ?thesis by blast
qed

text \<open>
  A connection that the peer opens raises \<^verbatim>\<open>std::logic_error\<close> exactly if
  the peer is an aggregator of the subnet that has not been dialled yet: such peers are kept
  out of the list the handler searches.
\<close>

theorem on_peer_connected_throws:
  assumes "peers_reachable ps"
  shows "fst (on_peer_connected p ps) = Inl (Exn LogicError) \<longleftrightarrow> p \<in> set (ps_subnet_aggregators ps) \<and> connectable ps p"
proof -
  have "p \<in> set (ps_connectable_peers ps) \<longleftrightarrow> connectable ps p \<and> p \<notin> set (ps_subnet_aggregators ps)"
    using peers_reachable_ok[OF assms] unfolding peers_ok_def by blast
  then show ?thesis
    unfolding on_peer_connected_def connectable_def
    by (cases "map_of (ps_peer_states ps) p") (simp, rename_tac s, case_tac s, simp_all)
qed

theorem on_peer_connected_throws_witness: "fst (on_peer_connected [1] demo_peers) = Inl (Exn LogicError)"
  using on_peer_connected_throws[OF demo_peers_reachable, of "[1]"] by (simp add: demo_peers_def connectable_def)

end
