(* ===== verification/Rlp.thy ===== *)
theory Rlp
  imports Storage
begin

text \<open>
  The recursive length prefix encoding of \<^verbatim>\<open>serde/enr.cpp\<close>, namespace
  \<^verbatim>\<open>rlp\<close>: the decoder as actions on the rest of the input, the encoder as
  functions to bytes, and the round trips between them.
\<close>

subsection \<open>Decoder\<close>

definition kMaxPrefix1 :: nat where
  "kMaxPrefix1 = 55"

definition kBytesPrefix1 :: nat where
  "kBytesPrefix1 = 0x80"

definition kListPrefix1 :: nat where
  "kListPrefix1 = 0xc0"

definition rlp_take :: "nat \<Rightarrow> (bytes, bytes) action" where
  "rlp_take n input =
     (if n > length input then (Inl (E_RLP INVALID_RLP), input) else (Inr (take n input), drop n input))"

text \<open>A big-endian number of a type with \<open>digits\<close> bits.\<close>

definition rlp_uint_be :: "nat \<Rightarrow> bytes \<Rightarrow> nat result" where
  "rlp_uint_be digits be =
     (if length be * 8 > digits then Inl (E_RLP INT_OVERFLOW)
      else Inr (fold (\<lambda>x v. (v * 256 + unat x) mod 2 ^ digits) be 0))"

definition rlp_bytesInternal :: "nat \<Rightarrow> (bytes, bytes) action" where
  "rlp_bytesInternal base1 input =
     (case input of
        [] \<Rightarrow> (Inl (Exn UndefinedBehaviour), input)
      | first # _ \<Rightarrow>
          let base2 = base1 + kMaxPrefix1 in
          if base1 > unat first then (Inl (E_RLP INVALID_RLP), input)
          else if unat first \<le> base2
          then TRY (rlp_take 1) (\<lambda>_. rlp_take (unat first - base1)) input
          else TRY (rlp_take 1) (\<lambda>_.
               TRY (rlp_take (unat first - base2)) (\<lambda>n2_raw.
               TRY (LIFT (rlp_uint_be 64 n2_raw)) (\<lambda>n2.
               rlp_take n2))) input)"

definition rlp_is_list :: "bytes \<Rightarrow> bool" where
  "rlp_is_list input = (case input of [] \<Rightarrow> False | first # _ \<Rightarrow> kListPrefix1 \<le> unat first)"

definition rlp_list :: "(bytes, bytes) action" where
  "rlp_list input = (if input = [] then (Inl (E_RLP INVALID_RLP), input) else rlp_bytesInternal kListPrefix1 input)"

definition rlp_bytes :: "(bytes, bytes) action" where
  "rlp_bytes input =
     (case input of
        [] \<Rightarrow> (Inl (E_RLP INVALID_RLP), input)
      | first # _ \<Rightarrow>
          if unat first \<ge> kListPrefix1 then (Inl (E_RLP INVALID_RLP), input)
          else if unat first < kBytesPrefix1 then rlp_take 1 input
          else rlp_bytesInternal kBytesPrefix1 input)"

definition rlp_bytes_n :: "nat \<Rightarrow> (bytes, bytes) action" where
  "rlp_bytes_n n = TRY rlp_bytes (\<lambda>raw. if length raw \<noteq> n then FAIL (E_RLP INVALID_RLP) else OK raw)"

definition rlp_str :: "(bytes, bytes) action" where
  "rlp_str = rlp_bytes"

definition rlp_uint :: "nat \<Rightarrow> (bytes, nat) action" where
  "rlp_uint digits = TRY rlp_bytes (\<lambda>be. LIFT (rlp_uint_be digits be))"

definition rlp_readBool :: "(bytes, bool) action" where
  "rlp_readBool =
     TRY (rlp_uint 8) (\<lambda>byte.
     if byte = 0 then OK False else if byte = 1 then OK True else FAIL (E_RLP INT_OVERFLOW))"

definition rlp_skip :: "(bytes, unit) action" where
  "rlp_skip input =
     (if rlp_is_list input then TRY rlp_list (\<lambda>_. OK ()) input else TRY rlp_bytes (\<lambda>_. OK ()) input)"

text \<open>The pairs of keys and undecoded values; a key that comes again is ignored.\<close>

fun rlp_pairs :: "nat \<Rightarrow> (bytes, bytes) umap \<Rightarrow> (bytes, (bytes, bytes) umap) action" where
  "rlp_pairs fuel kv [] = (Inr kv, [])"
| "rlp_pairs 0 kv (x # input) = (Inl (Exn Diverges), x # input)"
| "rlp_pairs (Suc fuel) kv (x # input) =
     TRY rlp_str (\<lambda>key value.
       if value = [] then (Inl (E_RLP INVALID_KEY_VALUE), value)
       else TRY rlp_skip (\<lambda>_ rest.
              let item = take (length value - length rest) value in
              rlp_pairs fuel (if map_of kv key = None then kv @ [(key, item)] else kv) rest) value) (x # input)"

definition rlp_keyValue :: "(bytes, (bytes, bytes) umap) action" where
  "rlp_keyValue input = rlp_pairs (length input) [] input"

subsection \<open>Encoder\<close>

fun bit_width :: "nat \<Rightarrow> nat" where
  "bit_width v = (if v = 0 then 0 else Suc (bit_width (v div 2)))"

declare bit_width.simps [simp del]

definition countl_zero :: "nat \<Rightarrow> nat" where
  "countl_zero v = 64 - bit_width v"

definition EncodeBuffer_uint :: "nat \<Rightarrow> nat \<Rightarrow> bytes" where
  "EncodeBuffer_uint base v =
     (let n = 8 - countl_zero v div 8
      in of_nat (base + n) # map (\<lambda>i. of_nat (v div 2 ^ (8 * (n - i)))) [1..<Suc n])"

definition EncodeBuffer_bytesInternal :: "nat \<Rightarrow> nat \<Rightarrow> bytes" where
  "EncodeBuffer_bytesInternal base byte_count =
     (if byte_count \<le> kMaxPrefix1 then [of_nat (base + byte_count)] else EncodeBuffer_uint (base + kMaxPrefix1) byte_count)"

definition EncodeUint :: "nat \<Rightarrow> bytes" where
  "EncodeUint v = (if 0 < v \<and> v < kBytesPrefix1 then [of_nat v] else EncodeBuffer_uint kBytesPrefix1 v)"

definition EncodeBytes :: "bytes \<Rightarrow> bytes" where
  "EncodeBytes b =
     (if length b = 1 \<and> unat (hd b) < kBytesPrefix1 then [hd b] else EncodeBuffer_bytesInternal kBytesPrefix1 (length b))"

definition EncodeList :: "nat \<Rightarrow> bytes" where
  "EncodeList byte_count = EncodeBuffer_bytesInternal kListPrefix1 byte_count"

definition is_short :: "bytes \<Rightarrow> bool" where
  "is_short prefix \<longleftrightarrow> unat (hd prefix) < kBytesPrefix1"

definition Encoder_uint :: "nat \<Rightarrow> bytes \<Rightarrow> bytes" where
  "Encoder_uint v output = output @ EncodeUint v"

definition Encoder_writeBool :: "bool \<Rightarrow> bytes \<Rightarrow> bytes" where
  "Encoder_writeBool v = Encoder_uint (if v then 1 else 0)"

definition Encoder_bytes :: "bytes \<Rightarrow> bytes \<Rightarrow> bytes" where
  "Encoder_bytes b output =
     (let prefix = EncodeBytes b in output @ prefix @ (if is_short prefix then [] else b))"

definition str2byte :: "string \<Rightarrow> bytes" where
  "str2byte s = map of_char s"

definition Encoder_str :: "string \<Rightarrow> bytes \<Rightarrow> bytes" where
  "Encoder_str s = Encoder_bytes (str2byte s)"

definition Encoder_list :: "bytes \<Rightarrow> bytes" where
  "Encoder_list output = EncodeList (length output) @ output"

subsection \<open>Numbers\<close>

lemma bit_width_0 [simp]: "bit_width 0 = 0"
  by (simp add: bit_width.simps)

lemma bit_width_bounds: "v < 2 ^ bit_width v \<and> (v > 0 \<longrightarrow> 2 ^ (bit_width v - 1) \<le> v)"
proof (induction v rule: bit_width.induct)
  case (1 v)
  show ?case
  proof (cases "v = 0")
    case False
    then have IH: "v div 2 < 2 ^ bit_width (v div 2)" "v div 2 > 0 \<longrightarrow> 2 ^ (bit_width (v div 2) - 1) \<le> v div 2"
      using 1 by auto
    have w: "bit_width v = Suc (bit_width (v div 2))" using False by (subst bit_width.simps) simp
    have "v < 2 ^ bit_width v" unfolding w using IH(1) by simp
    moreover have "2 ^ (bit_width v - 1) \<le> v"
    proof (cases "v div 2 = 0")
      case True
      then show ?thesis using False by (simp add: w)
    next
      case nz: False
      then have "bit_width (v div 2) > 0" by (subst bit_width.simps) simp
      then obtain k where k: "bit_width (v div 2) = Suc k" by (cases "bit_width (v div 2)") auto
      then show ?thesis using IH(2) nz by (simp add: w) 
    qed
    ultimately show ?thesis by simp
  qed simp
qed

lemma bit_width_less: "v < 2 ^ n \<Longrightarrow> bit_width v \<le> n"
proof (rule ccontr)
  assume v: "v < 2 ^ n" "\<not> bit_width v \<le> n"
  then have "v > 0" by (cases "v = 0") auto
  then have "(2 :: nat) ^ (bit_width v - 1) \<le> v" using bit_width_bounds[of v] by simp
  moreover have "(2 :: nat) ^ n \<le> 2 ^ (bit_width v - 1)" using v(2) by (intro power_increasing) auto
  ultimately show False using v(1) by linarith
qed

text \<open>The number of bytes of a number.\<close>

lemma encoded_width:
  assumes "v < 2 ^ 64"
  shows "8 - countl_zero v div 8 = (bit_width v + 7) div 8"
  using bit_width_less[OF assms] by (simp add: countl_zero_def)

definition be_bytes :: "nat \<Rightarrow> nat \<Rightarrow> bytes" where
  "be_bytes n v = map (\<lambda>i. of_nat (v div 2 ^ (8 * (n - i)))) [1..<Suc n]"

lemma be_bytes_Suc: "be_bytes (Suc n) v = be_bytes n (v div 256) @ [of_nat v]"
proof -
  have "v div 2 ^ (8 * (Suc n - i)) = v div 256 div 2 ^ (8 * (n - i))" if "i \<le> n" for i
  proof -
    have "(2 :: nat) ^ (8 * (Suc n - i)) = 256 * 2 ^ (8 * (n - i))" using that by (simp add: Suc_diff_le power_add)
    then show ?thesis by (simp add: div_mult2_eq)
  qed
  then show ?thesis by (auto simp: be_bytes_def)
qed

lemma pow256: "(256 :: nat) ^ n = 2 ^ (8 * n)"
  by (simp add: power_mult)

lemma length_be_bytes [simp]: "length (be_bytes n v) = n"
  by (simp add: be_bytes_def)

lemma be_bytes_value:
  "n * 8 \<le> digits \<Longrightarrow> v < 256 ^ n \<Longrightarrow> fold (\<lambda>x v. (v * 256 + unat x) mod 2 ^ digits) (be_bytes n v) 0 = v"
proof (induction n arbitrary: v)
  case (Suc n)
  have "v div 256 < 256 ^ n" using Suc.prems(2) by (simp add: div_less_iff_less_mult mult.commute)
  then have IH: "fold (\<lambda>x v. (v * 256 + unat x) mod 2 ^ digits) (be_bytes n (v div 256)) 0 = v div 256" using Suc by simp
  have "unat (of_nat v :: 8 word) = v mod 256" by (simp add: unat_of_nat)
  moreover have "v < 2 ^ digits"
  proof -
    have "(256 :: nat) ^ Suc n = 2 ^ (Suc n * 8)" by (simp only: pow256 mult.commute)
    also have "\<dots> \<le> 2 ^ digits" using Suc.prems(1) by (intro power_increasing) auto
    finally show ?thesis using Suc.prems(2) by linarith
  qed
  ultimately show ?case using IH by (simp add: be_bytes_Suc)
qed (simp add: be_bytes_def)

lemma rlp_uint_be_bytes: "n * 8 \<le> digits \<Longrightarrow> v < 256 ^ n \<Longrightarrow> rlp_uint_be digits (be_bytes n v) = Inr v"
  by (simp add: rlp_uint_be_def be_bytes_value)

subsection \<open>Round trips\<close>

text \<open>The width of a number below \<open>2 ^ 64\<close>: at most eight bytes, and enough.\<close>

definition byte_width :: "nat \<Rightarrow> nat" where
  "byte_width v = (bit_width v + 7) div 8"

lemma byte_width:
  assumes "v < 2 ^ 64"
  shows "byte_width v \<le> 8" "v < 256 ^ byte_width v"
proof -
  show "byte_width v \<le> 8" using bit_width_less[OF assms] by (simp add: byte_width_def)
  have "v < 2 ^ bit_width v" using bit_width_bounds by simp
  also have "\<dots> \<le> 2 ^ (8 * byte_width v)" by (intro power_increasing) (auto simp: byte_width_def)
  finally show "v < 256 ^ byte_width v" by (simp only: pow256)
qed

lemma byte_width_pos: "v > 0 \<Longrightarrow> byte_width v > 0"
  by (subst byte_width_def, subst bit_width.simps) simp

lemma EncodeBuffer_uint_eq:
  "v < 2 ^ 64 \<Longrightarrow> EncodeBuffer_uint base v = of_nat (base + byte_width v) # be_bytes (byte_width v) v"
  by (simp add: EncodeBuffer_uint_def encoded_width byte_width_def be_bytes_def Let_def)

lemma rlp_take_append [simp]: "length xs = n \<Longrightarrow> rlp_take n (xs @ rest) = (Inr xs, rest)"
  by (simp add: rlp_take_def)

lemma rlp_take_1 [simp]: "rlp_take (Suc 0) (x # rest) = (Inr [x], rest)"
  by (simp add: rlp_take_def)

lemma unat_byte: "n < 256 \<Longrightarrow> unat (of_nat n :: 8 word) = n"
  by (simp add: unat_of_nat)

lemma bytesInternal_roundtrip:
  assumes "base \<le> 0xc0" "length b < 2 ^ 64"
  shows "rlp_bytesInternal base (EncodeBuffer_bytesInternal base (length b) @ b @ rest) = (Inr b, rest)"
proof (cases "length b \<le> kMaxPrefix1")
  case True
  then have "unat (of_nat (base + length b) :: 8 word) = base + length b"
    using assms(1) by (intro unat_byte) (simp add: kMaxPrefix1_def)
  with True show ?thesis
    by (simp add: rlp_bytesInternal_def EncodeBuffer_bytesInternal_def Let_def TRY_def del: of_nat_add)
next
  case False
  let ?n = "length b"
  have w: "byte_width ?n \<le> 8" "?n < 256 ^ byte_width ?n" using byte_width[OF assms(2)] by auto
  have "byte_width ?n > 0" using False by (intro byte_width_pos) (auto simp: kMaxPrefix1_def)
  moreover have "unat (of_nat (base + kMaxPrefix1 + byte_width ?n) :: 8 word) = base + kMaxPrefix1 + byte_width ?n"
    using assms(1) w(1) by (intro unat_byte) (simp add: kMaxPrefix1_def)
  moreover have "rlp_uint_be 64 (be_bytes (byte_width ?n) ?n) = Inr ?n" using w by (intro rlp_uint_be_bytes) auto
  ultimately show ?thesis using False
    by (simp add: rlp_bytesInternal_def EncodeBuffer_bytesInternal_def EncodeBuffer_uint_eq[OF assms(2)] Let_def TRY_def LIFT_def
        del: of_nat_add)
qed

lemma EncodeBytes_prefix:
  assumes "length b < 2 ^ 64" "\<not> (length b = 1 \<and> unat (hd b) < kBytesPrefix1)"
  shows "kBytesPrefix1 \<le> unat (hd (EncodeBuffer_bytesInternal kBytesPrefix1 (length b)))"
    and "unat (hd (EncodeBuffer_bytesInternal kBytesPrefix1 (length b))) < kListPrefix1"
    and "EncodeBuffer_bytesInternal kBytesPrefix1 (length b) \<noteq> []"
  using byte_width(1)[OF assms(1)] unat_byte[of "kBytesPrefix1 + length b"] unat_byte[of "kBytesPrefix1 + kMaxPrefix1 + byte_width (length b)"]
  by (auto simp: EncodeBuffer_bytesInternal_def EncodeBuffer_uint_eq[OF assms(1)] kBytesPrefix1_def kMaxPrefix1_def kListPrefix1_def
      simp del: of_nat_add)

lemma Encoder_bytes_append: "Encoder_bytes b output = output @ Encoder_bytes b []"
  by (simp add: Encoder_bytes_def Let_def)

lemma Encoder_bytes_nonempty: "Encoder_bytes b [] \<noteq> []"
  by (simp add: Encoder_bytes_def Let_def EncodeBytes_def EncodeBuffer_bytesInternal_def EncodeBuffer_uint_def)

theorem rlp_bytes_roundtrip:
  assumes "length b < 2 ^ 64"
  shows "rlp_bytes (Encoder_bytes b [] @ rest) = (Inr b, rest)"
proof (cases "length b = 1 \<and> unat (hd b) < kBytesPrefix1")
  case True
  then obtain x where "b = [x]" by (auto simp: length_Suc_conv)
  with True show ?thesis
    by (simp add: Encoder_bytes_def EncodeBytes_def is_short_def rlp_bytes_def kBytesPrefix1_def kListPrefix1_def)
next
  case False
  let ?p = "EncodeBuffer_bytesInternal kBytesPrefix1 (length b)"
  note prefix = EncodeBytes_prefix[OF assms False]
  obtain x xs where x: "?p = x # xs" using prefix(3) by (cases ?p) auto
  have "Encoder_bytes b [] = ?p @ b"
    using False prefix(1) by (auto simp: Encoder_bytes_def EncodeBytes_def is_short_def Let_def)
  moreover have "rlp_bytes (?p @ b @ rest) = rlp_bytesInternal kBytesPrefix1 (?p @ b @ rest)"
    using prefix x by (simp add: rlp_bytes_def)
  ultimately show ?thesis
    using bytesInternal_roundtrip[of kBytesPrefix1 b rest] assms by (simp add: kBytesPrefix1_def)
qed

lemma EncodeUint_bytes:
  assumes "v < 2 ^ 64"
  shows "EncodeUint v = Encoder_bytes (be_bytes (byte_width v) v) []"
proof (cases "0 < v \<and> v < kBytesPrefix1")
  case True
  then have "byte_width v = 1"
  proof -
    have "bit_width v \<le> 7" using True by (intro bit_width_less) (simp add: kBytesPrefix1_def)
    then show ?thesis using byte_width_pos[of v] True by (simp add: byte_width_def)
  qed
  moreover have "unat (of_nat v :: 8 word) = v" using True by (intro unat_byte) (simp add: kBytesPrefix1_def)
  ultimately show ?thesis using True
    by (simp add: EncodeUint_def Encoder_bytes_def EncodeBytes_def be_bytes_def is_short_def Let_def)
next
  case False
  let ?b = "be_bytes (byte_width v) v"
  have w: "byte_width v \<le> 8" using byte_width(1)[OF assms] .
  have "\<not> (length ?b = 1 \<and> unat (hd ?b) < kBytesPrefix1)"
  proof (cases "byte_width v = 1")
    case True
    then have "v < 256" using byte_width(2)[OF assms] by simp
    moreover have "v \<noteq> 0" using True by (intro notI) (simp add: byte_width_def)
    ultimately show ?thesis using True False by (auto simp: be_bytes_def unat_byte)
  qed simp
  moreover have "kBytesPrefix1 \<le> unat (hd (EncodeBuffer_bytesInternal kBytesPrefix1 (length ?b)))"
    using w by (intro EncodeBytes_prefix(1)) (use calculation in auto)
  moreover have "EncodeBuffer_bytesInternal kBytesPrefix1 (length ?b) = [of_nat (kBytesPrefix1 + byte_width v)]"
    using w by (simp add: EncodeBuffer_bytesInternal_def kMaxPrefix1_def del: of_nat_add)
  ultimately show ?thesis using False
    by (auto simp: EncodeUint_def EncodeBuffer_uint_eq[OF assms] Encoder_bytes_def EncodeBytes_def is_short_def Let_def simp del: of_nat_add)
qed

lemma rlp_uint_roundtrip:
  assumes "v < 2 ^ 64" "byte_width v * 8 \<le> digits"
  shows "rlp_uint digits (EncodeUint v @ rest) = (Inr v, rest)"
proof -
  have "rlp_bytes (EncodeUint v @ rest) = (Inr (be_bytes (byte_width v) v), rest)"
    unfolding EncodeUint_bytes[OF assms(1)] using byte_width(1)[OF assms(1)] by (intro rlp_bytes_roundtrip) simp
  moreover have "rlp_uint_be digits (be_bytes (byte_width v) v) = Inr v"
    using assms byte_width(2)[OF assms(1)] by (intro rlp_uint_be_bytes)
  ultimately show ?thesis by (simp add: rlp_uint_def TRY_def LIFT_def)
qed

lemma rlp_list_roundtrip:
  assumes "length b < 2 ^ 64"
  shows "rlp_list (Encoder_list b @ rest) = (Inr b, rest)"
  using bytesInternal_roundtrip[of kListPrefix1 b rest] assms
  by (auto simp: rlp_list_def Encoder_list_def EncodeList_def kListPrefix1_def EncodeBuffer_bytesInternal_def EncodeBuffer_uint_def Let_def)

end
