(* ===== verification/Enr.thy ===== *)
theory Enr
  imports Rlp
begin

text \<open>
  Ethereum node records, \<^verbatim>\<open>serde/enr.cpp\<close>, namespace \<^verbatim>\<open>enr\<close>:
  encoding and decoding of the record of a node, signed with its secp256k1 key.  The
  base64 codec, the hash and the signature scheme are libraries and parameters here.
\<close>

subsection \<open>Records\<close>

record EnrEnv =
  ee_base64_encode :: "bytes \<Rightarrow> string"
  ee_base64_decode :: "string \<Rightarrow> bytes result"
  ee_keccak :: "bytes \<Rightarrow> bytes"
  ee_signCompact :: "bytes \<Rightarrow> bytes \<Rightarrow> bytes result"
  ee_verifyCompact :: "bytes \<Rightarrow> bytes \<Rightarrow> bytes \<Rightarrow> bool result"

record Enr =
  enr_signature :: bytes
  enr_sequence :: nat
  enr_public_key :: bytes
  enr_ip :: "bytes option"
  enr_port :: "nat option"
  enr_is_aggregator_optional :: "bool option"

datatype KeyType = RSA | Ed25519 | Secp256k1 | ECDSA | UNSPECIFIED

record KeyPair =
  kp_public_type :: KeyType
  kp_public_data :: bytes
  kp_private_type :: KeyType
  kp_private_data :: bytes

definition makeIp :: "nat \<Rightarrow> bytes" where
  "makeIp i = be_bytes 4 (i mod 2 ^ 32)"

text \<open>The host order number of the base address comes from the address parser.\<close>

definition makeIp_from :: "nat \<Rightarrow> nat \<Rightarrow> bytes" where
  "makeIp_from ip_host_endian i = makeIp (ip_host_endian + i)"

definition isAggregator :: "Enr \<Rightarrow> bool" where
  "isAggregator enr \<longleftrightarrow> enr_is_aggregator_optional enr = Some True"

subsection \<open>Encoding\<close>

definition optional_value :: "'a option \<Rightarrow> 'a result" where
  "optional_value x = (case x of None \<Rightarrow> Inl (Exn BadOptionalAccess) | Some v \<Rightarrow> Inr v)"

definition encodeContent :: "Enr \<Rightarrow> bytes \<Rightarrow> bytes result" where
  "encodeContent enr rlp =
     (let rlp1 = Encoder_str ''ip'' (Encoder_str ''v4'' (Encoder_str ''id'' (Encoder_uint (enr_sequence enr) rlp))) in
      OUTCOME_TRY (optional_value (enr_ip enr)) (\<lambda>ip.
      let rlp2 = Encoder_bytes ip rlp1;
          rlp3 = (case enr_is_aggregator_optional enr of
                    None \<Rightarrow> rlp2
                  | Some b \<Rightarrow> Encoder_writeBool b (Encoder_str ''is_aggregator'' rlp2))
      in OUTCOME_TRY (optional_value (enr_port enr)) (\<lambda>port.
         Inr (Encoder_bytes (enr_public_key enr) (Encoder_str ''secp256k1'' (Encoder_uint port (Encoder_str ''quic'' rlp3)))))))"

definition signable :: "Enr \<Rightarrow> bytes result" where
  "signable enr = OUTCOME_TRY (encodeContent enr []) (\<lambda>rlp. Inr (Encoder_list rlp))"

definition fromSpan :: "nat \<Rightarrow> bytes \<Rightarrow> bytes result" where
  "fromSpan n b = (if length b = n then Inr b else Inl (E_EXTERNAL 0))"

definition raise_value :: "'a result \<Rightarrow> 'a result" where
  "raise_value r = (case r of Inl err \<Rightarrow> Inl (if is_exn err then err else Exn SystemError) | Inr x \<Rightarrow> Inr x)"

definition enr_encode :: "EnrEnv \<Rightarrow> KeyPair \<Rightarrow> bytes \<Rightarrow> nat \<Rightarrow> bool option \<Rightarrow> string result" where
  "enr_encode env keypair ip port is_aggregator =
     (if kp_private_type keypair \<noteq> Secp256k1 then Inl (E_ENR EXPECTED_SECP256K1_KEYPAIR)
      else if kp_public_type keypair \<noteq> Secp256k1 then Inl (E_ENR EXPECTED_SECP256K1_KEYPAIR)
      else
        OUTCOME_TRY (fromSpan 32 (kp_private_data keypair)) (\<lambda>private_key.
        OUTCOME_TRY (fromSpan 33 (kp_public_data keypair)) (\<lambda>public_key.
        let enr = \<lparr>enr_signature = replicate 64 0, enr_sequence = 1, enr_public_key = public_key, enr_ip = Some ip,
                   enr_port = Some port, enr_is_aggregator_optional = is_aggregator\<rparr>
        in OUTCOME_TRY (signable enr) (\<lambda>to_sign.
           OUTCOME_TRY (raise_value (ee_signCompact env (ee_keccak env to_sign) private_key)) (\<lambda>signature.
           OUTCOME_TRY (encodeContent enr (Encoder_bytes signature [])) (\<lambda>rlp.
           Inr (''enr:'' @ ee_base64_encode env (Encoder_list rlp))))))))"

subsection \<open>Decoding\<close>

text \<open>A value of the record, if the key is there.\<close>

definition kv_optional :: "(bytes, bytes) umap \<Rightarrow> string \<Rightarrow> (bytes, 'a) action \<Rightarrow> 'a option result" where
  "kv_optional kv key read =
     (case map_of kv (str2byte key) of
        None \<Rightarrow> Inr None
      | Some value \<Rightarrow> OUTCOME_TRY (fst (read value)) (\<lambda>x. Inr (Some x)))"

definition kv_required :: "(bytes, bytes) umap \<Rightarrow> string \<Rightarrow> (bytes, 'a) action \<Rightarrow> 'a result" where
  "kv_required kv key read =
     (case map_of kv (str2byte key) of
        None \<Rightarrow> Inl (E_RLP KEY_NOT_FOUND)
      | Some value \<Rightarrow> fst (read value))"

text \<open>What follows the pairs: the fields, in the order of the code, and the signature.\<close>

definition enr_fields :: "EnrEnv \<Rightarrow> bytes \<Rightarrow> bytes \<Rightarrow> nat \<Rightarrow> (bytes, bytes) umap \<Rightarrow> Enr result" where
  "enr_fields env signature to_verify sequence kv =
     OUTCOME_TRY (kv_required kv ''id'' rlp_str) (\<lambda>id.
     if id \<noteq> str2byte ''v4'' then Inl (E_ENR INVALID_ID)
     else
       OUTCOME_TRY (kv_optional kv ''ip'' (rlp_bytes_n 4)) (\<lambda>ip.
       OUTCOME_TRY (kv_required kv ''secp256k1'' (rlp_bytes_n 33)) (\<lambda>public_key.
       OUTCOME_TRY (kv_optional kv ''quic'' (rlp_uint 16)) (\<lambda>port.
       OUTCOME_TRY (kv_optional kv ''is_aggregator'' rlp_readBool) (\<lambda>is_aggregator.
       OUTCOME_TRY (ee_verifyCompact env (ee_keccak env to_verify) signature public_key) (\<lambda>valid_signature.
       if \<not> valid_signature then Inl (E_ENR SIGNATURE_VERIFICATION_FAILED)
       else Inr \<lparr>enr_signature = signature, enr_sequence = sequence, enr_public_key = public_key, enr_ip = ip,
                 enr_port = port, enr_is_aggregator_optional = is_aggregator\<rparr>))))))"

definition enr_decode :: "EnrEnv \<Rightarrow> string \<Rightarrow> Enr result" where
  "enr_decode env str =
     (if take 4 str \<noteq> ''enr:'' then Inl (E_ENR INVALID_PREFIX)
      else
        OUTCOME_TRY (ee_base64_decode env (drop 4 str)) (\<lambda>rlp_bytes.
        OUTCOME_TRY (fst (rlp_list rlp_bytes)) (\<lambda>rlp0.
        case rlp_bytes_n 64 rlp0 of
          (Inl err, _) \<Rightarrow> Inl err
        | (Inr signature, rlp1) \<Rightarrow>
            let to_verify = EncodeList (length rlp1) @ rlp1 in
            case rlp_uint 64 rlp1 of
              (Inl err, _) \<Rightarrow> Inl err
            | (Inr sequence, rlp2) \<Rightarrow>
                OUTCOME_TRY (fst (rlp_keyValue rlp2)) (\<lambda>kv. enr_fields env signature to_verify sequence kv))))"

subsection \<open>The loop over the pairs ends\<close>

lemma rlp_take_shrinks: "rlp_take n input = (Inr b, rest) \<Longrightarrow> length rest = length input - n \<and> n \<le> length input"
  by (auto simp: rlp_take_def split: if_splits)

lemma bytesInternal_shrinks: "rlp_bytesInternal base input = (Inr b, rest) \<Longrightarrow> length rest < length input"
  by (cases input)
    (auto simp: rlp_bytesInternal_def Let_def TRY_eq_Inr LIFT_def dest!: rlp_take_shrinks split: if_splits)

lemma rlp_bytes_shrinks: "rlp_bytes input = (Inr b, rest) \<Longrightarrow> length rest < length input"
  by (auto simp: rlp_bytes_def dest: bytesInternal_shrinks rlp_take_shrinks split: list.splits if_splits)

lemma rlp_skip_shrinks: "rlp_skip input = (Inr u, rest) \<Longrightarrow> length rest < length input"
  by (auto simp: rlp_skip_def rlp_list_def TRY_eq_Inr OK_def dest: rlp_bytes_shrinks bytesInternal_shrinks split: if_splits)

lemma rlp_code:
  "rlp_bytesInternal base (x # xs) = (Inl err, rest) \<Longrightarrow> \<not> is_exn err"
  "rlp_bytes input = (Inl err, rest) \<Longrightarrow> \<not> is_exn err" "rlp_skip input = (Inl err, rest) \<Longrightarrow> \<not> is_exn err"
proof -
  have internal: "\<not> is_exn err" if "rlp_bytesInternal base (x # xs) = (Inl err, rest)" for base x xs err rest
    using that by (auto simp: rlp_bytesInternal_def rlp_take_def rlp_uint_be_def Let_def TRY_eq_Inl LIFT_def split: if_splits)
  have bytes: "\<not> is_exn err" if "rlp_bytes input = (Inl err, rest)" for input err rest
    using that internal by (fastforce simp: rlp_bytes_def rlp_take_def split: list.splits if_splits)
  show "rlp_bytesInternal base (x # xs) = (Inl err, rest) \<Longrightarrow> \<not> is_exn err" by (rule internal)
  show "rlp_bytes input = (Inl err, rest) \<Longrightarrow> \<not> is_exn err" by (rule bytes)
  show "\<not> is_exn err" if "rlp_skip input = (Inl err, rest)"
    using that bytes internal by (cases input) (auto simp: rlp_skip_def rlp_list_def TRY_eq_Inl OK_def split: if_splits)
qed

lemma rlp_pairs_ends: "length input \<le> fuel \<Longrightarrow> fst (rlp_pairs fuel kv input) = Inl err \<Longrightarrow> \<not> is_exn err"
proof (induction fuel kv input rule: rlp_pairs.induct)
  case (3 fuel kv x input)
  obtain r val where key: "rlp_str (x # input) = (r, val)" by fastforce
  show ?case
  proof (cases r)
    case (Inl e)
    with 3 key show ?thesis by (auto simp: TRY_def rlp_str_def dest: rlp_code(2))
  next
    case (Inr k)
    obtain r' rest where skip: "rlp_skip val = (r', rest)" by fastforce
    show ?thesis
    proof (cases r')
      case (Inl e)
      with 3 key Inr skip show ?thesis by (auto simp: TRY_def dest: rlp_code(3) split: if_splits)
    next
      case (Inr u)
      have "length val < length (x # input)" "length rest < length val"
        using key \<open>r = Inr k\<close> skip Inr by (auto simp: rlp_str_def dest: rlp_bytes_shrinks rlp_skip_shrinks)
      with 3 key \<open>r = Inr k\<close> skip Inr show ?thesis
        by (auto simp: TRY_def Let_def split: if_splits)
    qed
  qed
qed auto


subsection \<open>Round trip\<close>

lemma of_char_byte_inject: "(of_char c :: 8 word) = of_char d \<longleftrightarrow> c = d"
proof
  assume "(of_char c :: 8 word) = of_char d"
  then have "(of_nat (of_char c) :: 8 word) = of_nat (of_char d)" by (simp add: of_nat_of_char)
  then have "unat (of_nat (of_char c) :: 8 word) = unat (of_nat (of_char d) :: 8 word)" by simp
  then show "c = d" by (simp add: unat_of_nat)
qed simp

lemma str2byte_inject [simp]: "str2byte s = str2byte t \<longleftrightarrow> s = t"
  by (simp add: str2byte_def inj_map_eq_map inj_def of_char_byte_inject)

definition rlp_pair :: "bytes \<times> bytes \<Rightarrow> bytes" where
  "rlp_pair p = Encoder_bytes (fst p) [] @ Encoder_bytes (snd p) []"

lemma not_list: "length b < 2 ^ 64 \<Longrightarrow> \<not> rlp_is_list (Encoder_bytes b [] @ rest)"
  using rlp_bytes_roundtrip[of b rest] by (auto simp: rlp_bytes_def rlp_is_list_def split: list.splits if_splits)

lemma rlp_pairs_pair:
  assumes "length (fst p) < 2 ^ 64" "length (snd p) < 2 ^ 64"
  shows "rlp_pairs (Suc fuel) kv (rlp_pair p @ rest) =
           rlp_pairs fuel (if map_of kv (fst p) = None then kv @ [(fst p, Encoder_bytes (snd p) [])] else kv) rest"
proof -
  let ?v = "Encoder_bytes (snd p) [] @ rest"
  obtain x xs where x: "rlp_pair p @ rest = x # xs"
    using Encoder_bytes_nonempty[of "fst p"] by (cases "rlp_pair p @ rest") (auto simp: rlp_pair_def)
  have key: "rlp_str (x # xs) = (Inr (fst p), ?v)"
    using rlp_bytes_roundtrip[OF assms(1), of ?v] by (simp add: rlp_str_def x[symmetric] rlp_pair_def)
  have "rlp_skip ?v = (Inr (), rest)"
    using rlp_bytes_roundtrip[OF assms(2), of rest] not_list[OF assms(2)] by (simp add: rlp_skip_def TRY_def OK_def)
  then show ?thesis unfolding x using key Encoder_bytes_nonempty by (simp add: TRY_def Let_def)
qed

lemma rlp_pairs_roundtrip:
  "\<forall>p \<in> set ps. length (fst p) < 2 ^ 64 \<and> length (snd p) < 2 ^ 64 \<Longrightarrow> length ps \<le> fuel \<Longrightarrow>
   distinct (map fst kv @ map fst ps) \<Longrightarrow>
   rlp_pairs fuel kv (concat (map rlp_pair ps)) = (Inr (kv @ map (\<lambda>p. (fst p, Encoder_bytes (snd p) [])) ps), [])"
proof (induction ps arbitrary: fuel kv)
  case (Cons p ps)
  then obtain n where n: "fuel = Suc n" by (cases fuel) auto
  have "map_of kv (fst p) = None" using Cons.prems(3) by (simp add: map_of_eq_None_iff)
  then show ?case using Cons.prems Cons.IH[of n "kv @ [(fst p, Encoder_bytes (snd p) [])]"]
    by (simp add: n rlp_pairs_pair)
qed simp

lemma rlp_pair_nonempty: "length ps \<le> length (concat (map rlp_pair ps))"
  using Encoder_bytes_nonempty by (induction ps) (auto simp: rlp_pair_def Suc_le_eq add_strict_increasing)

lemma rlp_keyValue_roundtrip:
  assumes "\<forall>p \<in> set ps. length (fst p) < 2 ^ 64 \<and> length (snd p) < 2 ^ 64" "distinct (map fst ps)"
  shows "rlp_keyValue (concat (map rlp_pair ps)) = (Inr (map (\<lambda>p. (fst p, Encoder_bytes (snd p) [])) ps), [])"
  using rlp_pairs_roundtrip[of ps "length (concat (map rlp_pair ps))" "[]"] assms rlp_pair_nonempty
  by (simp add: rlp_keyValue_def)

text \<open>The pairs of a record.\<close>

definition uint_bytes :: "nat \<Rightarrow> bytes" where
  "uint_bytes v = be_bytes (byte_width v) v"

definition enr_pairs :: "bytes \<Rightarrow> bool option \<Rightarrow> nat \<Rightarrow> bytes \<Rightarrow> (bytes \<times> bytes) list" where
  "enr_pairs ip agg port public_key =
     [(str2byte ''id'', str2byte ''v4''), (str2byte ''ip'', ip)]
     @ (case agg of None \<Rightarrow> [] | Some b \<Rightarrow> [(str2byte ''is_aggregator'', uint_bytes (if b then 1 else 0))])
     @ [(str2byte ''quic'', uint_bytes port), (str2byte ''secp256k1'', public_key)]"

lemma Encoder_uint_append: "v < 2 ^ 64 \<Longrightarrow> Encoder_uint v output = output @ Encoder_bytes (uint_bytes v) []"
  by (simp add: Encoder_uint_def EncodeUint_bytes uint_bytes_def)

lemma encodeContent_eq:
  assumes "enr_ip enr = Some ip" "enr_port enr = Some port" "port < 2 ^ 16"
  shows "encodeContent enr output = Inr (output @ EncodeUint (enr_sequence enr) @
           concat (map rlp_pair (enr_pairs ip (enr_is_aggregator_optional enr) port (enr_public_key enr))))"
proof -
  have p: "Encoder_uint port out = out @ Encoder_bytes (uint_bytes port) []" for out
    using assms(3) by (intro Encoder_uint_append) simp
  have b: "Encoder_writeBool a out = out @ Encoder_bytes (uint_bytes (if a then 1 else 0)) []" for a out
    unfolding Encoder_writeBool_def by (intro Encoder_uint_append) simp
  have s: "Encoder_str k out = out @ Encoder_bytes (str2byte k) []" for k out
    unfolding Encoder_str_def by (rule Encoder_bytes_append)
  have q: "Encoder_bytes v (out @ out') = out @ out' @ Encoder_bytes v []" for v out out'
    using Encoder_bytes_append[of v "out @ out'"] by simp
  show ?thesis
    unfolding encodeContent_def Let_def
    by (simp add: assms optional_value_def p b s q Encoder_uint_def[of "enr_sequence enr"] enr_pairs_def rlp_pair_def
        split: option.split)
qed


lemma uint_roundtrip:
  assumes "v < 2 ^ 64" "byte_width v * 8 \<le> digits"
  shows "rlp_uint digits (Encoder_bytes (uint_bytes v) []) = (Inr v, [])"
  using rlp_uint_roundtrip[OF assms, of "[]"] assms(1) by (simp add: EncodeUint_bytes uint_bytes_def)

lemma byte_width_16: "v < 2 ^ 16 \<Longrightarrow> byte_width v * 8 \<le> 16"
  using bit_width_less[of v 16] by (simp add: byte_width_def)

lemma bytes_n_roundtrip:
  "length b = n \<Longrightarrow> n < 2 ^ 64 \<Longrightarrow> rlp_bytes_n n (Encoder_bytes b [] @ rest) = (Inr b, rest)"
  by (simp add: rlp_bytes_n_def rlp_bytes_roundtrip TRY_def OK_def)

lemma uint_bytes_length: "v < 2 ^ 64 \<Longrightarrow> length (uint_bytes v) \<le> 8"
  using byte_width(1) by (simp add: uint_bytes_def)

lemma readBool_roundtrip: "rlp_readBool (Encoder_bytes (uint_bytes (if b then 1 else 0)) []) = (Inr b, [])"
proof -
  have "bit_width 1 = 1" by (simp add: bit_width.simps[of "Suc 0"])
  then have "byte_width (if b then 1 else 0) * 8 \<le> 8" by (simp add: byte_width_def)
  then have "rlp_uint 8 (Encoder_bytes (uint_bytes (if b then 1 else 0)) []) = (Inr (if b then 1 else 0), [])"
    by (intro uint_roundtrip) auto
  then show ?thesis by (simp add: rlp_readBool_def TRY_def OK_def)
qed

text \<open>The fields of a record read back from its pairs.\<close>

lemma enr_fields_roundtrip:
  assumes "length ip = 4" "length public_key = 33" "port < 2 ^ 16"
    and "ee_verifyCompact env (ee_keccak env to_verify) signature public_key = Inr True"
  shows "enr_fields env signature to_verify sequence
           (map (\<lambda>p. (fst p, Encoder_bytes (snd p) [])) (enr_pairs ip agg port public_key)) =
         Inr \<lparr>enr_signature = signature, enr_sequence = sequence, enr_public_key = public_key, enr_ip = Some ip,
              enr_port = Some port, enr_is_aggregator_optional = agg\<rparr>"
proof -
  have "rlp_str (Encoder_bytes (str2byte ''v4'') []) = (Inr (str2byte ''v4''), [])"
    using rlp_bytes_roundtrip[of "str2byte ''v4''" "[]"] by (simp add: rlp_str_def str2byte_def)
  moreover have "rlp_bytes_n 4 (Encoder_bytes ip []) = (Inr ip, [])" using bytes_n_roundtrip[OF assms(1), of "[]"] by simp
  moreover have "rlp_bytes_n 33 (Encoder_bytes public_key []) = (Inr public_key, [])"
    using bytes_n_roundtrip[OF assms(2), of "[]"] by simp
  moreover have "rlp_uint 16 (Encoder_bytes (uint_bytes port) []) = (Inr port, [])"
    using assms(3) byte_width_16 by (intro uint_roundtrip) auto
  ultimately show ?thesis using assms(4) readBool_roundtrip
    by (cases agg) (simp_all add: enr_fields_def kv_required_def kv_optional_def enr_pairs_def)
qed


lemma list_length_bound:
  assumes "length signature = 64" "length ip = 4" "length public_key = 33" "port < 2 ^ 16"
  shows "length (Encoder_bytes signature [] @ EncodeUint 1 @ concat (map rlp_pair (enr_pairs ip agg port public_key))) < 2 ^ 64"
proof -
  have pre: "length (Encoder_bytes b []) \<le> length b + 9" if "length b < 2 ^ 64" for b
    using byte_width(1)[OF that]
    by (auto simp: Encoder_bytes_def EncodeBytes_def EncodeBuffer_bytesInternal_def EncodeBuffer_uint_eq[OF that] Let_def)
  have u: "length (Encoder_bytes (uint_bytes v) []) \<le> 17" if "v < 2 ^ 64" for v
    using pre[of "uint_bytes v"] uint_bytes_length[OF that] by simp
  have k: "length (Encoder_bytes (str2byte k) []) \<le> 30" if "length k \<le> 20" for k
    using pre[of "str2byte k"] that by (simp add: str2byte_def)
  have "EncodeUint 1 = [1]" by (simp add: EncodeUint_def kBytesPrefix1_def)
  then show ?thesis
    using pre[of signature] pre[of ip] pre[of public_key] u[of port] u[of 0] u[of 1] assms
      k[of "''id''"] k[of "''v4''"] k[of "''ip''"] k[of "''is_aggregator''"] k[of "''quic''"] k[of "''secp256k1''"]
    by (cases agg) (auto simp: enr_pairs_def rlp_pair_def)
qed

lemma enr_decode_encoded:
  assumes "length signature = 64" "length ip = 4" "length public_key = 33" "port < 2 ^ 16"
    and "ps = enr_pairs ip agg port public_key"
    and "ee_base64_decode env str =
           Inr (Encoder_list (Encoder_bytes signature [] @ EncodeUint 1 @ concat (map rlp_pair ps)))"
    and "ee_verifyCompact env (ee_keccak env (Encoder_list (EncodeUint 1 @ concat (map rlp_pair ps)))) signature public_key
           = Inr True"
  shows "enr_decode env (''enr:'' @ str) =
         Inr \<lparr>enr_signature = signature, enr_sequence = 1, enr_public_key = public_key, enr_ip = Some ip,
              enr_port = Some port, enr_is_aggregator_optional = agg\<rparr>"
proof -
  let ?content = "concat (map rlp_pair ps)"
  have "rlp_list (Encoder_list (Encoder_bytes signature [] @ EncodeUint 1 @ ?content)) =
          (Inr (Encoder_bytes signature [] @ EncodeUint 1 @ ?content), [])"
    using rlp_list_roundtrip[of _ "[]"] list_length_bound[OF assms(1-4)] assms(5) by simp
  moreover have "rlp_bytes_n 64 (Encoder_bytes signature [] @ EncodeUint 1 @ ?content) = (Inr signature, EncodeUint 1 @ ?content)"
    using assms(1) by (intro bytes_n_roundtrip) auto
  moreover have "rlp_uint 64 (EncodeUint 1 @ ?content) = (Inr 1, ?content)"
    using byte_width(1)[of 1] by (intro rlp_uint_roundtrip) auto
  moreover have "rlp_keyValue ?content = (Inr (map (\<lambda>p. (fst p, Encoder_bytes (snd p) [])) ps), [])"
  proof (rule rlp_keyValue_roundtrip)
    show "\<forall>p \<in> set ps. length (fst p) < 2 ^ 64 \<and> length (snd p) < 2 ^ 64"
      using assms(2-5) uint_bytes_length[of port] uint_bytes_length[of 0] uint_bytes_length[of 1]
      by (auto simp: enr_pairs_def str2byte_def split: option.splits)
    show "distinct (map fst ps)" by (auto simp: assms(5) enr_pairs_def split: option.splits)
  qed
  moreover have "enr_fields env signature (EncodeList (length (EncodeUint 1 @ ?content)) @ EncodeUint 1 @ ?content) 1
           (map (\<lambda>p. (fst p, Encoder_bytes (snd p) [])) ps) =
         Inr \<lparr>enr_signature = signature, enr_sequence = 1, enr_public_key = public_key, enr_ip = Some ip,
              enr_port = Some port, enr_is_aggregator_optional = agg\<rparr>"
    unfolding assms(5) using assms(2-4,7) by (intro enr_fields_roundtrip) (auto simp: Encoder_list_def assms(5))
  ultimately show ?thesis using assms(6) by (simp add: enr_decode_def Let_def)
qed

text \<open>
  C27. The record that a node publishes is the record its peers read.  For a secp256k1 key
  pair of the right sizes, a four byte address and a sixteen bit port, \<^verbatim>\<open>encode\<close>
  succeeds, and \<^verbatim>\<open>decode\<close> of its result gives back the signature, the sequence
  number 1, the public key, the address, the port and the aggregator flag, absent when it was
  absent.  The base64 codec must be invertible, and the signatures of the key pair, of 64
  bytes, must verify.
\<close>

theorem enr_roundtrip:
  assumes "kp_private_type keypair = Secp256k1" "kp_public_type keypair = Secp256k1"
    and "length (kp_private_data keypair) = 32" "length (kp_public_data keypair) = 33"
    and "length ip = 4" "port < 2 ^ 16"
    and codec: "\<And>b. ee_base64_decode env (ee_base64_encode env b) = Inr b"
    and sign: "\<And>h. \<exists>sig. ee_signCompact env h (kp_private_data keypair) = Inr sig \<and> length sig = 64 \<and>
                 ee_verifyCompact env h sig (kp_public_data keypair) = Inr True"
  shows "\<exists>str sig. enr_encode env keypair ip port agg = Inr str \<and>
           enr_decode env str =
             Inr \<lparr>enr_signature = sig, enr_sequence = 1, enr_public_key = kp_public_data keypair, enr_ip = Some ip,
                  enr_port = Some port, enr_is_aggregator_optional = agg\<rparr>"
proof -
  let ?ps = "enr_pairs ip agg port (kp_public_data keypair)"
  let ?content = "EncodeUint 1 @ concat (map rlp_pair ?ps)"
  obtain sig where sig: "ee_signCompact env (ee_keccak env (Encoder_list ?content)) (kp_private_data keypair) = Inr sig"
    "length sig = 64" "ee_verifyCompact env (ee_keccak env (Encoder_list ?content)) sig (kp_public_data keypair) = Inr True"
    using sign by blast
  let ?enr = "\<lparr>enr_signature = replicate 64 0, enr_sequence = 1, enr_public_key = kp_public_data keypair, enr_ip = Some ip,
                 enr_port = Some port, enr_is_aggregator_optional = agg\<rparr>"
  have content: "encodeContent ?enr out = Inr (out @ ?content)" for out
    by (subst encodeContent_eq[of _ ip port]) (use assms(6) in simp_all)
  have "enr_encode env keypair ip port agg =
          Inr (''enr:'' @ ee_base64_encode env (Encoder_list (Encoder_bytes sig [] @ ?content)))"
    using assms(1-4) sig(1)
    by (simp add: enr_encode_def fromSpan_def signable_def content[simplified] raise_value_def Let_def)
  moreover have "enr_decode env (''enr:'' @ ee_base64_encode env (Encoder_list (Encoder_bytes sig [] @ ?content))) =
      Inr \<lparr>enr_signature = sig, enr_sequence = 1, enr_public_key = kp_public_data keypair, enr_ip = Some ip,
           enr_port = Some port, enr_is_aggregator_optional = agg\<rparr>"
    using codec sig(3) by (intro enr_decode_encoded[OF sig(2) assms(5,4,6)]) auto
  ultimately show ?thesis by blast
qed

text \<open>A codec that maps bytes to characters, and signatures that repeat the first byte of the public key.\<close>

definition demo_env :: EnrEnv where
  "demo_env = \<lparr>ee_base64_encode = map (\<lambda>b. char_of (unat b)), ee_base64_decode = (\<lambda>s. Inr (str2byte s)), ee_keccak = take 32,
     ee_signCompact = (\<lambda>h key. Inr (replicate 64 (hd key))),
     ee_verifyCompact = (\<lambda>h sig key. Inr (sig = replicate 64 (hd key)))\<rparr>"

definition demo_keypair :: KeyPair where
  "demo_keypair = \<lparr>kp_public_type = Secp256k1, kp_public_data = replicate 33 2, kp_private_type = Secp256k1,
     kp_private_data = replicate 32 2\<rparr>"

lemma demo_env_codec: "ee_base64_decode demo_env (ee_base64_encode demo_env b) = Inr b"
proof -
  have "(of_char (char_of (unat x)) :: 8 word) = x" for x :: "8 word"
  proof -
    have "(of_char (char_of (unat x)) :: 8 word) = of_nat (of_char (char_of (unat x)))" by (simp only: of_nat_of_char)
    also have "\<dots> = of_nat (unat x)" using unsigned_less[of x, where ?'a = nat] by simp
    finally show ?thesis by simp
  qed
  then show ?thesis by (simp add: demo_env_def str2byte_def o_def)
qed

theorem enr_roundtrip_witness:
  "\<exists>str sig. enr_encode demo_env demo_keypair (makeIp 0x7f000001) 9000 (Some True) = Inr str \<and>
     enr_decode demo_env str =
       Inr \<lparr>enr_signature = sig, enr_sequence = 1, enr_public_key = replicate 33 2, enr_ip = Some (makeIp 0x7f000001),
            enr_port = Some 9000, enr_is_aggregator_optional = Some True\<rparr>"
  using enr_roundtrip[of demo_keypair "makeIp 0x7f000001" 9000 demo_env "Some True"] demo_env_codec
  by (simp add: demo_keypair_def makeIp_def demo_env_def)


subsection \<open>Decoding is safe\<close>

lemma rlp_uint_bound: "rlp_uint digits input = (Inr v, rest) \<Longrightarrow> v < 2 ^ digits"
proof -
  have "fold (\<lambda>x v. (v * 256 + unat x) mod 2 ^ digits) be 0 < 2 ^ digits" for be :: bytes
    by (cases be rule: rev_cases) auto
  then show "rlp_uint digits input = (Inr v, rest) \<Longrightarrow> v < 2 ^ digits"
    by (auto simp: rlp_uint_def TRY_eq_Inr LIFT_def rlp_uint_be_def split: if_splits)
qed

lemma rlp_bytes_n_length: "rlp_bytes_n n input = (Inr b, rest) \<Longrightarrow> length b = n"
  by (auto simp: rlp_bytes_n_def TRY_eq_Inr OK_def FAIL_def split: if_splits)

lemma rlp_reads_code:
  "rlp_bytes_n n input = (Inl err, rest) \<Longrightarrow> \<not> is_exn err" "rlp_uint digits input = (Inl err, rest) \<Longrightarrow> \<not> is_exn err"
  "rlp_readBool input = (Inl err, rest) \<Longrightarrow> \<not> is_exn err" "rlp_list input = (Inl err, rest) \<Longrightarrow> \<not> is_exn err"
proof -
  have u: "\<not> is_exn err" if "rlp_uint digits input = (Inl err, rest)" for digits input rest
    using that by (auto simp: rlp_uint_def TRY_eq_Inl LIFT_def rlp_uint_be_def dest: rlp_code(2) split: if_splits)
  show "rlp_uint digits input = (Inl err, rest) \<Longrightarrow> \<not> is_exn err" by (rule u)
  show "rlp_readBool input = (Inl err, rest) \<Longrightarrow> \<not> is_exn err"
    by (auto simp: rlp_readBool_def TRY_eq_Inl OK_def FAIL_def dest: u split: if_splits)
  show "rlp_bytes_n n input = (Inl err, rest) \<Longrightarrow> \<not> is_exn err"
    by (auto simp: rlp_bytes_n_def TRY_eq_Inl OK_def FAIL_def dest: rlp_code(2) split: if_splits)
  show "rlp_list input = (Inl err, rest) \<Longrightarrow> \<not> is_exn err"
    by (cases input) (auto simp: rlp_list_def dest: rlp_code(1))
qed

lemma fst_eq_pair: "fst p = x \<longleftrightarrow> (\<exists>y. p = (x, y))"
  by (cases p) auto

lemma rlp_keyValue_code: "rlp_keyValue input = (Inl err, rest) \<Longrightarrow> \<not> is_exn err"
  using rlp_pairs_ends[of input "length input" "[]" err] by (simp add: rlp_keyValue_def)

lemma case_pair_Inl:
  "(case p of (Inl err, _) \<Rightarrow> Inl err | (Inr x, y) \<Rightarrow> f x y) = Inl e \<longleftrightarrow>
     (\<exists>y. p = (Inl e, y)) \<or> (\<exists>x y. p = (Inr x, y) \<and> f x y = Inl e)"
  by (auto split: prod.splits sum.splits)

lemma case_pair_Inr:
  "(case p of (Inl err, _) \<Rightarrow> Inl err | (Inr x, y) \<Rightarrow> f x y) = Inr z \<longleftrightarrow> (\<exists>x y. p = (Inr x, y) \<and> f x y = Inr z)"
  by (auto split: prod.splits sum.splits)

lemma if_Inl: "(if b then Inl err else r) = Inl e \<longleftrightarrow> b \<and> err = e \<or> \<not> b \<and> r = Inl e"
  and if_Inr: "(if b then Inl err else r) = Inr x \<longleftrightarrow> \<not> b \<and> r = Inr x"
  by auto

lemma enr_fields_Inr:
  "enr_fields env signature to_verify sequence kv = Inr enr \<Longrightarrow>
     enr_signature enr = signature \<and> enr_sequence enr = sequence \<and> length (enr_public_key enr) = 33 \<and>
     (\<forall>ip. enr_ip enr = Some ip \<longrightarrow> length ip = 4) \<and> (\<forall>port. enr_port enr = Some port \<longrightarrow> port < 2 ^ 16) \<and>
     ee_verifyCompact env (ee_keccak env to_verify) signature (enr_public_key enr) = Inr True"
  by (auto simp: enr_fields_def kv_required_def kv_optional_def OUTCOME_TRY_eq_Inr fst_eq_pair
      dest!: rlp_bytes_n_length rlp_uint_bound split: if_splits option.splits)

lemma enr_fields_Inl:
  "enr_fields env signature to_verify sequence kv = Inl err \<Longrightarrow> is_exn err \<Longrightarrow>
     \<exists>h public_key. ee_verifyCompact env h signature public_key = Inl err"
  by (auto simp: enr_fields_def kv_required_def kv_optional_def OUTCOME_TRY_eq_Inl OUTCOME_TRY_eq_Inr fst_eq_pair rlp_str_def
      dest: rlp_reads_code rlp_code split: if_splits option.splits)

text \<open>
  C28. Whatever text a peer sends, decoding its node record is safe.  A record that
  \<^verbatim>\<open>decode\<close> returns has a 64 byte signature that verified under the record's own
  33 byte public key, over the list of everything that follows the signature in the record, and
  its address, port and sequence number are in range.  The loop over the pairs always ends, no
  byte outside the input is read, and an exception can only come from the base64 codec or from
  the signature library.
\<close>

theorem enr_decode_safe:
  "case enr_decode env str of
     Inr enr \<Rightarrow>
       length (enr_signature enr) = 64 \<and> length (enr_public_key enr) = 33 \<and> enr_sequence enr < 2 ^ 64 \<and>
       (case enr_ip enr of None \<Rightarrow> True | Some ip \<Rightarrow> length ip = 4) \<and>
       (case enr_port enr of None \<Rightarrow> True | Some port \<Rightarrow> port < 2 ^ 16) \<and>
       (\<exists>rlp content content' rest rest'. ee_base64_decode env (drop 4 str) = Inr rlp \<and> rlp_list rlp = (Inr content, rest) \<and>
          rlp_bytes_n 64 content = (Inr (enr_signature enr), content') \<and>
          rlp_uint 64 content' = (Inr (enr_sequence enr), rest') \<and>
          ee_verifyCompact env (ee_keccak env (Encoder_list content')) (enr_signature enr) (enr_public_key enr) = Inr True)
   | Inl err \<Rightarrow>
       (if is_exn err
        then ee_base64_decode env (drop 4 str) = Inl err \<or> (\<exists>h sig key. ee_verifyCompact env h sig key = Inl err)
        else True)"
proof (cases "enr_decode env str")
  case (Inl err)
  show ?thesis
  proof (cases "is_exn err")
    case True
    then have "ee_base64_decode env (drop 4 str) = Inl err \<or> (\<exists>h sig key. ee_verifyCompact env h sig key = Inl err)"
      using Inl unfolding enr_decode_def case_pair_Inl OUTCOME_TRY_eq_Inl if_Inl Let_def fst_eq_pair
      by (auto dest: rlp_reads_code rlp_keyValue_code enr_fields_Inl)
    with Inl True show ?thesis by simp
  qed (use Inl in simp)
next
  case (Inr enr)
  then obtain rlp content rest content' rest' kv where r:
    "ee_base64_decode env (drop 4 str) = Inr rlp" "rlp_list rlp = (Inr content, rest)"
    "rlp_bytes_n 64 content = (Inr (enr_signature enr), content')" "rlp_uint 64 content' = (Inr (enr_sequence enr), rest')"
    "enr_fields env (enr_signature enr) (Encoder_list content') (enr_sequence enr) kv = Inr enr"
    unfolding enr_decode_def case_pair_Inr OUTCOME_TRY_eq_Inr if_Inr Let_def fst_eq_pair Encoder_list_def
    using enr_fields_Inr by blast
  then show ?thesis
    using Inr rlp_bytes_n_length[OF r(3)] rlp_uint_bound[OF r(4)] enr_fields_Inr[OF r(5)]
    by (auto split: option.splits)
qed

end
