(* ===== verification/Snappy.thy ===== *)
theory Snappy
  imports Storage
begin

text \<open>
  Snappy framing, \<^verbatim>\<open>serde/snappy.hpp\<close>: compression of single buffers, the
  framed format with its checksums, and its use on a stream of a peer.  The compressor, the
  CRC and the variable length integers of the stream are libraries: fields of a record, with
  what their documentation promises in \<open>snappy_ok\<close>.
\<close>

subsection \<open>Libraries and streams\<close>

record SnappyLib =
  sl_Compress :: "bytes \<Rightarrow> bytes"
  sl_GetUncompressedLength :: "bytes \<Rightarrow> nat option"
  sl_Uncompress :: "bytes \<Rightarrow> bytes option"
  sl_Crc32c :: "bytes \<Rightarrow> 32 word"
  sl_EncodeVarint :: "nat \<Rightarrow> bytes"
  sl_readVarint :: "bytes \<Rightarrow> (nat \<times> bytes) option"

text \<open>What a stream still delivers, what was written to it, and whether it was reset.\<close>

record NetStream =
  st_in :: bytes
  st_out :: bytes
  st_reset :: bool

definition stream_read :: "nat \<Rightarrow> (NetStream, bytes) action" where
  "stream_read n s =
     (if length (st_in s) < n then (Inl (E_EXTERNAL 0), s\<lparr>st_in := []\<rparr>)
      else (Inr (take n (st_in s)), s\<lparr>st_in := drop n (st_in s)\<rparr>))"

definition stream_write :: "bytes \<Rightarrow> (NetStream, unit) action" where
  "stream_write b s = (if st_reset s then (Inl (E_EXTERNAL 0), s) else (Inr (), s\<lparr>st_out := st_out s @ b\<rparr>))"

definition readVarint :: "SnappyLib \<Rightarrow> (NetStream, nat) action" where
  "readVarint lib s =
     (case sl_readVarint lib (st_in s) of
        None \<Rightarrow> (Inl (E_EXTERNAL 0), s\<lparr>st_in := []\<rparr>)
      | Some (n, rest) \<Rightarrow> (Inr n, s\<lparr>st_in := rest\<rparr>))"

subsection \<open>Single buffers\<close>

definition kHeaderSize :: nat where
  "kHeaderSize = 4"

definition kMaxBlockSize :: nat where
  "kMaxBlockSize = 2 ^ 16"

definition kDefaultMaxSize :: nat where
  "kDefaultMaxSize = 4 * 2 ^ 20"

definition kStreamIdentifier :: bytes where
  "kStreamIdentifier = map of_char ''sNaPpY''"

definition ChunkType_Stream :: "8 word" where
  "ChunkType_Stream = 0xFF"

definition ChunkType_Compressed :: "8 word" where
  "ChunkType_Compressed = 0x00"

definition ChunkType_Uncompressed :: "8 word" where
  "ChunkType_Uncompressed = 0x01"

definition ChunkType_Padding :: "8 word" where
  "ChunkType_Padding = 0xFE"

lemmas chunk_types = ChunkType_Stream_def ChunkType_Compressed_def ChunkType_Uncompressed_def ChunkType_Padding_def

definition compress :: "SnappyLib \<Rightarrow> bytes \<Rightarrow> bytes" where
  "compress lib input = sl_Compress lib input"

definition uncompress :: "SnappyLib \<Rightarrow> bytes \<Rightarrow> nat \<Rightarrow> bytes result" where
  "uncompress lib compressed max_size =
     (case sl_GetUncompressedLength lib compressed of
        None \<Rightarrow> Inl (E_SNAPPY UNCOMPRESS_INVALID)
      | Some n \<Rightarrow>
          if n > max_size then Inl (E_SNAPPY UNCOMPRESS_TOO_LONG)
          else
            case sl_Uncompress lib compressed of
              None \<Rightarrow> Inl (E_SNAPPY UNCOMPRESS_INVALID)
            | Some uncompressed \<Rightarrow> Inr uncompressed)"

definition store_little :: "nat \<Rightarrow> nat \<Rightarrow> bytes" where
  "store_little n v = map (\<lambda>i. of_nat (v div 256 ^ i)) [0..<n]"

definition load_little_u24 :: "bytes \<Rightarrow> nat" where
  "load_little_u24 b = unat (b ! 0) + 256 * unat (b ! 1) + 65536 * unat (b ! 2)"

definition hashCrc32 :: "SnappyLib \<Rightarrow> bytes \<Rightarrow> bytes" where
  "hashCrc32 lib input =
     (let v = sl_Crc32c lib input;
          v = or (drop_bit 15 v) (push_bit 17 v) + 0xa282ead8
      in store_little 4 (unat v))"

subsection \<open>Frames\<close>

definition write_header :: "8 word \<Rightarrow> nat \<Rightarrow> bytes" where
  "write_header type n = type # store_little 3 n"

function frame_chunks :: "SnappyLib \<Rightarrow> bytes \<Rightarrow> bytes" where
  "frame_chunks lib input =
     (if input = [] then []
      else
        let chunk = take kMaxBlockSize input;
            crc = hashCrc32 lib chunk;
            compressed = compress lib chunk
        in write_header ChunkType_Compressed (4 + length compressed) @ crc @ compressed
           @ frame_chunks lib (drop kMaxBlockSize input))"
  by pat_completeness auto
termination
  by (relation "measure (\<lambda>(lib, input). length input)") (auto simp: kMaxBlockSize_def)

declare frame_chunks.simps [simp del]

definition compressFramed :: "SnappyLib \<Rightarrow> bytes \<Rightarrow> bytes" where
  "compressFramed lib input =
     write_header ChunkType_Stream (length kStreamIdentifier) @ kStreamIdentifier @ frame_chunks lib input"

definition chunkNeedBytes :: "bytes \<Rightarrow> nat option" where
  "chunkNeedBytes input =
     (if length input < kHeaderSize then None else Some (kHeaderSize + load_little_u24 (drop 1 input)))"

text \<open>
  \<^verbatim>\<open>content.first(4)\<close> and \<^verbatim>\<open>content.subspan(4)\<close> require four bytes: on
  a shorter content the behaviour is undefined.
\<close>

function uncompress_chunks :: "SnappyLib \<Rightarrow> nat \<Rightarrow> bytes \<Rightarrow> bytes \<Rightarrow> bytes result" where
  "uncompress_chunks lib max_size acc compressed =
     (if compressed = [] then Inr acc
      else
        case chunkNeedBytes compressed of
          None \<Rightarrow> Inl (E_SNAPPY UNCOMPRESS_TRUNCATED)
        | Some need \<Rightarrow>
            if length compressed < need then Inl (E_SNAPPY UNCOMPRESS_TRUNCATED)
            else
              let type = compressed ! 0;
                  n = load_little_u24 (drop 1 compressed);
                  content = take n (drop kHeaderSize compressed);
                  rest = drop (kHeaderSize + n) compressed
              in if type = ChunkType_Stream then
                   if content \<noteq> kStreamIdentifier then Inl (E_SNAPPY UNCOMPRESS_UNKNOWN_IDENTIFIER)
                   else uncompress_chunks lib max_size acc rest
                 else if type = ChunkType_Compressed \<or> type = ChunkType_Uncompressed then
                   if length content < 4 then Inl (Exn UndefinedBehaviour)
                   else
                     OUTCOME_TRY
                       (if type = ChunkType_Compressed
                        then uncompress lib (drop 4 content) (max_size - length acc)
                        else Inr (drop 4 content))
                       (\<lambda>uncompressed.
                          if hashCrc32 lib uncompressed \<noteq> take 4 content
                          then Inl (E_SNAPPY UNCOMPRESS_CRC_MISMATCH)
                          else uncompress_chunks lib max_size (acc @ uncompressed) rest)
                 else if type = ChunkType_Padding then uncompress_chunks lib max_size acc rest
                 else Inl (E_SNAPPY UNCOMPRESS_UNKNOWN_TYPE))"
  by pat_completeness auto
termination
  by (relation "measure (\<lambda>(lib, max_size, acc, compressed). length compressed)") (auto simp: kHeaderSize_def)

declare uncompress_chunks.simps [simp del]

definition uncompressFramed :: "SnappyLib \<Rightarrow> bytes \<Rightarrow> nat \<Rightarrow> bytes result" where
  "uncompressFramed lib compressed max_size = uncompress_chunks lib max_size [] compressed"

subsection \<open>Streams\<close>

function co_chunks :: "SnappyLib \<Rightarrow> nat \<Rightarrow> bytes \<Rightarrow> (NetStream, bytes) action" where
  "co_chunks lib n acc s =
     (if \<not> length acc < n then (Inr acc, s)
      else
        case stream_read kHeaderSize s of
          (Inl err, s1) \<Rightarrow> (Inl err, s1)
        | (Inr header, s1) \<Rightarrow>
            case chunkNeedBytes header of
              None \<Rightarrow> (Inl (Exn BadOptionalAccess), s1)
            | Some need \<Rightarrow>
                case stream_read (need - kHeaderSize) s1 of
                  (Inl err, s2) \<Rightarrow> (Inl err, s2)
                | (Inr body, s2) \<Rightarrow>
                    case uncompressFramed lib (header @ body) (n - length acc) of
                      Inl err \<Rightarrow> (Inl err, s2)
                    | Inr uncompressed \<Rightarrow> co_chunks lib n (acc @ uncompressed) s2)"
  by pat_completeness auto
termination
  by (relation "measure (\<lambda>(lib, n, acc, s). length (st_in s))")
     (auto simp: stream_read_def kHeaderSize_def split: if_splits)

declare co_chunks.simps [simp del]

definition coUncompressFramed :: "SnappyLib \<Rightarrow> nat \<Rightarrow> (NetStream, bytes) action" where
  "coUncompressFramed lib max_size =
     TRY (readVarint lib) (\<lambda>n.
     if n > max_size then FAIL (E_SNAPPY UNCOMPRESS_TOO_LONG) else co_chunks lib n [])"

definition coCompressFramed :: "SnappyLib \<Rightarrow> bytes \<Rightarrow> (NetStream, unit) action" where
  "coCompressFramed lib message =
     (let compressed = compressFramed lib message
      in TRY (stream_write (sl_EncodeVarint lib (length message))) (\<lambda>_. stream_write compressed))"

subsection \<open>Buffers with the format around them\<close>

definition encodeSszSnappy :: "SnappyLib \<Rightarrow> ('a \<Rightarrow> bytes) \<Rightarrow> 'a \<Rightarrow> bytes" where
  "encodeSszSnappy lib encode t = compress lib (encode t)"

definition decodeSszSnappy :: "SnappyLib \<Rightarrow> (bytes \<Rightarrow> 'a result) \<Rightarrow> bytes \<Rightarrow> ('a \<times> nat) result" where
  "decodeSszSnappy lib decode compressed =
     OUTCOME_TRY (uncompress lib compressed kDefaultMaxSize) (\<lambda>uncompressed.
     OUTCOME_TRY (decode uncompressed) (\<lambda>decoded. Inr (decoded, length uncompressed)))"

definition encodeSszSnappyFramed :: "SnappyLib \<Rightarrow> ('a \<Rightarrow> bytes) \<Rightarrow> 'a \<Rightarrow> bytes" where
  "encodeSszSnappyFramed lib encode t = compressFramed lib (encode t)"

definition decodeSszSnappyFramed :: "SnappyLib \<Rightarrow> (bytes \<Rightarrow> 'a result) \<Rightarrow> bytes \<Rightarrow> 'a result" where
  "decodeSszSnappyFramed lib decode compressed =
     OUTCOME_TRY (uncompressFramed lib compressed kDefaultMaxSize) decode"

text \<open>
  \<^verbatim>\<open>gossipMessageId\<close>: the first twenty bytes of the SHA-256 of the topic and the
  data.  The domain stands after the topic in one case and before it in the other.
\<close>

definition gossipMessageId :: "SnappyLib \<Rightarrow> (bytes \<Rightarrow> bytes) \<Rightarrow> bytes \<Rightarrow> bytes \<Rightarrow> bytes" where
  "gossipMessageId lib sha256 topic data =
     (let hash_topic = store_little 8 (length topic) @ topic
      in take 20 (sha256
           (case uncompress lib data kDefaultMaxSize of
              Inr uncompressed \<Rightarrow> hash_topic @ [1, 0, 0, 0] @ uncompressed
            | Inl _ \<Rightarrow> [0, 0, 0, 0] @ hash_topic @ data)))"


subsection \<open>One chunk\<close>

lemma length_store_little [simp]: "length (store_little n v) = n"
  by (simp add: store_little_def)

lemma length_hashCrc32 [simp]: "length (hashCrc32 lib input) = 4"
  by (simp add: hashCrc32_def Let_def)

lemma length_write_header [simp]: "length (write_header type n) = 4"
  by (simp add: write_header_def)

lemma write_header_nonempty [simp]: "write_header type n \<noteq> []"
  by (simp add: write_header_def)

lemma store_little_3: "store_little 3 n = [of_nat n, of_nat (n div 256), of_nat (n div 65536)]"
  by (simp add: store_little_def upt_conv_Cons power2_eq_square)

lemma load_store_u24:
  assumes "n < 2 ^ 24"
  shows "load_little_u24 (store_little 3 n @ rest) = n"
proof -
  have "n div 65536 < 256" using assms by (simp add: div_less_iff_less_mult)
  then have m: "n div 65536 mod 256 = n div 65536" by simp
  have "256 * (n div 256) + n mod 256 = n" "256 * (n div 65536) + n div 256 mod 256 = n div 256"
    using mult_div_mod_eq[of 256 n] mult_div_mod_eq[of 256 "n div 256"] by (simp_all add: div_mult2_eq[symmetric])
  then have "n mod 256 + 256 * (n div 256 mod 256) + 65536 * (n div 65536 mod 256) = n" unfolding m by linarith
  then show ?thesis
    by (simp add: load_little_u24_def store_little_3 unat_of_nat m)
qed

text \<open>What the loop does with the chunk in front of it.\<close>

definition chunk_result :: "SnappyLib \<Rightarrow> nat \<Rightarrow> bytes \<Rightarrow> 8 word \<Rightarrow> bytes \<Rightarrow> bytes result" where
  "chunk_result lib max_size acc type content =
     (if type = ChunkType_Stream then
        if content \<noteq> kStreamIdentifier then Inl (E_SNAPPY UNCOMPRESS_UNKNOWN_IDENTIFIER) else Inr []
      else if type = ChunkType_Compressed \<or> type = ChunkType_Uncompressed then
        if length content < 4 then Inl (Exn UndefinedBehaviour)
        else
          OUTCOME_TRY
            (if type = ChunkType_Compressed then uncompress lib (drop 4 content) (max_size - length acc) else Inr (drop 4 content))
            (\<lambda>u. if hashCrc32 lib u \<noteq> take 4 content then Inl (E_SNAPPY UNCOMPRESS_CRC_MISMATCH) else Inr u)
      else if type = ChunkType_Padding then Inr []
      else Inl (E_SNAPPY UNCOMPRESS_UNKNOWN_TYPE))"

lemma uncompress_chunks_unfold:
  "uncompress_chunks lib max_size acc compressed =
     (if compressed = [] then Inr acc
      else if length compressed < 4 \<or> length compressed < 4 + load_little_u24 (drop 1 compressed)
      then Inl (E_SNAPPY UNCOMPRESS_TRUNCATED)
      else let n = load_little_u24 (drop 1 compressed) in
        OUTCOME_TRY (chunk_result lib max_size acc (compressed ! 0) (take n (drop 4 compressed)))
          (\<lambda>u. uncompress_chunks lib max_size (acc @ u) (drop (4 + n) compressed)))"
proof -
  have assoc: "OUTCOME_TRY (OUTCOME_TRY r f) g = OUTCOME_TRY r (\<lambda>x. OUTCOME_TRY (f x) g)" for r :: "bytes result" and f g
    by (cases r) auto
  have cond: "OUTCOME_TRY (if b then Inl err else Inr x) g = (if b then Inl err else g x)"
    for b :: bool and err x and g :: "bytes \<Rightarrow> bytes result" by simp
  show ?thesis
    unfolding chunk_result_def
    by (subst uncompress_chunks.simps)
       (auto simp: chunkNeedBytes_def kHeaderSize_def Let_def assoc cond chunk_types simp del: drop_drop split: option.splits)
qed

lemma uncompress_chunk:
  assumes "length content < 2 ^ 24"
  shows "uncompress_chunks lib max_size acc (write_header type (length content) @ content @ rest) =
           OUTCOME_TRY (chunk_result lib max_size acc type content)
             (\<lambda>u. uncompress_chunks lib max_size (acc @ u) rest)"
proof -
  let ?c = "write_header type (length content) @ content @ rest"
  have "load_little_u24 (drop 1 ?c) = length content" using load_store_u24[OF assms] by (simp add: write_header_def)
  moreover have "drop 4 ?c = content @ rest" "?c \<noteq> []" "?c ! 0 = type" by (simp_all add: write_header_def)
  moreover have "drop (4 + length content) ?c = rest" by simp
  ultimately show ?thesis
    by (subst uncompress_chunks_unfold) (simp add: Let_def)
qed

subsection \<open>Round trip\<close>

text \<open>
  What is used of the libraries: Snappy unpacks what it packed, for the blocks of at most
  64 KiB that the frames hold, within its documented size bound; and a varint is read back.
\<close>

definition snappy_ok :: "SnappyLib \<Rightarrow> bool" where
  "snappy_ok lib \<longleftrightarrow>
     (\<forall>b. length b \<le> kMaxBlockSize \<longrightarrow>
          sl_GetUncompressedLength lib (sl_Compress lib b) = Some (length b) \<and>
          sl_Uncompress lib (sl_Compress lib b) = Some b \<and>
          length (sl_Compress lib b) \<le> 32 + length b + length b div 6)"

definition varint_ok :: "SnappyLib \<Rightarrow> bool" where
  "varint_ok lib \<longleftrightarrow> (\<forall>n rest. sl_readVarint lib (sl_EncodeVarint lib n @ rest) = Some (n, rest))"

lemma uncompress_compress:
  "snappy_ok lib \<Longrightarrow> length b \<le> kMaxBlockSize \<Longrightarrow> length b \<le> max_size \<Longrightarrow> uncompress lib (compress lib b) max_size = Inr b"
  by (simp add: snappy_ok_def uncompress_def compress_def)

lemma chunk_result_compressed:
  assumes "snappy_ok lib" "length b \<le> kMaxBlockSize" "length acc + length b \<le> max_size"
  shows "chunk_result lib max_size acc ChunkType_Compressed (hashCrc32 lib b @ compress lib b) = Inr b"
proof -
  have "uncompress lib (compress lib b) (max_size - length acc) = Inr b"
    using assms by (intro uncompress_compress) auto
  then show ?thesis by (simp add: chunk_result_def chunk_types)
qed

lemma block_length:
  "snappy_ok lib \<Longrightarrow> length (hashCrc32 lib b @ compress lib (take kMaxBlockSize input)) < 2 ^ 24"
proof -
  assume ok: "snappy_ok lib"
  let ?b = "take kMaxBlockSize input"
  have kmax: "length ?b \<le> kMaxBlockSize" by simp
  then have "length ?b \<le> 65536" by (simp add: kMaxBlockSize_def)
  then have "length ?b div 6 \<le> 65536" using div_le_dividend[of "length ?b" 6] by linarith
  with \<open>length ?b \<le> 65536\<close> have "length (compress lib ?b) \<le> 32 + 65536 + 65536"
    using ok kmax unfolding snappy_ok_def compress_def by (meson add_mono le_trans order_refl)
  then show ?thesis by simp
qed

lemma uncompress_frame_chunks:
  "snappy_ok lib \<Longrightarrow> length acc + length x \<le> max_size \<Longrightarrow>
   uncompress_chunks lib max_size acc (frame_chunks lib x @ rest) = uncompress_chunks lib max_size (acc @ x) rest"
proof (induction lib x arbitrary: acc rule: frame_chunks.induct)
  case (1 lib x)
  show ?case
  proof (cases "x = []")
    case False
    let ?b = "take kMaxBlockSize x" and ?x = "drop kMaxBlockSize x"
    let ?content = "hashCrc32 lib ?b @ compress lib ?b"
    have len: "length ?b + length ?x = length x" by simp
    have "frame_chunks lib x = write_header ChunkType_Compressed (length ?content) @ ?content @ frame_chunks lib ?x"
      using False by (subst frame_chunks.simps) (simp add: Let_def)
    moreover have "chunk_result lib max_size acc ChunkType_Compressed ?content = Inr ?b"
      using 1(2,3) by (intro chunk_result_compressed) auto
    moreover have "uncompress_chunks lib max_size (acc @ ?b) (frame_chunks lib ?x @ rest) =
                   uncompress_chunks lib max_size ((acc @ ?b) @ ?x) rest"
      using 1(2,3) len by (intro 1(1)[OF False refl refl refl]) auto
    ultimately show ?thesis using uncompress_chunk[OF block_length[OF 1(2)]] by simp
  qed (simp add: frame_chunks.simps)
qed

lemma uncompressFramed_compressFramed:
  assumes "snappy_ok lib" "length x \<le> max_size"
  shows "uncompressFramed lib (compressFramed lib x) max_size = Inr x"
proof -
  have "length kStreamIdentifier < 2 ^ 24" by (simp add: kStreamIdentifier_def)
  from uncompress_chunk[OF this, of lib max_size "[]" ChunkType_Stream "frame_chunks lib x"]
  have "uncompressFramed lib (compressFramed lib x) max_size = uncompress_chunks lib max_size [] (frame_chunks lib x @ [])"
    by (simp add: uncompressFramed_def compressFramed_def chunk_result_def)
  also have "\<dots> = Inr x"
    using uncompress_frame_chunks[OF assms(1), of "[]" x max_size "[]"] assms(2) by (simp add: uncompress_chunks.simps[of _ _ _ "[]"])
  finally show ?thesis .
qed

text \<open>One round of the loop on a stream.\<close>

lemma co_chunk:
  assumes "length content < 2 ^ 24" "length acc < n"
    and "chunk_result lib (n - length acc) [] type content = Inr u"
  shows "co_chunks lib n acc (s\<lparr>st_in := write_header type (length content) @ content @ rest\<rparr>) =
           co_chunks lib n (acc @ u) (s\<lparr>st_in := rest\<rparr>)"
proof -
  have "load_little_u24 (drop 1 (write_header type (length content))) = length content"
    using load_store_u24[OF assms(1), of "[]"] by (simp add: write_header_def)
  then have "chunkNeedBytes (write_header type (length content)) = Some (4 + length content)"
    by (simp add: chunkNeedBytes_def kHeaderSize_def)
  moreover have "uncompressFramed lib (write_header type (length content) @ content) (n - length acc) = Inr u"
    using uncompress_chunk[OF assms(1), of lib "n - length acc" "[]" type "[]"] assms(3)
    by (simp add: uncompressFramed_def uncompress_chunks.simps[of _ _ _ "[]"])
  ultimately show ?thesis using assms(2)
    by (subst co_chunks.simps) (simp add: stream_read_def kHeaderSize_def)
qed

lemma co_frame_chunks:
  "snappy_ok lib \<Longrightarrow> n = length acc + length x \<Longrightarrow>
   co_chunks lib n acc (s\<lparr>st_in := frame_chunks lib x @ rest\<rparr>) = (Inr (acc @ x), s\<lparr>st_in := rest\<rparr>)"
proof (induction lib x arbitrary: acc rule: frame_chunks.induct)
  case (1 lib x)
  show ?case
  proof (cases "x = []")
    case True
    with 1 show ?thesis by (subst co_chunks.simps) (simp add: frame_chunks.simps)
  next
    case False
    let ?b = "take kMaxBlockSize x" and ?x = "drop kMaxBlockSize x"
    let ?content = "hashCrc32 lib ?b @ compress lib ?b"
    have len: "length ?b + length ?x = length x" by simp
    have "frame_chunks lib x = write_header ChunkType_Compressed (length ?content) @ ?content @ frame_chunks lib ?x"
      using False by (subst frame_chunks.simps) (simp add: Let_def)
    moreover have "chunk_result lib (n - length acc) [] ChunkType_Compressed ?content = Inr ?b"
      using 1(2,3) by (intro chunk_result_compressed) auto
    moreover have "co_chunks lib n (acc @ ?b) (s\<lparr>st_in := frame_chunks lib ?x @ rest\<rparr>) =
                   (Inr ((acc @ ?b) @ ?x), s\<lparr>st_in := rest\<rparr>)"
      using 1(2,3) len by (intro 1(1)[OF False refl refl refl]) auto
    ultimately show ?thesis
      using co_chunk[OF block_length[OF 1(2)]] False 1(3) by simp
  qed
qed


subsection \<open>Properties\<close>

text \<open>What a message is on the wire.\<close>

definition framed_message :: "SnappyLib \<Rightarrow> bytes \<Rightarrow> bytes" where
  "framed_message lib message = sl_EncodeVarint lib (length message) @ compressFramed lib message"

lemma coCompressFramed_run:
  "\<not> st_reset s \<Longrightarrow> coCompressFramed lib message s = (Inr (), s\<lparr>st_out := st_out s @ framed_message lib message\<rparr>)"
  by (simp add: coCompressFramed_def Let_def TRY_def stream_write_def framed_message_def)

lemma coUncompressFramed_run:
  assumes "snappy_ok lib" "varint_ok lib" "message \<noteq> []" "length message \<le> max_size"
  shows "coUncompressFramed lib max_size (s\<lparr>st_in := framed_message lib message @ rest\<rparr>) = (Inr message, s\<lparr>st_in := rest\<rparr>)"
proof -
  have id: "length kStreamIdentifier < 2 ^ 24" by (simp add: kStreamIdentifier_def)
  let ?s = "s\<lparr>st_in := compressFramed lib message @ rest\<rparr>"
  have "readVarint lib (s\<lparr>st_in := framed_message lib message @ rest\<rparr>) = (Inr (length message), ?s)"
    using assms(2) by (simp add: readVarint_def framed_message_def varint_ok_def)
  moreover have "co_chunks lib (length message) [] ?s = co_chunks lib (length message) [] (s\<lparr>st_in := frame_chunks lib message @ rest\<rparr>)"
    using co_chunk[OF id, where acc = "[]" and n = "length message" and lib = lib and type = ChunkType_Stream and u = "[]"
        and s = s and rest = "frame_chunks lib message @ rest"] assms(3)
    by (simp add: compressFramed_def chunk_result_def)
  moreover have "co_chunks lib (length message) [] (s\<lparr>st_in := frame_chunks lib message @ rest\<rparr>) = (Inr message, s\<lparr>st_in := rest\<rparr>)"
    using co_frame_chunks[OF assms(1), where n = "length message" and acc = "[]" and x = message] by simp
  ultimately show ?thesis using assms(4) by (simp add: coUncompressFramed_def TRY_def)
qed

text \<open>
  C25. A message that one node writes to a stream is the message that the other reads.  On
  what \<^verbatim>\<open>coCompressFramed\<close> has written, any number of blocks of 64 KiB,
  \<^verbatim>\<open>coUncompressFramed\<close> returns the message and leaves the stream exactly behind
  it, so that further messages can follow.  The limit is on the message, not on a chunk: a
  message of at most the limit is read, a longer one is refused with
  \<^verbatim>\<open>UNCOMPRESS_TOO_LONG\<close> before any chunk is read.
\<close>

theorem snappy_stream_roundtrip:
  assumes "snappy_ok lib" "varint_ok lib" "message \<noteq> []" "\<not> st_reset w"
  shows "\<exists>wire. coCompressFramed lib message w = (Inr (), w\<lparr>st_out := st_out w @ wire\<rparr>) \<and>
           uncompressFramed lib (compressFramed lib message) (length message) = Inr message \<and>
           (if length message \<le> max_size
            then coUncompressFramed lib max_size (r\<lparr>st_in := wire @ rest\<rparr>) = (Inr message, r\<lparr>st_in := rest\<rparr>)
            else coUncompressFramed lib max_size (r\<lparr>st_in := wire @ rest\<rparr>) =
                   (Inl (E_SNAPPY UNCOMPRESS_TOO_LONG), r\<lparr>st_in := compressFramed lib message @ rest\<rparr>))"
proof (intro exI conjI)
  show "coCompressFramed lib message w = (Inr (), w\<lparr>st_out := st_out w @ framed_message lib message\<rparr>)"
    using assms(4) by (rule coCompressFramed_run)
  show "uncompressFramed lib (compressFramed lib message) (length message) = Inr message"
    using assms(1) by (simp add: uncompressFramed_compressFramed)
  show "if length message \<le> max_size
        then coUncompressFramed lib max_size (r\<lparr>st_in := framed_message lib message @ rest\<rparr>) = (Inr message, r\<lparr>st_in := rest\<rparr>)
        else coUncompressFramed lib max_size (r\<lparr>st_in := framed_message lib message @ rest\<rparr>) =
               (Inl (E_SNAPPY UNCOMPRESS_TOO_LONG), r\<lparr>st_in := compressFramed lib message @ rest\<rparr>)"
    using coUncompressFramed_run[OF assms(1-3)] assms(2)
    by (simp add: coUncompressFramed_def TRY_def readVarint_def varint_ok_def framed_message_def FAIL_def)
qed

text \<open>A library that stores the bytes as they are, with one byte of length on the stream.\<close>

definition demo_snappy :: SnappyLib where
  "demo_snappy = \<lparr>sl_Compress = (\<lambda>b. b), sl_GetUncompressedLength = (\<lambda>b. Some (length b)), sl_Uncompress = Some,
     sl_Crc32c = (\<lambda>b. sum_list (map ucast b)),
     sl_EncodeVarint = (\<lambda>n. replicate n 1 @ [0]),
     sl_readVarint = (\<lambda>b. Some (length (takeWhile (\<lambda>x. x = 1) b), drop (Suc (length (takeWhile (\<lambda>x. x = 1) b))) b))\<rparr>"

lemma demo_snappy_ok: "snappy_ok demo_snappy" "varint_ok demo_snappy"
proof -
  show "snappy_ok demo_snappy" by (simp add: snappy_ok_def demo_snappy_def)
  have "takeWhile (\<lambda>x. x = 1) (replicate n 1 @ (0 :: 8 word) # rest) = replicate n 1" for n rest
    by (induction n) auto
  then show "varint_ok demo_snappy" by (simp add: varint_ok_def demo_snappy_def)
qed

theorem snappy_stream_roundtrip_witness:
  "\<exists>wire. coCompressFramed demo_snappy [1, 2, 3] \<lparr>st_in = [], st_out = [], st_reset = False\<rparr> =
             (Inr (), \<lparr>st_in = [], st_out = wire, st_reset = False\<rparr>) \<and>
     coUncompressFramed demo_snappy 3 \<lparr>st_in = wire @ [7], st_out = [], st_reset = False\<rparr> =
       (Inr [1, 2, 3], \<lparr>st_in = [7], st_out = [], st_reset = False\<rparr>)"
  using snappy_stream_roundtrip[OF demo_snappy_ok, where message = "[1, 2, 3]" and w = "\<lparr>st_in = [], st_out = [], st_reset = False\<rparr>"
      and max_size = 3 and r = "\<lparr>st_in = [], st_out = [], st_reset = False\<rparr>" and rest = "[7]"]
  by auto

text \<open>The bound on what a peer can make a node unpack: the announced length is the length.\<close>

definition length_honest :: "SnappyLib \<Rightarrow> bool" where
  "length_honest lib \<longleftrightarrow>
     (\<forall>c n u. sl_GetUncompressedLength lib c = Some n \<and> sl_Uncompress lib c = Some u \<longrightarrow> length u = n)"

lemma chunk_result_bound:
  assumes "length_honest lib"
    and "chunk_result lib max_size acc type content = Inr u"
  shows "length acc + length u \<le> max max_size (length acc) + length content"
proof -
  have bound: "length v \<le> m" if "uncompress lib c m = Inr v" for c m v
    using that assms(1) by (auto simp: uncompress_def length_honest_def split: option.splits if_splits)
  show ?thesis
    using assms(2) by (auto simp: chunk_result_def OUTCOME_TRY_eq_Inr dest!: bound split: if_splits)
qed

lemma uncompress_chunks_bound:
  assumes lib: "length_honest lib"
  shows "uncompress_chunks lib max_size acc compressed = Inr r \<Longrightarrow> length r \<le> max max_size (length acc) + length compressed"
proof (induction "length compressed" arbitrary: acc compressed rule: less_induct)
  case less
  show ?case
  proof (cases "compressed = []")
    case False
    let ?n = "load_little_u24 (drop 1 compressed)"
    have sz: "4 + ?n \<le> length compressed" and
      "OUTCOME_TRY (chunk_result lib max_size acc (compressed ! 0) (take ?n (drop 4 compressed)))
          (\<lambda>u. uncompress_chunks lib max_size (acc @ u) (drop (4 + ?n) compressed)) = Inr r"
      using less.prems False by (simp_all add: uncompress_chunks_unfold[of _ _ _ compressed] Let_def split: if_splits)
    then obtain u where u: "chunk_result lib max_size acc (compressed ! 0) (take ?n (drop 4 compressed)) = Inr u"
      "uncompress_chunks lib max_size (acc @ u) (drop (4 + ?n) compressed) = Inr r"
      unfolding OUTCOME_TRY_eq_Inr by blast
    have "length r \<le> max max_size (length (acc @ u)) + length (drop (4 + ?n) compressed)"
      using less.hyps[OF _ u(2)] False by simp
    moreover have "length acc + length u \<le> max max_size (length acc) + ?n"
      using chunk_result_bound[OF lib u(1)] sz by simp
    ultimately show ?thesis using sz unfolding length_append length_drop by linarith
  qed (use less.prems in \<open>simp add: uncompress_chunks.simps[of _ _ _ "[]"]\<close>)
qed

lemma short_chunk_undefined:
  assumes "type \<in> {ChunkType_Compressed, ChunkType_Uncompressed}" "length short < 4"
  shows "uncompress_chunks lib max_size acc (write_header type (length short) @ short @ rest) = Inl (Exn UndefinedBehaviour)"
proof -
  have "chunk_result lib max_size acc type short = Inl (Exn UndefinedBehaviour)"
    using assms by (auto simp: chunk_result_def chunk_types)
  then show ?thesis using uncompress_chunk[of short lib max_size acc type rest] assms(2) by simp
qed

lemma uncompressed_chunk_kept:
  assumes "length long < 2 ^ 23"
  shows "uncompress_chunks lib max_size []
           (write_header ChunkType_Uncompressed (4 + length long) @ hashCrc32 lib long @ long) = Inr long"
proof -
  have "chunk_result lib max_size [] ChunkType_Uncompressed (hashCrc32 lib long @ long) = Inr long"
    by (simp add: chunk_result_def chunk_types)
  moreover have "length (hashCrc32 lib long @ long) < 2 ^ 24" using assms by simp
  ultimately show ?thesis
    using uncompress_chunk[of "hashCrc32 lib long @ long" lib max_size "[]" ChunkType_Uncompressed "[]"]
    by (simp add: uncompress_chunks.simps[of _ _ _ "[]"])
qed

text \<open>
  C26. The limit of \<^verbatim>\<open>uncompressFramed\<close> holds up to the size of the input: only
  compressed chunks are held to it, an uncompressed chunk is appended whatever its length.  And a
  data chunk whose content is shorter than its checksum is not rejected: the code takes the first
  four bytes of the content and what follows them, which is undefined behaviour on a peer's
  input.
\<close>

theorem uncompressFramed_limits:
  assumes "length_honest lib"
  shows "(\<forall>compressed r. uncompressFramed lib compressed max_size = Inr r \<longrightarrow> length r \<le> max_size + length compressed) \<and>
         (\<forall>long. length long < 2 ^ 23 \<longrightarrow>
            uncompressFramed lib (write_header ChunkType_Uncompressed (4 + length long) @ hashCrc32 lib long @ long) max_size
              = Inr long) \<and>
         (\<forall>type short rest. type \<in> {ChunkType_Compressed, ChunkType_Uncompressed} \<and> length short < 4 \<longrightarrow>
            uncompressFramed lib (write_header type (length short) @ short @ rest) max_size = Inl (Exn UndefinedBehaviour))"
  using uncompress_chunks_bound[OF assms, where acc = "[]"] uncompressed_chunk_kept short_chunk_undefined
  unfolding uncompressFramed_def by (fastforce intro!: conjI)

theorem uncompressFramed_limits_witness:
  "uncompressFramed demo_snappy (write_header 0 1 @ [42]) 4 = Inl (Exn UndefinedBehaviour) \<and>
   uncompressFramed demo_snappy (write_header 1 6 @ hashCrc32 demo_snappy [7, 8] @ [7, 8]) 0 = Inr [7, 8]"
proof -
  have lib: "length_honest demo_snappy" by (simp add: length_honest_def demo_snappy_def)
  have "uncompressFramed demo_snappy (write_header 0 (length [42]) @ [42] @ []) 4 = Inl (Exn UndefinedBehaviour)"
    using uncompressFramed_limits[OF lib, where max_size = 4, THEN conjunct2, THEN conjunct2, rule_format, of 0 "[42]" "[]"]
    unfolding chunk_types by simp
  moreover have "uncompressFramed demo_snappy (write_header 1 (4 + length [7, 8]) @ hashCrc32 demo_snappy [7, 8] @ [7, 8]) 0 = Inr [7, 8]"
    using uncompressFramed_limits[OF lib, where max_size = 0, THEN conjunct2, THEN conjunct1, rule_format, of "[7, 8]"]
    unfolding chunk_types by simp
  ultimately show ?thesis by simp
qed

end
