(* ===== verification/ReqResp.thy ===== *)
theory ReqResp
  imports Snappy BlockTree
begin

text \<open>
  The request and response protocols between peers:
  \<^verbatim>\<open>modules/networking/block_request_protocol.cpp\<close>,
  \<^verbatim>\<open>status_protocol.cpp\<close> and \<^verbatim>\<open>response_status.hpp\<close>.  A coroutine
  is an action on its stream; the two sides of an exchange are composed by giving each one, as
  the bytes that it will read, what the other writes.  The SSZ codec of the messages and the
  opening of a stream are libraries and parameters.
\<close>

record WireCodec =
  wc_encodeRequest :: "hash list \<Rightarrow> bytes"
  wc_decodeRequest :: "bytes \<Rightarrow> hash list result"
  wc_encodeBlock :: "SignedBlock \<Rightarrow> bytes"
  wc_decodeBlock :: "bytes \<Rightarrow> SignedBlock result"

record StatusMessage =
  sm_finalized :: Checkpoint
  sm_head :: Checkpoint

subsection \<open>Response status\<close>

definition writeResponseStatus :: "(NetStream, unit) action" where
  "writeResponseStatus = stream_write [0]"

definition readResponseStatus :: "(NetStream, unit) action" where
  "readResponseStatus = TRY (stream_read 1) (\<lambda>_. OK ())"

subsection \<open>Blocks by root\<close>

text \<open>\<open>newStream\<close> is what \<^verbatim>\<open>host_->newStream\<close> returned.\<close>

definition BlockRequest_request ::
  "SnappyLib \<Rightarrow> WireCodec \<Rightarrow> NetStream result \<Rightarrow> hash list \<Rightarrow> SignedBlock result \<times> NetStream option" where
  "BlockRequest_request lib wire newStream roots =
     (case newStream of
        Inl err \<Rightarrow> (Inl err, None)
      | Inr stream \<Rightarrow>
          map_prod id Some
            (TRY (coCompressFramed lib (wc_encodeRequest wire roots)) (\<lambda>_.
             TRY readResponseStatus (\<lambda>_.
             TRY (coUncompressFramed lib kDefaultMaxSize) (\<lambda>encoded.
             LIFT (wc_decodeBlock wire encoded)))) stream))"

definition BlockRequest_coroRespond ::
  "SnappyLib \<Rightarrow> WireCodec \<Rightarrow> ssz \<Rightarrow> 's SpacedStorage \<Rightarrow> 's BlockTree \<Rightarrow> (NetStream, unit) action" where
  "BlockRequest_coroRespond lib wire z db tree =
     TRY (coUncompressFramed lib kDefaultMaxSize) (\<lambda>encoded.
     TRY (LIFT (wc_decodeRequest wire encoded)) (\<lambda>roots.
     FOREACH (\<lambda>block_hash.
       TRY (LIFT (tryGetSignedBlock z db block_hash tree)) (\<lambda>block.
       case block of
         None \<Rightarrow> OK ()
       | Some b \<Rightarrow> TRY writeResponseStatus (\<lambda>_. coCompressFramed lib (wc_encodeBlock wire b)))) roots))"

subsection \<open>Status\<close>

text \<open>
  The state is the list of the statuses handed to \<^verbatim>\<open>on_status_\<close> with the stream.
\<close>

definition ON_STREAM :: "(NetStream, 'a) action \<Rightarrow> (StatusMessage list \<times> NetStream, 'a) action" where
  "ON_STREAM m s = (case m (snd s) of (r, stream) \<Rightarrow> (r, fst s, stream))"

definition Status_read ::
  "SnappyLib \<Rightarrow> (bytes \<Rightarrow> StatusMessage result) \<Rightarrow> (StatusMessage list \<times> NetStream, unit) action" where
  "Status_read lib dec =
     TRY (ON_STREAM (coUncompressFramed lib kDefaultMaxSize)) (\<lambda>encoded.
     TRY (LIFT (dec encoded)) (\<lambda>status s. (Inr (), fst s @ [status], snd s)))"

definition Status_write ::
  "SnappyLib \<Rightarrow> (StatusMessage \<Rightarrow> bytes) \<Rightarrow> StatusMessage \<Rightarrow> (StatusMessage list \<times> NetStream, unit) action" where
  "Status_write lib enc status = ON_STREAM (coCompressFramed lib (enc status))"

definition Status_connect ::
  "SnappyLib \<Rightarrow> (StatusMessage \<Rightarrow> bytes) \<Rightarrow> (bytes \<Rightarrow> StatusMessage result) \<Rightarrow> StatusMessage
    \<Rightarrow> (StatusMessage list \<times> NetStream, unit) action" where
  "Status_connect lib enc dec status =
     TRY (Status_write lib enc status) (\<lambda>_.
     TRY (ON_STREAM readResponseStatus) (\<lambda>_.
     Status_read lib dec))"

definition Status_coroHandle ::
  "SnappyLib \<Rightarrow> (StatusMessage \<Rightarrow> bytes) \<Rightarrow> (bytes \<Rightarrow> StatusMessage result) \<Rightarrow> StatusMessage
    \<Rightarrow> (StatusMessage list \<times> NetStream, unit) action" where
  "Status_coroHandle lib enc dec status =
     TRY (Status_read lib dec) (\<lambda>_.
     TRY (ON_STREAM writeResponseStatus) (\<lambda>_.
     Status_write lib enc status))"

subsection \<open>Exchanges\<close>

text \<open>A message that the codec returns and that fits the limit.\<close>

definition sendable :: "('a \<Rightarrow> bytes) \<Rightarrow> (bytes \<Rightarrow> 'a result) \<Rightarrow> 'a \<Rightarrow> bool" where
  "sendable enc dec x \<longleftrightarrow>
     dec (enc x) = Inr x \<and> enc x \<noteq> [] \<and> length (enc x) \<le> kDefaultMaxSize"

definition fresh_stream :: "bytes \<Rightarrow> NetStream" where
  "fresh_stream inbound = \<lparr>st_in = inbound, st_out = [], st_reset = False\<rparr>"

lemma receive_message:
  assumes "snappy_ok lib" "varint_ok lib" "sendable enc dec x"
  shows "coUncompressFramed lib kDefaultMaxSize \<lparr>st_in = framed_message lib (enc x) @ rest, st_out = out, st_reset = b\<rparr> =
           (Inr (enc x), \<lparr>st_in = rest, st_out = out, st_reset = b\<rparr>)"
  using coUncompressFramed_run[OF assms(1,2), where message = "enc x" and max_size = kDefaultMaxSize and s = "\<lparr>st_in = [], st_out = out, st_reset = b\<rparr>"]
    assms(3) by (simp add: sendable_def)

text \<open>
  The answer to the roots: their blocks, in the order of the roots, up to the first lookup that
  fails.
\<close>

fun answered_blocks :: "ssz \<Rightarrow> 's SpacedStorage \<Rightarrow> 's BlockTree \<Rightarrow> hash list \<Rightarrow> SignedBlock list" where
  "answered_blocks z db tree [] = []"
| "answered_blocks z db tree (h # hs) =
     (case tryGetSignedBlock z db h tree of
        Inl _ \<Rightarrow> []
      | Inr None \<Rightarrow> answered_blocks z db tree hs
      | Inr (Some b) \<Rightarrow> b # answered_blocks z db tree hs)"

fun lookup_outcome :: "ssz \<Rightarrow> 's SpacedStorage \<Rightarrow> 's BlockTree \<Rightarrow> hash list \<Rightarrow> unit result" where
  "lookup_outcome z db tree [] = Inr ()"
| "lookup_outcome z db tree (h # hs) =
     (case tryGetSignedBlock z db h tree of Inl err \<Rightarrow> Inl err | Inr _ \<Rightarrow> lookup_outcome z db tree hs)"

definition responses :: "SnappyLib \<Rightarrow> WireCodec \<Rightarrow> SignedBlock list \<Rightarrow> bytes" where
  "responses lib wire blocks = concat (map (\<lambda>b. 0 # framed_message lib (wc_encodeBlock wire b)) blocks)"

lemma respond_roots:
  "\<not> st_reset s \<Longrightarrow>
   FOREACH (\<lambda>block_hash.
       TRY (LIFT (tryGetSignedBlock z db block_hash tree)) (\<lambda>block.
       case block of
         None \<Rightarrow> OK ()
       | Some b \<Rightarrow> TRY writeResponseStatus (\<lambda>_. coCompressFramed lib (wc_encodeBlock wire b)))) roots s =
     (lookup_outcome z db tree roots, s\<lparr>st_out := st_out s @ responses lib wire (answered_blocks z db tree roots)\<rparr>)"
proof (induction roots arbitrary: s)
  case (Cons h hs)
  show ?case
  proof (cases "tryGetSignedBlock z db h tree")
    case (Inl err)
    then show ?thesis by (simp add: TRY_def LIFT_def responses_def)
  next
    case block: (Inr block)
    show ?thesis
    proof (cases block)
      case None
      with Cons block show ?thesis by (simp add: TRY_def LIFT_def OK_def)
    next
      case (Some b)
      let ?s = "s\<lparr>st_out := (st_out s @ [0]) @ framed_message lib (wc_encodeBlock wire b)\<rparr>"
      have "coCompressFramed lib (wc_encodeBlock wire b) (s\<lparr>st_out := st_out s @ [0]\<rparr>) = (Inr (), ?s)"
        using coCompressFramed_run[of "s\<lparr>st_out := st_out s @ [0]\<rparr>"] Cons.prems by simp
      with Cons.IH[of ?s] Cons.prems block Some show ?thesis
        by (simp add: TRY_def LIFT_def writeResponseStatus_def stream_write_def responses_def)
    qed
  qed
qed (simp add: OK_def responses_def)

text \<open>
  C24. What a peer that asks for blocks gets.  Run against each other over one stream,
  \<^verbatim>\<open>coroRespond\<close> reads the request and writes, in the order of the roots, one
  status byte and the block for every root it finds, until a lookup fails, and ends with the error
  of that lookup; and \<^verbatim>\<open>request\<close> returns the first of these blocks, or the
  error of the ended stream when there is none.  It reads nothing of the other blocks.
\<close>

theorem block_request_served:
  assumes "snappy_ok lib" "varint_ok lib"
    and "sendable (wc_encodeRequest wire) (wc_decodeRequest wire) roots"
    and "\<forall>b \<in> set (answered_blocks z db tree roots). sendable (wc_encodeBlock wire) (wc_decodeBlock wire) b"
  shows "\<exists>asked answered.
    BlockRequest_coroRespond lib wire z db tree (fresh_stream asked) =
      (lookup_outcome z db tree roots, \<lparr>st_in = [], st_out = answered, st_reset = False\<rparr>) \<and>
    (case answered_blocks z db tree roots of
       [] \<Rightarrow> BlockRequest_request lib wire (Inr (fresh_stream answered)) roots =
               (Inl (E_EXTERNAL 0), Some \<lparr>st_in = [], st_out = asked, st_reset = False\<rparr>)
     | b # bs \<Rightarrow> BlockRequest_request lib wire (Inr (fresh_stream answered)) roots =
               (Inr b, Some \<lparr>st_in = responses lib wire bs, st_out = asked, st_reset = False\<rparr>))"
proof (intro exI conjI)
  let ?asked = "framed_message lib (wc_encodeRequest wire roots)"
  let ?blocks = "answered_blocks z db tree roots"
  let ?answered = "responses lib wire ?blocks"
  have "coUncompressFramed lib kDefaultMaxSize (fresh_stream ?asked) = (Inr (wc_encodeRequest wire roots), fresh_stream [])"
    using receive_message[OF assms(1,2,3), of "[]"] by (simp add: fresh_stream_def)
  then show "BlockRequest_coroRespond lib wire z db tree (fresh_stream ?asked) =
        (lookup_outcome z db tree roots, \<lparr>st_in = [], st_out = ?answered, st_reset = False\<rparr>)"
    using assms(3) respond_roots[of "fresh_stream []"]
    by (simp add: BlockRequest_coroRespond_def TRY_def LIFT_def sendable_def fresh_stream_def)
  have sent: "coCompressFramed lib (wc_encodeRequest wire roots) (fresh_stream inbound) =
      (Inr (), \<lparr>st_in = inbound, st_out = ?asked, st_reset = False\<rparr>)" for inbound
    by (subst coCompressFramed_run) (simp_all add: fresh_stream_def)
  show "case ?blocks of
       [] \<Rightarrow> BlockRequest_request lib wire (Inr (fresh_stream ?answered)) roots =
               (Inl (E_EXTERNAL 0), Some \<lparr>st_in = [], st_out = ?asked, st_reset = False\<rparr>)
     | b # bs \<Rightarrow> BlockRequest_request lib wire (Inr (fresh_stream ?answered)) roots =
               (Inr b, Some \<lparr>st_in = responses lib wire bs, st_out = ?asked, st_reset = False\<rparr>)"
  proof (cases ?blocks)
    case Nil
    then show ?thesis
      by (simp add: BlockRequest_request_def TRY_def sent readResponseStatus_def stream_read_def responses_def)
  next
    case (Cons b bs)
    have "sendable (wc_encodeBlock wire) (wc_decodeBlock wire) b" using assms(4) Cons by simp
    then show ?thesis
      using receive_message[OF assms(1,2), of _ _ b "responses lib wire bs"] Cons
      by (simp add: BlockRequest_request_def TRY_def sent readResponseStatus_def stream_read_def responses_def OK_def LIFT_def
          sendable_def)
  qed
qed


text \<open>A codec for one request and one block, and a tree that holds the block 13.\<close>

definition demo_wire :: WireCodec where
  "demo_wire = \<lparr>wc_encodeRequest = (\<lambda>_. [1]), wc_decodeRequest = (\<lambda>_. Inr [13]), wc_encodeBlock = (\<lambda>_. [2, 3]),
     wc_decodeBlock = (\<lambda>_. Inr demo_signed_block)\<rparr>"

lemma demo_known:
  "\<exists>tree. tryGetSignedBlock demo_codec in_memory 13 tree = Inr (Some demo_signed_block)"
proof -
  obtain st' where st': "putBlock demo_codec in_memory (BlockData_of demo_codec demo_signed_block) fresh_storage = (Inr 13, st')"
    using demo_putBlock by blast
  have "getSignedBlock demo_codec in_memory 13 st' = Inr demo_signed_block"
    using mem.putBlock_getSignedBlock[OF _ st' demo_decodes] by (simp add: mem.bvalid_def)
  then have "tryGetSignedBlock demo_codec in_memory 13
      \<lparr>bt_storage = st', bt_tree = CachedTree_new \<lparr>bi_slot = 0, bi_hash = 7\<rparr>, bt_genesis_block_hash = None, bt_events = []\<rparr> =
      Inr (Some demo_signed_block)" by (simp add: tryGetSignedBlock_def)
  then show ?thesis by blast
qed

theorem block_request_served_witness:
  "\<exists>tree asked answered.
     BlockRequest_coroRespond demo_snappy demo_wire demo_codec in_memory tree (fresh_stream asked) =
       (Inr (), \<lparr>st_in = [], st_out = answered, st_reset = False\<rparr>) \<and>
     BlockRequest_request demo_snappy demo_wire (Inr (fresh_stream answered)) [13] =
       (Inr demo_signed_block, Some \<lparr>st_in = [], st_out = asked, st_reset = False\<rparr>)"
proof -
  obtain tree where tree: "tryGetSignedBlock demo_codec in_memory 13 tree = Inr (Some demo_signed_block)"
    using demo_known by blast
  have sendable: "sendable (wc_encodeRequest demo_wire) (wc_decodeRequest demo_wire) [13]"
    "sendable (wc_encodeBlock demo_wire) (wc_decodeBlock demo_wire) demo_signed_block"
    by (simp_all add: sendable_def demo_wire_def kDefaultMaxSize_def)
  show ?thesis
    using block_request_served[OF demo_snappy_ok sendable(1), of demo_codec in_memory tree] tree sendable(2)
    by (auto simp: responses_def)
qed

text \<open>
  After a status exchange each side has the status of the other.  The side that connects
  writes its status, reads the status byte and the answer; the other side hands over what it
  reads before it answers.
\<close>

theorem status_exchange:
  assumes "snappy_ok lib" "varint_ok lib" "sendable enc dec mine" "sendable enc dec theirs"
  shows "\<exists>asked answered.
    Status_coroHandle lib enc dec theirs ([], fresh_stream asked) =
      (Inr (), [mine], \<lparr>st_in = [], st_out = answered, st_reset = False\<rparr>) \<and>
    Status_connect lib enc dec mine ([], fresh_stream answered) =
      (Inr (), [theirs], \<lparr>st_in = [], st_out = asked, st_reset = False\<rparr>)"
proof (intro exI conjI)
  let ?asked = "framed_message lib (enc mine)" and ?answered = "0 # framed_message lib (enc theirs)"
  show "Status_coroHandle lib enc dec theirs ([], fresh_stream ?asked) =
      (Inr (), [mine], \<lparr>st_in = [], st_out = ?answered, st_reset = False\<rparr>)"
    using receive_message[OF assms(1-3), of "[]"] assms(3)
    by (simp add: Status_coroHandle_def Status_read_def Status_write_def TRY_def ON_STREAM_def fresh_stream_def LIFT_def
        sendable_def writeResponseStatus_def stream_write_def coCompressFramed_run)
  show "Status_connect lib enc dec mine ([], fresh_stream ?answered) =
      (Inr (), [theirs], \<lparr>st_in = [], st_out = ?asked, st_reset = False\<rparr>)"
    using receive_message[OF assms(1,2,4), of "[]"] assms(4)
    by (simp add: Status_connect_def Status_read_def Status_write_def TRY_def ON_STREAM_def fresh_stream_def LIFT_def OK_def
        sendable_def readResponseStatus_def stream_read_def coCompressFramed_run)
qed


definition demo_status :: "slot \<Rightarrow> StatusMessage" where
  "demo_status slot = \<lparr>sm_finalized = \<lparr>cp_root = 7, cp_slot = 0\<rparr>, sm_head = \<lparr>cp_root = 9, cp_slot = slot\<rparr>\<rparr>"

theorem status_exchange_witness:
  "\<exists>asked answered.
     Status_coroHandle demo_snappy (\<lambda>m. [of_nat (cp_slot (sm_head m))]) (\<lambda>b. Inr (demo_status (unat (hd b)))) (demo_status 5)
         ([], fresh_stream asked) = (Inr (), [demo_status 3], \<lparr>st_in = [], st_out = answered, st_reset = False\<rparr>) \<and>
     Status_connect demo_snappy (\<lambda>m. [of_nat (cp_slot (sm_head m))]) (\<lambda>b. Inr (demo_status (unat (hd b)))) (demo_status 3)
         ([], fresh_stream answered) = (Inr (), [demo_status 5], \<lparr>st_in = [], st_out = asked, st_reset = False\<rparr>)"
  by (rule status_exchange[OF demo_snappy_ok]) (simp_all add: sendable_def demo_status_def kDefaultMaxSize_def)

end
