(* ===== verification/AppState.thy ===== *)
theory AppState
  imports Prelude "HOL-Library.Sublist"
begin

text \<open>
  The life cycle of the application, \<^verbatim>\<open>app/impl/state_manager_impl.cpp\<close>: the thread in
  \<^verbatim>\<open>run\<close>, any number of concurrent calls of \<^verbatim>\<open>shutdown\<close> and the registration
  of callbacks, interleaved at the accesses to the atomic \<^verbatim>\<open>state_\<close>.  The mutex
  \<^verbatim>\<open>mutex_\<close> is recursive, so that while \<^verbatim>\<open>run\<close> holds it only a callback
  can register others.
\<close>

subsection \<open>State\<close>

datatype AppStage = Init | Prepare | ReadyToStart | Starting | Works | ShuttingDown | ReadyToStop

primrec stage_rank :: "AppStage \<Rightarrow> nat" where
  "stage_rank Init = 0"
| "stage_rank Prepare = 1"
| "stage_rank ReadyToStart = 2"
| "stage_rank Starting = 3"
| "stage_rank Works = 4"
| "stage_rank ShuttingDown = 5"
| "stage_rank ReadyToStop = 6"

instantiation AppStage :: linorder
begin

definition less_eq_AppStage :: "AppStage \<Rightarrow> AppStage \<Rightarrow> bool" where
  "less_eq_AppStage a b \<longleftrightarrow> stage_rank a \<le> stage_rank b"

definition less_AppStage :: "AppStage \<Rightarrow> AppStage \<Rightarrow> bool" where
  "less_AppStage a b \<longleftrightarrow> stage_rank a < stage_rank b"

instance
proof
  fix a b :: AppStage
  show "a \<le> b \<Longrightarrow> b \<le> a \<Longrightarrow> a = b" by (cases a; cases b; simp add: less_eq_AppStage_def)
qed (auto simp: less_eq_AppStage_def less_AppStage_def)

end

lemmas stage_less = less_AppStage_def less_eq_AppStage_def

text \<open>
  A callback and what it returns.  Callbacks that throw, whose exception leaves
  \<^verbatim>\<open>run\<close>, are not modelled.
\<close>

record Callback =
  cb_id :: nat
  cb_success :: bool

datatype CallbackQueue = OnPrepare | OnLaunch | OnShutdown

datatype AppEvent = Added CallbackQueue Callback | Called CallbackQueue Callback

text \<open>Where \<^verbatim>\<open>run\<close> is, and where a call of \<^verbatim>\<open>shutdown\<close> is.\<close>

datatype RunPc =
    RunEnter
  | PrepareEnter | PrepareLoop | PrepareCall | PrepareFail | PrepareLeave
  | LaunchEnter | LaunchLoop | LaunchCall | LaunchFail | LaunchLeave
  | RunCheck | RunWait
  | ShutdownEnter | ShutdownLoop | ShutdownCall | ShutdownLeave
  | RunFinal | RunReturn | RunThrow exn

datatype ShutdownPc = LoadReadyToStop | LoadShuttingDown | StoreShuttingDown

record StateManager =
  sm_state :: AppStage
  sm_prepare :: "Callback list"
  sm_launch :: "Callback list"
  sm_shutdown :: "Callback list"
  sm_shared :: bool
  sm_signals_enabled :: bool
  sm_pc :: RunPc
  sm_calls :: "ShutdownPc list"
  sm_log :: "AppEvent list"

definition StateManager_new :: "bool \<Rightarrow> StateManager" where
  "StateManager_new shared =
     \<lparr>sm_state = Init, sm_prepare = [], sm_launch = [], sm_shutdown = [], sm_shared = shared, sm_signals_enabled = True,
      sm_pc = RunEnter, sm_calls = [], sm_log = []\<rparr>"

subsection \<open>Registration\<close>

definition atPrepare :: "Callback \<Rightarrow> StateManager \<Rightarrow> unit result \<times> StateManager" where
  "atPrepare cb s =
     (if sm_state s > Prepare then (Inl (Exn RuntimeError), s)
      else (Inr (), s\<lparr>sm_prepare := sm_prepare s @ [cb], sm_log := sm_log s @ [Added OnPrepare cb]\<rparr>))"

definition atLaunch :: "Callback \<Rightarrow> StateManager \<Rightarrow> unit result \<times> StateManager" where
  "atLaunch cb s =
     (if sm_state s > Starting then (Inl (Exn RuntimeError), s)
      else (Inr (), s\<lparr>sm_launch := sm_launch s @ [cb], sm_log := sm_log s @ [Added OnLaunch cb]\<rparr>))"

definition atShutdown :: "Callback \<Rightarrow> StateManager \<Rightarrow> unit result \<times> StateManager" where
  "atShutdown cb s =
     (if sm_state s > ShuttingDown then (Inl (Exn RuntimeError), s)
      else (Inr (), s\<lparr>sm_shutdown := sm_shutdown s @ [cb], sm_log := sm_log s @ [Added OnShutdown cb]\<rparr>))"

subsection \<open>The steps of run\<close>

definition compare_exchange :: "AppStage \<Rightarrow> AppStage \<Rightarrow> StateManager \<Rightarrow> StateManager" where
  "compare_exchange expected desired s = (if sm_state s = expected then s\<lparr>sm_state := desired\<rparr> else s)"

text \<open>Entering a stage: from the expected state, or past it when the application shuts down.\<close>

definition enter_stage :: "AppStage \<Rightarrow> AppStage \<Rightarrow> RunPc \<Rightarrow> StateManager \<Rightarrow> StateManager" where
  "enter_stage expected desired pc s =
     (if sm_state s = expected then s\<lparr>sm_state := desired, sm_pc := pc\<rparr>
      else if sm_state s = ShuttingDown then s\<lparr>sm_pc := pc\<rparr>
      else s\<lparr>sm_pc := RunThrow RuntimeError\<rparr>)"

fun doPrepare_step :: "RunPc \<Rightarrow> StateManager \<Rightarrow> StateManager" where
  "doPrepare_step PrepareEnter s = enter_stage Init Prepare PrepareLoop s"
| "doPrepare_step PrepareLoop s =
     (if sm_prepare s = [] then s\<lparr>sm_pc := PrepareLeave\<rparr>
      else if sm_state s = Prepare then s\<lparr>sm_pc := PrepareCall\<rparr>
      else s\<lparr>sm_prepare := tl (sm_prepare s)\<rparr>)"
| "doPrepare_step PrepareCall s =
     (let cb = hd (sm_prepare s);
          s = s\<lparr>sm_log := sm_log s @ [Called OnPrepare cb]\<rparr>
      in if cb_success cb then s\<lparr>sm_prepare := tl (sm_prepare s), sm_pc := PrepareLoop\<rparr>
         else s\<lparr>sm_pc := PrepareFail\<rparr>)"
| "doPrepare_step PrepareFail s =
     (compare_exchange Prepare ShuttingDown s)\<lparr>sm_prepare := tl (sm_prepare s), sm_pc := PrepareLoop\<rparr>"
| "doPrepare_step PrepareLeave s = (compare_exchange Prepare ReadyToStart s)\<lparr>sm_pc := LaunchEnter\<rparr>"
| "doPrepare_step _ s = s"

fun doLaunch_step :: "RunPc \<Rightarrow> StateManager \<Rightarrow> StateManager" where
  "doLaunch_step LaunchEnter s = enter_stage ReadyToStart Starting LaunchLoop s"
| "doLaunch_step LaunchLoop s =
     (if sm_launch s = [] then s\<lparr>sm_pc := LaunchLeave\<rparr>
      else if sm_state s = Starting then s\<lparr>sm_pc := LaunchCall\<rparr>
      else s\<lparr>sm_launch := tl (sm_launch s)\<rparr>)"
| "doLaunch_step LaunchCall s =
     (let cb = hd (sm_launch s);
          s = s\<lparr>sm_log := sm_log s @ [Called OnLaunch cb]\<rparr>
      in if cb_success cb then s\<lparr>sm_launch := tl (sm_launch s), sm_pc := LaunchLoop\<rparr>
         else s\<lparr>sm_pc := LaunchFail\<rparr>)"
| "doLaunch_step LaunchFail s =
     (compare_exchange Starting ShuttingDown s)\<lparr>sm_launch := tl (sm_launch s), sm_pc := LaunchLoop\<rparr>"
| "doLaunch_step LaunchLeave s = (compare_exchange Starting Works s)\<lparr>sm_pc := RunCheck\<rparr>"
| "doLaunch_step _ s = s"

fun doShutdown_step :: "RunPc \<Rightarrow> StateManager \<Rightarrow> StateManager" where
  "doShutdown_step ShutdownEnter s =
     (let s' = enter_stage Works ShuttingDown ShutdownLoop s
      in if sm_pc s' = ShutdownLoop then s'\<lparr>sm_prepare := [], sm_launch := []\<rparr> else s')"
| "doShutdown_step ShutdownLoop s =
     (if sm_shutdown s = [] then s\<lparr>sm_pc := ShutdownLeave\<rparr> else s\<lparr>sm_pc := ShutdownCall\<rparr>)"
| "doShutdown_step ShutdownCall s =
     s\<lparr>sm_log := sm_log s @ [Called OnShutdown (hd (sm_shutdown s))], sm_shutdown := tl (sm_shutdown s), sm_pc := ShutdownLoop\<rparr>"
| "doShutdown_step ShutdownLeave s = (compare_exchange ShuttingDown ReadyToStop s)\<lparr>sm_pc := RunFinal\<rparr>"
| "doShutdown_step _ s = s"

text \<open>
  \<open>None\<close>: \<^verbatim>\<open>run\<close> has ended, or waits in \<^verbatim>\<open>shutdownRequestWaiting\<close>.  The
  predicate of the wait and the store of \<^verbatim>\<open>shutdown\<close> are both under
  \<^verbatim>\<open>cv_mutex_\<close>, so no wake-up is lost.
\<close>

definition shutdownRequestWaiting :: "StateManager \<Rightarrow> StateManager option" where
  "shutdownRequestWaiting s = (if sm_state s = ShuttingDown then Some (s\<lparr>sm_pc := ShutdownEnter\<rparr>) else None)"

definition run_step :: "StateManager \<Rightarrow> StateManager option" where
  "run_step s =
     (case sm_pc s of
        RunEnter \<Rightarrow> Some (if sm_shared s then s\<lparr>sm_pc := PrepareEnter\<rparr> else s\<lparr>sm_pc := RunThrow LogicError\<rparr>)
      | RunCheck \<Rightarrow> Some (if sm_state s = Works then s\<lparr>sm_pc := RunWait\<rparr> else s\<lparr>sm_pc := ShutdownEnter\<rparr>)
      | RunWait \<Rightarrow> shutdownRequestWaiting s
      | RunFinal \<Rightarrow> Some (if sm_state s \<noteq> ReadyToStop then s\<lparr>sm_pc := RunThrow LogicError\<rparr> else s\<lparr>sm_pc := RunReturn\<rparr>)
      | RunReturn \<Rightarrow> None
      | RunThrow _ \<Rightarrow> None
      | pc \<Rightarrow> Some (doPrepare_step pc (doLaunch_step pc (doShutdown_step pc s))))"

subsection \<open>Calls of shutdown\<close>

text \<open>The calls in progress; a call that returns leaves the list.\<close>

definition drop_call :: "nat \<Rightarrow> ShutdownPc list \<Rightarrow> ShutdownPc list" where
  "drop_call i calls = take i calls @ drop (Suc i) calls"

definition shutdown_begin :: "StateManager \<Rightarrow> StateManager" where
  "shutdown_begin s = s\<lparr>sm_signals_enabled := False, sm_calls := sm_calls s @ [LoadReadyToStop]\<rparr>"

definition shutdown_step :: "nat \<Rightarrow> StateManager \<Rightarrow> StateManager option" where
  "shutdown_step i s =
     (if length (sm_calls s) \<le> i then None
      else case sm_calls s ! i of
        LoadReadyToStop \<Rightarrow>
          Some (s\<lparr>sm_calls := (if sm_state s = ReadyToStop then drop_call i (sm_calls s)
                                else (sm_calls s)[i := LoadShuttingDown])\<rparr>)
      | LoadShuttingDown \<Rightarrow>
          Some (s\<lparr>sm_calls := (if sm_state s = ShuttingDown then drop_call i (sm_calls s)
                                else (sm_calls s)[i := StoreShuttingDown])\<rparr>)
      | StoreShuttingDown \<Rightarrow> Some (s\<lparr>sm_state := ShuttingDown, sm_calls := drop_call i (sm_calls s)\<rparr>))"

text \<open>
  The handler of SIGINT, SIGTERM and SIGQUIT, installed until the first shutdown.  Before
  \<^verbatim>\<open>run\<close> has set \<^verbatim>\<open>wp_to_myself\<close>, or if no shared pointer owns the
  manager, there is nothing to lock and the handler only uninstalls itself.
\<close>

definition shuttingDownSignalsHandler :: "StateManager \<Rightarrow> StateManager option" where
  "shuttingDownSignalsHandler s =
     (if \<not> sm_signals_enabled s then None
      else if sm_pc s = RunEnter \<or> \<not> sm_shared s then Some (s\<lparr>sm_signals_enabled := False\<rparr>)
      else Some (shutdown_begin s))"

subsection \<open>Interleavings\<close>

datatype Move = Run | Request | Signal | Advance nat | Add CallbackQueue Callback

text \<open>Where \<^verbatim>\<open>run\<close> holds the mutex and is not inside a callback.\<close>

definition holds_mutex :: "RunPc \<Rightarrow> bool" where
  "holds_mutex pc \<longleftrightarrow>
     pc \<in> {PrepareLoop, PrepareFail, PrepareLeave, LaunchLoop, LaunchFail, LaunchLeave, ShutdownLoop, ShutdownLeave}"

fun sm_apply :: "Move \<Rightarrow> StateManager \<Rightarrow> StateManager option" where
  "sm_apply Run s = run_step s"
| "sm_apply Request s = Some (shutdown_begin s)"
| "sm_apply Signal s = shuttingDownSignalsHandler s"
| "sm_apply (Advance i) s = shutdown_step i s"
| "sm_apply (Add q cb) s =
     (if holds_mutex (sm_pc s) then None
      else Some (snd (case q of OnPrepare \<Rightarrow> atPrepare cb s | OnLaunch \<Rightarrow> atLaunch cb s | OnShutdown \<Rightarrow> atShutdown cb s)))"

text \<open>The states after some interleaving, with the number of calls of \<^verbatim>\<open>shutdown\<close>.\<close>

inductive sm_reach :: "nat \<Rightarrow> StateManager \<Rightarrow> bool" where
  sm_init: "sm_reach 0 (StateManager_new True)"
| sm_move: "sm_reach n s \<Longrightarrow> sm_apply m s = Some s' \<Longrightarrow> m \<notin> {Request, Signal} \<Longrightarrow> sm_reach n s'"
| sm_call: "sm_reach n s \<Longrightarrow> sm_apply m s = Some s' \<Longrightarrow> m \<in> {Request, Signal} \<Longrightarrow> sm_reach (Suc n) s'"


subsection \<open>Invariant\<close>

definition added :: "CallbackQueue \<Rightarrow> AppEvent list \<Rightarrow> Callback list" where
  "added q log = concat (map (\<lambda>e. case e of Added q' cb \<Rightarrow> if q' = q then [cb] else [] | Called _ _ \<Rightarrow> []) log)"

definition called :: "CallbackQueue \<Rightarrow> AppEvent list \<Rightarrow> Callback list" where
  "called q log = concat (map (\<lambda>e. case e of Called q' cb \<Rightarrow> if q' = q then [cb] else [] | Added _ _ \<Rightarrow> []) log)"

lemma log_append [simp]:
  "added q (log @ [Added q' cb]) = added q log @ (if q' = q then [cb] else [])" "added q (log @ [Called q' cb]) = added q log"
  "called q (log @ [Called q' cb]) = called q log @ (if q' = q then [cb] else [])" "called q (log @ [Added q' cb]) = called q log"
  "added q [] = []" "called q [] = []"
  by (simp_all add: added_def called_def)

text \<open>The states in which \<^verbatim>\<open>run\<close> can be at a place.\<close>

fun stages_at :: "RunPc \<Rightarrow> AppStage list" where
  "stages_at RunEnter = [Init, ShuttingDown]"
| "stages_at PrepareEnter = [Init, ShuttingDown]"
| "stages_at LaunchEnter = [ReadyToStart, ShuttingDown]"
| "stages_at RunCheck = [Works, ShuttingDown]"
| "stages_at RunWait = [Works, ShuttingDown]"
| "stages_at RunFinal = [ShuttingDown, ReadyToStop]"
| "stages_at RunReturn = [ShuttingDown, ReadyToStop]"
| "stages_at (RunThrow e) = (if e = LogicError then [ShuttingDown, ReadyToStop] else [])"
| "stages_at pc =
     (if pc \<in> {PrepareLoop, PrepareCall, PrepareFail, PrepareLeave} then [Prepare, ShuttingDown]
      else if pc \<in> {LaunchLoop, LaunchCall, LaunchFail, LaunchLeave} then [Starting, ShuttingDown]
      else [ShuttingDown])"

definition before_launch :: "RunPc \<Rightarrow> bool" where
  "before_launch pc \<longleftrightarrow> pc \<in> {RunEnter, PrepareEnter, PrepareLoop, PrepareCall, PrepareFail}"

definition all_prepared :: "AppEvent list \<Rightarrow> bool" where
  "all_prepared log \<longleftrightarrow> called OnPrepare log = added OnPrepare log \<and> list_all cb_success (added OnPrepare log)"

definition place_ok :: "StateManager \<Rightarrow> bool" where
  "place_ok s \<longleftrightarrow>
     sm_shared s \<and> sm_state s \<in> set (stages_at (sm_pc s)) \<and>
     (sm_pc s \<in> {PrepareCall, PrepareFail} \<longrightarrow> sm_prepare s \<noteq> []) \<and>
     (sm_pc s \<in> {LaunchCall, LaunchFail} \<longrightarrow> sm_launch s \<noteq> []) \<and>
     (sm_pc s = ShutdownCall \<longrightarrow> sm_shutdown s \<noteq> []) \<and>
     (sm_pc s = ShutdownLeave \<or> sm_state s = ReadyToStop \<longrightarrow> sm_shutdown s = []) \<and>
     (\<not> before_launch (sm_pc s) \<longrightarrow> sm_prepare s = [])"

definition log_ok :: "StateManager \<Rightarrow> bool" where
  "log_ok s \<longleftrightarrow>
     called OnShutdown (sm_log s) @ sm_shutdown s = added OnShutdown (sm_log s) \<and>
     (sm_state s \<notin> {ShuttingDown, ReadyToStop} \<and> sm_pc s \<noteq> PrepareFail \<longrightarrow>
        called OnPrepare (sm_log s) @ sm_prepare s = added OnPrepare (sm_log s) \<and> list_all cb_success (called OnPrepare (sm_log s))) \<and>
     (sm_pc s = LaunchCall \<or> called OnLaunch (sm_log s) \<noteq> [] \<longrightarrow> all_prepared (sm_log s)) \<and>
     (called OnLaunch (sm_log s) \<noteq> [] \<longrightarrow> \<not> before_launch (sm_pc s) \<and> sm_pc s \<notin> {PrepareLeave, LaunchEnter})"

lemmas sm_simps = place_ok_def log_ok_def before_launch_def all_prepared_def

lemma new_ok: "place_ok (StateManager_new True) \<and> log_ok (StateManager_new True)"
  by (simp add: StateManager_new_def sm_simps)

lemma run_place_ok: "place_ok s \<Longrightarrow> run_step s = Some s' \<Longrightarrow> place_ok s'"
  by (cases "sm_pc s")
     (auto simp: place_ok_def before_launch_def run_step_def enter_stage_def compare_exchange_def shutdownRequestWaiting_def Let_def
        split: if_splits)

lemma all_prepared_append [simp]:
  "all_prepared (log @ [Added OnLaunch cb]) = all_prepared log" "all_prepared (log @ [Added OnShutdown cb]) = all_prepared log"
  "all_prepared (log @ [Called OnLaunch cb]) = all_prepared log" "all_prepared (log @ [Called OnShutdown cb]) = all_prepared log"
  by (simp_all add: all_prepared_def)

lemmas run_simps = run_step_def enter_stage_def compare_exchange_def shutdownRequestWaiting_def Let_def

lemma run_shutdown_log:
  assumes "sm_pc s = ShutdownCall \<Longrightarrow> sm_shutdown s \<noteq> []" "run_step s = Some s'"
    and "called OnShutdown (sm_log s) @ sm_shutdown s = added OnShutdown (sm_log s)"
  shows "called OnShutdown (sm_log s') @ sm_shutdown s' = added OnShutdown (sm_log s')"
  using assms by (cases "sm_pc s") (auto simp: run_simps split: if_splits)

definition preparing :: "StateManager \<Rightarrow> bool" where
  "preparing s \<longleftrightarrow> called OnPrepare (sm_log s) @ sm_prepare s = added OnPrepare (sm_log s) \<and>
     list_all cb_success (called OnPrepare (sm_log s))"

lemma run_preparing:
  assumes "place_ok s" "run_step s = Some s'" "sm_state s' \<notin> {ShuttingDown, ReadyToStop}" "sm_pc s' \<noteq> PrepareFail"
    and "sm_state s \<notin> {ShuttingDown, ReadyToStop} \<and> sm_pc s \<noteq> PrepareFail \<longrightarrow> preparing s"
  shows "preparing s'"
proof -
  have st: "sm_state s \<in> set (stages_at (sm_pc s))" "sm_pc s = PrepareCall \<Longrightarrow> sm_prepare s \<noteq> []"
    using assms(1) by (auto simp: place_ok_def)
  have "sm_state s \<notin> {ShuttingDown, ReadyToStop}" "sm_pc s \<noteq> PrepareFail"
    using assms(2,3) st(1) by (cases "sm_pc s"; auto simp: run_simps split: if_splits)+
  with assms(2,4,5) st show ?thesis
    by (cases "sm_pc s") (auto simp: run_simps preparing_def split: if_splits)
qed

lemma run_launch_log:
  assumes "place_ok s" "run_step s = Some s'"
    and "sm_state s \<notin> {ShuttingDown, ReadyToStop} \<and> sm_pc s \<noteq> PrepareFail \<longrightarrow> preparing s"
    and "sm_pc s = LaunchCall \<or> called OnLaunch (sm_log s) \<noteq> [] \<longrightarrow> all_prepared (sm_log s)"
    and "called OnLaunch (sm_log s) \<noteq> [] \<longrightarrow> \<not> before_launch (sm_pc s) \<and> sm_pc s \<notin> {PrepareLeave, LaunchEnter}"
  shows "(sm_pc s' = LaunchCall \<or> called OnLaunch (sm_log s') \<noteq> [] \<longrightarrow> all_prepared (sm_log s')) \<and>
         (called OnLaunch (sm_log s') \<noteq> [] \<longrightarrow> \<not> before_launch (sm_pc s') \<and> sm_pc s' \<notin> {PrepareLeave, LaunchEnter})"
proof (cases "sm_pc s = LaunchLoop")
  case True
  have "all_prepared (sm_log s)" if "sm_state s = Starting"
    using that assms(1,3) True by (auto simp: preparing_def all_prepared_def place_ok_def before_launch_def)
  with True assms(2,4,5) show ?thesis by (auto simp: run_simps before_launch_def split: if_splits)
next
  case False
  with assms(2,4,5) show ?thesis
    by (cases "sm_pc s") (auto simp: run_simps before_launch_def split: if_splits)
qed

lemma run_log_ok:
  assumes "place_ok s" "log_ok s" "run_step s = Some s'"
  shows "log_ok s'"
  using run_shutdown_log[OF _ assms(3)] run_preparing[OF assms(1,3)] run_launch_log[OF assms(1,3)] assms(1,2)
  unfolding log_ok_def preparing_def by (simp add: place_ok_def)

lemma stages_shutting_down: "x \<in> set (stages_at pc) \<Longrightarrow> ShuttingDown \<in> set (stages_at pc)"
  by (cases pc) (auto split: if_splits)

lemma shutdown_step_ok:
  assumes "place_ok s" "log_ok s" "shutdown_step i s = Some s'"
  shows "place_ok s' \<and> log_ok s'"
proof -
  obtain c where "s' = s\<lparr>sm_calls := c\<rparr> \<or> s' = s\<lparr>sm_state := ShuttingDown, sm_calls := c\<rparr>"
    using assms(3) by (auto simp: shutdown_step_def split: if_splits ShutdownPc.splits)
  then show ?thesis
  proof
    assume "s' = s\<lparr>sm_calls := c\<rparr>"
    then show ?thesis using assms(1,2) by (simp add: place_ok_def log_ok_def)
  next
    assume s': "s' = s\<lparr>sm_state := ShuttingDown, sm_calls := c\<rparr>"
    have "ShuttingDown \<in> set (stages_at (sm_pc s))" using assms(1) stages_shutting_down unfolding place_ok_def by blast
    then show ?thesis using assms(1,2) unfolding s' by (simp add: place_ok_def log_ok_def)
  qed
qed

lemma atPrepare_ok:
  assumes "place_ok s" "log_ok s" "\<not> holds_mutex (sm_pc s)"
  shows "place_ok (snd (atPrepare cb s)) \<and> log_ok (snd (atPrepare cb s))"
proof (cases "sm_state s > Prepare")
  case False
  then have st: "sm_state s \<in> {Init, Prepare}" by (cases "sm_state s") (auto simp: stage_less)
  then have "sm_pc s \<in> {RunEnter, PrepareEnter, PrepareCall}"
    using assms(1,3) by (cases "sm_pc s") (auto simp: place_ok_def holds_mutex_def split: if_splits)
  moreover from this have "called OnLaunch (sm_log s) = []" using assms(2) by (auto simp: log_ok_def before_launch_def)
  ultimately show ?thesis using assms(1,2) False st
    by (elim insertE emptyE; simp add: atPrepare_def place_ok_def log_ok_def before_launch_def)
qed (use assms in \<open>simp add: atPrepare_def\<close>)

lemma atLaunch_ok: "place_ok s \<Longrightarrow> log_ok s \<Longrightarrow> place_ok (snd (atLaunch cb s)) \<and> log_ok (snd (atLaunch cb s))"
  by (simp add: atLaunch_def place_ok_def log_ok_def)

lemma atShutdown_ok:
  assumes "place_ok s" "log_ok s" "\<not> holds_mutex (sm_pc s)"
  shows "place_ok (snd (atShutdown cb s)) \<and> log_ok (snd (atShutdown cb s))"
proof (cases "sm_state s > ShuttingDown")
  case False
  then have "sm_state s \<noteq> ReadyToStop" by (auto simp: stage_less)
  moreover have "sm_pc s \<noteq> ShutdownLeave" using assms(3) by (auto simp: holds_mutex_def)
  moreover have "called OnShutdown (sm_log s) @ sm_shutdown s = added OnShutdown (sm_log s)" using assms(2) by (simp add: log_ok_def)
  ultimately show ?thesis using assms(1,2) False
    by (simp add: atShutdown_def place_ok_def log_ok_def flip: append_assoc)
qed (use assms in \<open>simp add: atShutdown_def\<close>)

lemma add_ok: "place_ok s \<Longrightarrow> log_ok s \<Longrightarrow> sm_apply (Add q cb) s = Some s' \<Longrightarrow> place_ok s' \<and> log_ok s'"
  using atPrepare_ok atLaunch_ok atShutdown_ok by (cases q) (auto split: if_splits)

lemma stopped_all_called:
  "place_ok s \<Longrightarrow> log_ok s \<Longrightarrow> sm_state s = ReadyToStop \<Longrightarrow>
     called OnShutdown (sm_log s) = added OnShutdown (sm_log s)"
  unfolding place_ok_def log_ok_def by (metis append_Nil2)

lemma call_cases:
  assumes "sm_apply m s = Some s'" "m \<in> {Request, Signal}"
  shows "s' = shutdown_begin s \<or> s' = s\<lparr>sm_signals_enabled := False\<rparr>"
  using assms by (auto simp: shuttingDownSignalsHandler_def split: if_splits)

lemma call_ok:
  assumes "place_ok s" "log_ok s" "sm_apply m s = Some s'" "m \<in> {Request, Signal}"
  shows "place_ok s' \<and> log_ok s'"
  using call_cases[OF assms(3,4)] assms(1,2) by (elim disjE) (simp_all add: shutdown_begin_def sm_simps)

lemma apply_ok: "place_ok s \<Longrightarrow> log_ok s \<Longrightarrow> sm_apply m s = Some s' \<Longrightarrow> place_ok s' \<and> log_ok s'"
proof (cases m)
  case Run
  assume "place_ok s" "log_ok s" "sm_apply m s = Some s'"
  with Run show ?thesis using run_place_ok[of s s'] run_log_ok[of s s'] by simp
next
  case (Advance i)
  assume "place_ok s" "log_ok s" "sm_apply m s = Some s'"
  with Advance show ?thesis using shutdown_step_ok[of s i s'] by simp
next
  case (Add q cb)
  assume "place_ok s" "log_ok s" "sm_apply m s = Some s'"
  with Add show ?thesis using add_ok[of s q cb s'] by simp
qed (use call_ok[of s m s'] in auto)

lemma sm_reach_ok: "sm_reach n s \<Longrightarrow> place_ok s \<and> log_ok s"
  by (induction rule: sm_reach.induct) (auto simp: new_ok dest: apply_ok)

subsection \<open>Schedules\<close>

fun sm_exec :: "Move list \<Rightarrow> StateManager \<Rightarrow> StateManager option" where
  "sm_exec [] s = Some s"
| "sm_exec (m # ms) s = (case sm_apply m s of None \<Rightarrow> None | Some s' \<Rightarrow> sm_exec ms s')"

definition is_call :: "Move \<Rightarrow> bool" where
  "is_call m \<longleftrightarrow> m = Request \<or> m = Signal"

lemma sm_exec_reach:
  "sm_exec ms s = Some s' \<Longrightarrow> sm_reach n s \<Longrightarrow> sm_reach (n + length (filter is_call ms)) s'"
proof (induction ms arbitrary: n s)
  case (Cons m ms)
  then obtain t where t: "sm_apply m s = Some t" "sm_exec ms t = Some s'" by (auto split: option.splits)
  show ?case
  proof (cases "is_call m")
    case True
    with t Cons.prems have "sm_reach (Suc n) t" by (auto simp: is_call_def intro: sm_call[OF Cons.prems(2) t(1)])
    with Cons.IH[OF t(2), of "Suc n"] True show ?thesis by simp
  next
    case False
    with t Cons.prems have "sm_reach n t" by (auto simp: is_call_def intro: sm_move[OF Cons.prems(2) t(1)])
    with Cons.IH[OF t(2), of n] False show ?thesis by simp
  qed
qed simp

definition demo_cb :: "nat \<Rightarrow> bool \<Rightarrow> Callback" where
  "demo_cb i b = \<lparr>cb_id = i, cb_success = b\<rparr>"

text \<open>One callback for each stage, and a shutdown requested by a signal while the application works.\<close>

definition demo_schedule :: "Move list" where
  "demo_schedule =
     [Add OnPrepare (demo_cb 1 True), Add OnLaunch (demo_cb 2 True), Add OnShutdown (demo_cb 3 True)] @ replicate 12 Run
     @ [Signal, Advance 0, Advance 0, Advance 0] @ replicate 7 Run"

definition demo_end :: StateManager where
  "demo_end =
     \<lparr>sm_state = ReadyToStop, sm_prepare = [], sm_launch = [], sm_shutdown = [], sm_shared = True, sm_signals_enabled = False,
      sm_pc = RunReturn, sm_calls = [],
      sm_log = [Added OnPrepare (demo_cb 1 True), Added OnLaunch (demo_cb 2 True), Added OnShutdown (demo_cb 3 True),
                Called OnPrepare (demo_cb 1 True), Called OnLaunch (demo_cb 2 True), Called OnShutdown (demo_cb 3 True)]\<rparr>"

lemma demo_exec: "sm_exec demo_schedule (StateManager_new True) = Some demo_end"
  by code_simp

subsection \<open>Properties\<close>

text \<open>
  C29. Whatever calls of \<^verbatim>\<open>shutdown\<close>, signals and registrations interleave with
  \<^verbatim>\<open>run\<close>, the stages keep their order.  \<^verbatim>\<open>run\<close> never meets a stage in
  the wrong state.  A launch callback has run only when every prepare callback has run, in the order
  of registration, and has succeeded.  And when the application is ready to stop, every
  registered shutdown callback has run exactly once, in order.
\<close>

theorem stages_in_order:
  assumes "sm_reach n s"
  shows "sm_pc s \<noteq> RunThrow RuntimeError \<and>
         (called OnLaunch (sm_log s) \<noteq> [] \<longrightarrow>
            called OnPrepare (sm_log s) = added OnPrepare (sm_log s) \<and> list_all cb_success (added OnPrepare (sm_log s))) \<and>
         (sm_state s = ReadyToStop \<longrightarrow> called OnShutdown (sm_log s) = added OnShutdown (sm_log s))"
proof -
  have "sm_pc s \<noteq> RunThrow RuntimeError" using sm_reach_ok[OF assms] by (auto simp: place_ok_def)
  moreover have "called OnLaunch (sm_log s) \<noteq> [] \<longrightarrow> all_prepared (sm_log s)"
    using sm_reach_ok[OF assms] unfolding log_ok_def by blast
  ultimately show ?thesis using stopped_all_called[of s] sm_reach_ok[OF assms] unfolding all_prepared_def by blast
qed

theorem stages_in_order_witness:
  "called OnShutdown (sm_log demo_end) = [demo_cb 3 True] \<and> called OnPrepare (sm_log demo_end) = [demo_cb 1 True] \<and>
   called OnLaunch (sm_log demo_end) = [demo_cb 2 True]"
  using stages_in_order[OF sm_exec_reach[OF demo_exec sm_init]] by (simp add: demo_end_def added_def called_def)

text \<open>Every step of \<^verbatim>\<open>run\<close> comes closer to its end.\<close>

fun pc_rank :: "RunPc \<Rightarrow> nat" where
  "pc_rank RunEnter = 20"
| "pc_rank PrepareEnter = 19"
| "pc_rank PrepareLoop = 18"
| "pc_rank PrepareCall = 17"
| "pc_rank PrepareFail = 16"
| "pc_rank PrepareLeave = 14"
| "pc_rank LaunchEnter = 13"
| "pc_rank LaunchLoop = 12"
| "pc_rank LaunchCall = 11"
| "pc_rank LaunchFail = 10"
| "pc_rank LaunchLeave = 8"
| "pc_rank RunCheck = 7"
| "pc_rank RunWait = 6"
| "pc_rank ShutdownEnter = 5"
| "pc_rank ShutdownLoop = 4"
| "pc_rank ShutdownCall = 3"
| "pc_rank ShutdownLeave = 2"
| "pc_rank RunFinal = 1"
| "pc_rank RunReturn = 0"
| "pc_rank (RunThrow e) = 0"

definition steps_left :: "StateManager \<Rightarrow> nat" where
  "steps_left s = pc_rank (sm_pc s) + 3 * (length (sm_prepare s) + length (sm_launch s) + length (sm_shutdown s))"

lemma run_step_decreases: "place_ok s \<Longrightarrow> run_step s = Some s' \<Longrightarrow> steps_left s' < steps_left s"
proof -
  assume s: "place_ok s" "run_step s = Some s'"
  then have "sm_pc s \<in> {PrepareCall, PrepareFail} \<longrightarrow> sm_prepare s \<noteq> []" "sm_pc s \<in> {LaunchCall, LaunchFail} \<longrightarrow> sm_launch s \<noteq> []"
    "sm_pc s = ShutdownCall \<longrightarrow> sm_shutdown s \<noteq> []" "sm_state s \<in> set (stages_at (sm_pc s))"
    by (simp_all add: place_ok_def)
  with s(2) show "steps_left s' < steps_left s"
    by (cases "sm_pc s") (auto simp: run_simps steps_left_def neq_Nil_conv split: if_splits)
qed

definition run_alone :: "StateManager \<Rightarrow> StateManager \<Rightarrow> bool" where
  "run_alone = (\<lambda>s s'. run_step s = Some s')\<^sup>*\<^sup>*"

text \<open>On the way down: the state is \<open>ShuttingDown\<close>, until the last step of \<open>doShutdown\<close>.\<close>

definition going_down :: "StateManager \<Rightarrow> bool" where
  "going_down s \<longleftrightarrow>
     (if sm_pc s \<in> {RunFinal, RunReturn} then sm_state s = ReadyToStop else sm_state s = ShuttingDown) \<and>
     (case sm_pc s of RunThrow _ \<Rightarrow> False | _ \<Rightarrow> True)"

lemma going_down_step:
  assumes "place_ok s" "going_down s" "sm_pc s \<noteq> RunReturn"
  shows "\<exists>s'. run_step s = Some s' \<and> going_down s'"
proof -
  have "sm_shared s" using assms(1) by (simp add: place_ok_def)
  with assms(2,3) show ?thesis by (cases "sm_pc s") (auto simp: run_simps going_down_def split: if_splits)
qed

lemma going_down_ends:
  "place_ok s \<Longrightarrow> log_ok s \<Longrightarrow> going_down s \<Longrightarrow>
   \<exists>s'. run_alone s s' \<and> sm_pc s' = RunReturn \<and> going_down s' \<and> place_ok s' \<and> log_ok s'"
proof (induction "steps_left s" arbitrary: s rule: less_induct)
  case less
  show ?case
  proof (cases "sm_pc s = RunReturn")
    case True
    with less show ?thesis unfolding run_alone_def by blast
  next
    case False
    with going_down_step less.prems obtain t where t: "run_step s = Some t" "going_down t" by blast
    then have "place_ok t" "log_ok t" "steps_left t < steps_left s"
      using less.prems run_place_ok run_log_ok run_step_decreases by blast+
    with less.hyps t(2) obtain s' where "run_alone t s'" "sm_pc s' = RunReturn" "going_down s'" "place_ok s'" "log_ok s'" by blast
    with t(1) show ?thesis unfolding run_alone_def by (meson converse_rtranclp_into_rtranclp)
  qed
qed

lemma shutdown_alone:
  assumes "place_ok s" "log_ok s" "sm_state s = ShuttingDown" "pc_rank (sm_pc s) > 1"
  shows "\<exists>s'. run_alone s s' \<and> sm_pc s' = RunReturn \<and> sm_state s' = ReadyToStop \<and>
           called OnShutdown (sm_log s') = added OnShutdown (sm_log s')"
proof -
  have "going_down s" using assms(3,4) by (auto simp: going_down_def split: RunPc.splits)
  with going_down_ends assms(1,2) obtain s' where
    "run_alone s s'" "sm_pc s' = RunReturn" "going_down s'" "place_ok s'" "log_ok s'" by blast
  moreover from this have "sm_state s' = ReadyToStop" by (simp add: going_down_def)
  ultimately show ?thesis using stopped_all_called by blast
qed

text \<open>
  The same among other calls: a schedule in which a move that is not possible is skipped.
  Once the state is \<open>ShuttingDown\<close> or \<open>ReadyToStop\<close>, \<^verbatim>\<open>run\<close> can step until it has
  ended, and only a registration puts its end off.
\<close>

fun sm_sched :: "Move list \<Rightarrow> StateManager \<Rightarrow> StateManager" where
  "sm_sched [] s = s"
| "sm_sched (m # ms) s = sm_sched ms (case sm_apply m s of None \<Rightarrow> s | Some s' \<Rightarrow> s')"

definition is_add :: "Move \<Rightarrow> bool" where
  "is_add m \<longleftrightarrow> (case m of Add _ _ \<Rightarrow> True | _ \<Rightarrow> False)"

definition run_ended :: "StateManager \<Rightarrow> bool" where
  "run_ended s \<longleftrightarrow> sm_pc s = RunReturn \<or> sm_pc s = RunThrow LogicError"

definition stopping :: "StateManager \<Rightarrow> bool" where
  "stopping s \<longleftrightarrow> place_ok s \<and> log_ok s \<and> sm_state s \<in> {ShuttingDown, ReadyToStop}"

lemma no_steps_left: "place_ok s \<Longrightarrow> steps_left s = 0 \<Longrightarrow> run_ended s"
  by (cases "sm_pc s") (auto simp: steps_left_def run_ended_def place_ok_def split: if_splits)

lemma other_move:
  assumes "sm_apply m s = Some s'" "m \<noteq> Run"
  shows "sm_pc s' = sm_pc s" "steps_left s' \<le> steps_left s + (if is_add m then 3 else 0)"
    and "sm_state s' = sm_state s \<or> sm_state s' = ShuttingDown"
    and "called OnShutdown (sm_log s') = called OnShutdown (sm_log s)"
    and "prefix (added OnShutdown (sm_log s)) (added OnShutdown (sm_log s'))"
proof -
  have "sm_pc s' = sm_pc s \<and> steps_left s' \<le> steps_left s + (if is_add m then 3 else 0) \<and>
      (sm_state s' = sm_state s \<or> sm_state s' = ShuttingDown) \<and> called OnShutdown (sm_log s') = called OnShutdown (sm_log s) \<and>
      prefix (added OnShutdown (sm_log s)) (added OnShutdown (sm_log s'))"
  proof (cases m)
    case (Advance i)
    with assms show ?thesis
      by (auto simp: shutdown_step_def steps_left_def is_add_def split: if_splits ShutdownPc.splits)
  next
    case (Add q cb)
    with assms show ?thesis
      by (cases q) (auto simp: atPrepare_def atLaunch_def atShutdown_def steps_left_def is_add_def split: if_splits)
  next
    case Request
    with assms show ?thesis by (auto simp: shutdown_begin_def steps_left_def)
  next
    case Signal
    with assms call_cases[of m s s'] show ?thesis by (auto simp: shutdown_begin_def steps_left_def)
  qed (use assms in simp)
  then show "sm_pc s' = sm_pc s" "steps_left s' \<le> steps_left s + (if is_add m then 3 else 0)"
    "sm_state s' = sm_state s \<or> sm_state s' = ShuttingDown"
    "called OnShutdown (sm_log s') = called OnShutdown (sm_log s)"
    "prefix (added OnShutdown (sm_log s)) (added OnShutdown (sm_log s'))" by blast+
qed

lemma stopping_run:
  assumes "stopping s" "\<not> run_ended s"
  obtains s' where "run_step s = Some s'" "sm_state s' \<in> {ShuttingDown, ReadyToStop}"
proof -
  have "sm_shared s" "sm_state s \<in> set (stages_at (sm_pc s))" "sm_state s \<in> {ShuttingDown, ReadyToStop}"
    using assms(1) by (auto simp: stopping_def place_ok_def)
  with assms(2) have "\<exists>s'. run_step s = Some s' \<and> sm_state s' \<in> {ShuttingDown, ReadyToStop}"
    by (cases "sm_pc s") (auto simp: run_simps run_ended_def split: if_splits)
  with that show ?thesis by blast
qed

lemma stopping_apply: "stopping s \<Longrightarrow> sm_apply m s = Some s' \<Longrightarrow> stopping s'"
proof -
  assume s: "stopping s" "sm_apply m s = Some s'"
  then have ok: "place_ok s' \<and> log_ok s'" using apply_ok by (auto simp: stopping_def)
  have "sm_state s' \<in> {ShuttingDown, ReadyToStop}"
  proof (cases "m = Run")
    case True
    then have run: "run_step s = Some s'" using s(2) by simp
    then have "\<not> run_ended s" by (auto simp: run_ended_def run_step_def)
    with stopping_run[OF s(1)] run show ?thesis by (metis option.inject)
  next
    case False
    with other_move(3)[OF s(2)] s(1) show ?thesis by (auto simp: stopping_def)
  qed
  with ok show "stopping s'" by (simp add: stopping_def)
qed

lemma ended_apply: "run_ended s \<Longrightarrow> sm_apply m s = Some s' \<Longrightarrow> run_ended s'"
  using other_move(1)[of m s s'] by (cases "m = Run") (auto simp: run_ended_def run_step_def)

lemma ended_sched: "run_ended s \<Longrightarrow> run_ended (sm_sched ms s)"
  by (induction ms arbitrary: s) (auto split: option.split dest: ended_apply)

lemma sched_ends:
  "stopping s \<Longrightarrow> steps_left s + 3 * length (filter is_add ms) \<le> length (filter (\<lambda>m. m = Run) ms) \<Longrightarrow>
   run_ended (sm_sched ms s)"
proof (induction ms arbitrary: s)
  case Nil
  then show ?case using no_steps_left by (simp add: stopping_def)
next
  case (Cons m ms)
  show ?case
  proof (cases "run_ended s")
    case True
    then show ?thesis by (rule ended_sched)
  next
    case ne: False
    show ?thesis
    proof (cases "m = Run")
      case True
      obtain t where t: "run_step s = Some t" using stopping_run[OF Cons.prems(1) ne] by metis
      then have "steps_left t < steps_left s" using Cons.prems(1) run_step_decreases by (auto simp: stopping_def)
      moreover have "stopping t" using stopping_apply[OF Cons.prems(1), of Run] t by simp
      ultimately show ?thesis using Cons.IH[of t] Cons.prems(2) t True by (simp add: is_add_def)
    next
      case False
      define t where "t = (case sm_apply m s of None \<Rightarrow> s | Some s' \<Rightarrow> s')"
      have "stopping t" "steps_left t \<le> steps_left s + (if is_add m then 3 else 0)"
        using stopping_apply[OF Cons.prems(1), of m] Cons.prems(1) other_move(2)[of m s] False
        by (auto simp: t_def split: option.splits)
      with Cons.IH[of t] Cons.prems(2) False show ?thesis by (auto simp: t_def[symmetric] split: if_splits)
    qed
  qed
qed

text \<open>The shutdown callbacks \<open>cbs\<close> are registered, and have run when the last loop is over.\<close>

definition shutdown_owed :: "Callback list \<Rightarrow> StateManager \<Rightarrow> bool" where
  "shutdown_owed cbs s \<longleftrightarrow> prefix cbs (added OnShutdown (sm_log s)) \<and>
     (pc_rank (sm_pc s) \<le> 2 \<longrightarrow> prefix cbs (called OnShutdown (sm_log s)))"

lemma run_log_grows:
  "run_step s = Some s' \<Longrightarrow> added OnShutdown (sm_log s') = added OnShutdown (sm_log s) \<and>
     prefix (called OnShutdown (sm_log s)) (called OnShutdown (sm_log s'))"
  by (cases "sm_pc s") (auto simp: run_simps split: if_splits)

lemma run_reaches_leave:
  assumes "place_ok s" "place_ok s'" "run_step s = Some s'" "pc_rank (sm_pc s') \<le> 2" "\<not> pc_rank (sm_pc s) \<le> 2"
  shows "sm_shutdown s' = []"
proof -
  have "sm_shared s" using assms(1) by (simp add: place_ok_def)
  moreover have "sm_pc s' \<noteq> RunThrow RuntimeError" using assms(2) by (auto simp: place_ok_def)
  ultimately show ?thesis using assms(3-5) by (cases "sm_pc s") (auto simp: run_simps split: if_splits)
qed

lemma owed_apply:
  assumes "stopping s" "shutdown_owed cbs s" "sm_apply m s = Some s'"
  shows "shutdown_owed cbs s'"
proof (cases "m = Run")
  case True
  then have run: "run_step s = Some s'" using assms(3) by simp
  note ok = stopping_apply[OF assms(1,3)]
  have "prefix cbs (called OnShutdown (sm_log s'))" if le: "pc_rank (sm_pc s') \<le> 2"
  proof (cases "pc_rank (sm_pc s) \<le> 2")
    case True
    then show ?thesis using assms(2) run_log_grows[OF run] prefix_order.trans unfolding shutdown_owed_def by blast
  next
    case False
    then have "called OnShutdown (sm_log s') = added OnShutdown (sm_log s')"
      using run_reaches_leave[OF _ _ run le] ok assms(1) unfolding stopping_def log_ok_def by (metis append_Nil2)
    then show ?thesis using assms(2) run_log_grows[OF run] by (simp add: shutdown_owed_def)
  qed
  then show ?thesis using assms(2) run_log_grows[OF run] by (simp add: shutdown_owed_def)
next
  case False
  with other_move[OF assms(3)] assms(2) show ?thesis
    unfolding shutdown_owed_def using prefix_order.trans by metis
qed

lemma owed_sched: "stopping s \<Longrightarrow> shutdown_owed cbs s \<Longrightarrow> shutdown_owed cbs (sm_sched ms s)"
proof (induction ms arbitrary: s)
  case (Cons m ms)
  then show ?case using stopping_apply[of s m] owed_apply[of s cbs m] by (cases "sm_apply m s") auto
qed simp

text \<open>
  C30. A shutdown completes.  Take a reachable state in which a shutdown is requested and
  \<^verbatim>\<open>run\<close> has not passed the end of \<^verbatim>\<open>doShutdown\<close>; it may be anywhere before,
  also in the middle of preparing or launching.  Under every schedule of calls of
  \<^verbatim>\<open>shutdown\<close>, signals, registrations and steps of \<^verbatim>\<open>run\<close> that gives
  \<^verbatim>\<open>run\<close> the steps it has left, and three more for each registration,
  \<^verbatim>\<open>run\<close> ends: it is never blocked in the wait, and all shutdown callbacks registered
  so far have run.  It ends by returning or, after a late store, by throwing
  \<^verbatim>\<open>std::logic_error\<close>.  On its own, with no call in between, it returns, ready to stop
  and with all shutdown callbacks run.  At the final check after \<^verbatim>\<open>doShutdown\<close> a
  requested shutdown is such a late store, and \<^verbatim>\<open>run\<close> throws.
\<close>

theorem shutdown_completes:
  assumes "sm_reach n s" "sm_state s = ShuttingDown"
  shows "(pc_rank (sm_pc s) > 1 \<longrightarrow>
      (\<forall>ms. steps_left s + 3 * length (filter is_add ms) \<le> length (filter (\<lambda>m. m = Run) ms) \<longrightarrow>
         (sm_pc (sm_sched ms s) = RunReturn \<or> sm_pc (sm_sched ms s) = RunThrow LogicError) \<and>
         prefix (added OnShutdown (sm_log s)) (called OnShutdown (sm_log (sm_sched ms s)))) \<and>
      (\<exists>s'. run_alone s s' \<and> sm_pc s' = RunReturn \<and> sm_state s' = ReadyToStop \<and>
         called OnShutdown (sm_log s') = added OnShutdown (sm_log s'))) \<and>
    (sm_pc s = RunFinal \<longrightarrow> run_step s = Some (s\<lparr>sm_pc := RunThrow LogicError\<rparr>))"
proof (intro conjI impI allI)
  have stop: "stopping s" using sm_reach_ok[OF assms(1)] assms(2) by (simp add: stopping_def)
  fix ms
  assume run: "pc_rank (sm_pc s) > 1"
    and steps: "steps_left s + 3 * length (filter is_add ms) \<le> length (filter (\<lambda>m. m = Run) ms)"
  have ended: "run_ended (sm_sched ms s)" by (rule sched_ends[OF stop steps])
  then show "sm_pc (sm_sched ms s) = RunReturn \<or> sm_pc (sm_sched ms s) = RunThrow LogicError" by (simp add: run_ended_def)
  have "sm_pc s = ShutdownLeave" if "pc_rank (sm_pc s) \<le> 2" using that run by (cases "sm_pc s") auto
  then have "shutdown_owed (added OnShutdown (sm_log s)) s"
    using stop unfolding stopping_def shutdown_owed_def place_ok_def log_ok_def by (metis append_Nil2 prefix_order.refl)
  from owed_sched[OF stop this, of ms] ended
  show "prefix (added OnShutdown (sm_log s)) (called OnShutdown (sm_log (sm_sched ms s)))"
    by (auto simp: shutdown_owed_def run_ended_def)
next
  assume "pc_rank (sm_pc s) > 1"
  with shutdown_alone assms(2) sm_reach_ok[OF assms(1)]
  show "\<exists>s'. run_alone s s' \<and> sm_pc s' = RunReturn \<and> sm_state s' = ReadyToStop \<and>
      called OnShutdown (sm_log s') = added OnShutdown (sm_log s')" by blast
next
  assume "sm_pc s = RunFinal"
  then show "run_step s = Some (s\<lparr>sm_pc := RunThrow LogicError\<rparr>)" using assms(2) by (simp add: run_step_def)
qed

text \<open>A prepare callback fails, and a shutdown callback is left to run.\<close>

definition demo_failed :: StateManager where
  "demo_failed =
     \<lparr>sm_state = ShuttingDown, sm_prepare = [], sm_launch = [], sm_shutdown = [demo_cb 3 True], sm_shared = True,
      sm_signals_enabled = True, sm_pc = PrepareLoop, sm_calls = [],
      sm_log = [Added OnPrepare (demo_cb 1 False), Added OnShutdown (demo_cb 3 True), Called OnPrepare (demo_cb 1 False)]\<rparr>"

lemma demo_failed_exec:
  "sm_exec ([Add OnPrepare (demo_cb 1 False), Add OnShutdown (demo_cb 3 True)] @ replicate 5 Run) (StateManager_new True) =
     Some demo_failed"
  by code_simp

definition demo_moves :: "Move list" where
  "demo_moves = [Request, Run, Advance 0, Add OnShutdown (demo_cb 4 True), Advance 0] @ replicate 23 Run"

theorem shutdown_completes_witness:
  "(sm_pc (sm_sched demo_moves demo_failed) = RunReturn \<or> sm_pc (sm_sched demo_moves demo_failed) = RunThrow LogicError) \<and>
   prefix [demo_cb 3 True] (called OnShutdown (sm_log (sm_sched demo_moves demo_failed))) \<and>
   (\<exists>s'. run_alone demo_failed s' \<and> sm_pc s' = RunReturn \<and> sm_state s' = ReadyToStop)"
proof -
  have r: "pc_rank (sm_pc demo_failed) > 1" "sm_state demo_failed = ShuttingDown"
    "added OnShutdown (sm_log demo_failed) = [demo_cb 3 True]" "steps_left demo_failed = 21"
    by (simp_all add: demo_failed_def added_def steps_left_def)
  have "steps_left demo_failed + 3 * length (filter is_add demo_moves) \<le> length (filter (\<lambda>m. m = Run) demo_moves)"
    by (simp add: r(4) demo_moves_def is_add_def)
  with shutdown_completes[OF sm_exec_reach[OF demo_failed_exec sm_init] r(2)] r(1,3) show ?thesis by auto
qed

subsection \<open>Late calls\<close>

text \<open>
  With one call of \<^verbatim>\<open>shutdown\<close> and no failing callback, the state turns to
  \<open>ShuttingDown\<close> only when that call returns, so nothing is left to overwrite
  \<open>ReadyToStop\<close>.
\<close>

definition no_failure :: "StateManager \<Rightarrow> bool" where
  "no_failure s \<longleftrightarrow> list_all cb_success (called OnPrepare (sm_log s)) \<and> list_all cb_success (called OnLaunch (sm_log s))"

definition one_call :: "nat \<Rightarrow> StateManager \<Rightarrow> bool" where
  "one_call n s \<longleftrightarrow>
     length (sm_calls s) \<le> n \<and>
     (sm_state s \<in> {ShuttingDown, ReadyToStop} \<longrightarrow> n = 1 \<and> sm_calls s = []) \<and>
     (sm_pc s \<in> {PrepareFail, LaunchFail} \<longrightarrow> \<not> no_failure s) \<and>
     (sm_pc s = RunFinal \<longrightarrow> sm_state s = ReadyToStop) \<and> (\<forall>e. sm_pc s \<noteq> RunThrow e)"

lemma apply_no_failure: "sm_apply m s = Some s' \<Longrightarrow> no_failure s' \<Longrightarrow> no_failure s"
proof (cases m)
  case Run
  assume "sm_apply m s = Some s'" "no_failure s'"
  then show ?thesis unfolding Run sm_apply.simps no_failure_def
    by (cases "sm_pc s") (auto simp: run_simps split: if_splits)
next
  case (Add q cb)
  assume "sm_apply m s = Some s'" "no_failure s'"
  then show ?thesis unfolding Add no_failure_def
    by (cases q) (auto simp: atPrepare_def atLaunch_def atShutdown_def split: if_splits)
next
  case (Advance i)
  assume "sm_apply m s = Some s'" "no_failure s'"
  then show ?thesis unfolding Advance no_failure_def by (auto simp: shutdown_step_def split: if_splits ShutdownPc.splits)
qed (auto simp: no_failure_def shutdown_begin_def shuttingDownSignalsHandler_def split: if_splits)

lemma run_one_call:
  assumes "place_ok s" "one_call n s" "no_failure s'" "run_step s = Some s'"
  shows "one_call n s'"
proof -
  have st: "sm_shared s" "sm_state s \<in> set (stages_at (sm_pc s))" using assms(1) by (simp_all add: place_ok_def)
  have ok: "no_failure s" using apply_no_failure[of Run] assms(3,4) by simp
  have log: "\<not> no_failure (s\<lparr>sm_log := sm_log s @ [Called q cb]\<rparr>)" if "\<not> cb_success cb" "q \<in> {OnPrepare, OnLaunch}" for q cb
    using that by (auto simp: no_failure_def)
  show ?thesis
    using st assms(2,4) ok log unfolding one_call_def
    by (cases "sm_pc s") (auto simp: run_simps no_failure_def split: if_splits)
qed


lemma advance_one_call:
  assumes "n \<le> 1" "one_call n s" "shutdown_step i s = Some s'"
  shows "one_call n s'"
proof -
  have "length (sm_calls s) \<le> 1" "i < length (sm_calls s)"
    using assms by (auto simp: one_call_def shutdown_step_def split: if_splits)
  then obtain c where c: "sm_calls s = [c]" "i = 0" by (cases "sm_calls s") auto
  with assms(2) have "n = 1" "sm_state s \<notin> {ShuttingDown, ReadyToStop}" using assms(1) by (auto simp: one_call_def)
  with c assms(2,3) show ?thesis
    by (cases c) (auto simp: one_call_def shutdown_step_def drop_call_def no_failure_def)
qed

lemma add_one_call:
  assumes "sm_apply (Add q cb) s = Some s'" "one_call n s"
  shows "one_call n s'"
proof -
  have "sm_state s' = sm_state s \<and> sm_pc s' = sm_pc s \<and> sm_calls s' = sm_calls s \<and> no_failure s' = no_failure s"
    using assms(1)
    by (cases q) (auto simp: no_failure_def atPrepare_def atLaunch_def atShutdown_def split: if_splits)
  with assms(2) show ?thesis by (simp add: one_call_def)
qed

lemma reach_one_call: "sm_reach n s \<Longrightarrow> n \<le> 1 \<Longrightarrow> no_failure s \<Longrightarrow> one_call n s"
proof (induction rule: sm_reach.induct)
  case sm_init
  show ?case by (simp add: one_call_def StateManager_new_def)
next
  case (sm_move n s m s')
  then have IH: "one_call n s" using apply_no_failure[OF sm_move.hyps(2)] by simp
  show ?case
  proof (cases m)
    case Run
    with sm_move IH show ?thesis using run_one_call[of s n s'] sm_reach_ok[OF sm_move.hyps(1)] by simp
  next
    case (Advance i)
    with sm_move IH show ?thesis using advance_one_call[of n s i s'] by simp
  next
    case (Add q cb)
    with sm_move.hyps(2) IH add_one_call show ?thesis by blast
  qed (use sm_move in auto)
next
  case (sm_call n s m s')
  then have "one_call n s" "n = 0" using apply_no_failure[OF sm_call.hyps(2)] by auto
  moreover note call_cases[OF sm_call.hyps(2,3)]
  ultimately show ?case by (auto simp: one_call_def shutdown_begin_def no_failure_def)
qed

text \<open>Two calls while the application works; one call while a prepare callback fails.\<close>

definition race_schedule :: "Move list" where
  "race_schedule =
     replicate 8 Run @ [Request, Request, Advance 0, Advance 0, Advance 1, Advance 1, Advance 1] @ replicate 4 Run
     @ [Advance 0, Run]"

definition failure_schedule :: "Move list" where
  "failure_schedule = [Add OnPrepare (demo_cb 1 False), Request, Advance 0, Advance 0] @ replicate 14 Run @ [Advance 0, Run]"

definition race_end :: "AppEvent list \<Rightarrow> StateManager" where
  "race_end log =
     \<lparr>sm_state = ShuttingDown, sm_prepare = [], sm_launch = [], sm_shutdown = [], sm_shared = True, sm_signals_enabled = False,
      sm_pc = RunThrow LogicError, sm_calls = [], sm_log = log\<rparr>"

lemma race_exec: "sm_exec race_schedule (StateManager_new True) = Some (race_end [])"
  by code_simp

lemma failure_exec:
  "sm_exec failure_schedule (StateManager_new True) =
     Some (race_end [Added OnPrepare (demo_cb 1 False), Called OnPrepare (demo_cb 1 False)])"
  by code_simp

text \<open>
  C31. \<^verbatim>\<open>run\<close> does not always end well.  With at most one call of
  \<^verbatim>\<open>shutdown\<close> and no failing callback it never throws.  But \<^verbatim>\<open>shutdown\<close>
  reads the state before it takes the lock and stores \<open>ShuttingDown\<close> without looking again:
  a second call, or a single call while a callback fails, can store over \<open>ReadyToStop\<close> after
  the shutdown is done, and \<^verbatim>\<open>run\<close> then throws \<^verbatim>\<open>std::logic_error\<close>.
\<close>

theorem late_shutdown_throws:
  "(\<forall>n s e. sm_reach n s \<and> n \<le> 1 \<and> no_failure s \<longrightarrow> sm_pc s \<noteq> RunThrow e) \<and>
   (\<exists>s. sm_reach 2 s \<and> no_failure s \<and> sm_pc s = RunThrow LogicError) \<and>
   (\<exists>s. sm_reach 1 s \<and> sm_pc s = RunThrow LogicError)"
proof (intro conjI)
  show "\<forall>n s e. sm_reach n s \<and> n \<le> 1 \<and> no_failure s \<longrightarrow> sm_pc s \<noteq> RunThrow e"
    using reach_one_call unfolding one_call_def by blast
  have "sm_reach 2 (race_end [])"
    using sm_exec_reach[OF race_exec sm_init] by (simp add: race_schedule_def is_call_def numeral_2_eq_2)
  then show "\<exists>s. sm_reach 2 s \<and> no_failure s \<and> sm_pc s = RunThrow LogicError"
    by (intro exI[of _ "race_end []"]) (simp add: race_end_def no_failure_def)
  have "sm_reach 1 (race_end [Added OnPrepare (demo_cb 1 False), Called OnPrepare (demo_cb 1 False)])"
    using sm_exec_reach[OF failure_exec sm_init] by (simp add: failure_schedule_def is_call_def)
  then show "\<exists>s. sm_reach 1 s \<and> sm_pc s = RunThrow LogicError"
    by (intro exI[of _ "race_end [Added OnPrepare (demo_cb 1 False), Called OnPrepare (demo_cb 1 False)]"])
       (simp add: race_end_def)
qed

theorem late_shutdown_throws_witness:
  "sm_pc demo_end \<noteq> RunThrow LogicError \<and> (\<exists>s. sm_reach 2 s \<and> sm_pc s = RunThrow LogicError)"
proof
  have "sm_reach 1 demo_end"
    using sm_exec_reach[OF demo_exec sm_init] by (simp add: demo_schedule_def is_call_def)
  moreover have "no_failure demo_end" by (simp add: no_failure_def demo_end_def demo_cb_def called_def)
  ultimately show "sm_pc demo_end \<noteq> RunThrow LogicError" using late_shutdown_throws by (meson order_refl)
  show "\<exists>s. sm_reach 2 s \<and> sm_pc s = RunThrow LogicError" using late_shutdown_throws by blast
qed

end
