(* ===== verification/Spec2Isabelle.thy ===== *)
theory Spec2Isabelle
  imports Chains LruCache TreeSync GhostHead AttestationPools TickProgress SyncCaches PeerStates Enr ReqResp AppState
begin

text \<open>
  A verification development of qlean-mini, a consensus client for Lean Ethereum written in
  C++.  Paths below are relative to \<^verbatim>\<open>src/src\<close>.

  \<^bold>\<open>The program.\<close>  A node keeps a tree of blocks.  The state transition function computes
  the state after a block and, by counting votes, justifies and finalizes checkpoints.  The
  block tree holds the blocks that are not finalized, in memory and in a key-value storage.
  The fork choice store owns the tree and the votes, chooses the head, imports blocks and,
  driven by a clock tick, proposes blocks, votes and aggregates signatures.  The network module
  receives blocks and votes, caches what does not connect to the tree yet, asks peers for
  missing ancestors, and dials peers.  Peers talk over streams in framed and compressed
  messages and find each other by signed node records.  The state manager runs the life cycle
  of the whole.

  \<^bold>\<open>Conventions\<close> (\<open>Prelude\<close>, \<open>Storage\<close>).  \<^verbatim>\<open>outcome::result\<close> is a sum whose left
  side is an error: an error code of the sources, or \<open>Exn\<close> for what ends a call without a code,
  such as an exception, a failed assertion, undefined behaviour or \<^verbatim>\<open>SL_FATAL\<close>.
  Stateful code is an action: a function from the state to the outcome and the state it
  leaves, also when it fails; \<open>TRY\<close> is \<^verbatim>\<open>BOOST_OUTCOME_TRY\<close>.  An
  unsigned 64-bit number is a natural number with the wrap-around written out where it can
  happen, a byte is an \<open>8 word\<close>, a hash a natural number, an unordered map an association list
  with distinct keys.  Log lines and metrics are left out.

  \<^bold>\<open>Theories and sources.\<close>
  \<^item> \<open>ChainTypes\<close>: the containers of \<^verbatim>\<open>types/\<close>, \<^verbatim>\<open>slot.hpp\<close> and
    \<^verbatim>\<open>is_proposer.hpp\<close>.  SSZ hashing and coding is the parameter \<open>ssz\<close>.
  \<^item> \<open>JustifiableSlot\<close>: \<^verbatim>\<open>is_justifiable_slot.hpp\<close>, with its double precision
    arithmetic; it agrees with the integer definition below \<open>2 ^ 50\<close>.
  \<^item> \<open>StateTransition\<close>, \<open>Chains\<close>: \<^verbatim>\<open>state_transition_function.cpp\<close>.  Along every
    chain from genesis the states are well formed, justification and finalization need two
    thirds of the votes, two justifications share a third of the validators, finality is
    never undone, and the only exceptional ending is an assertion that a stale source reaches.
  \<^item> \<open>LruCache\<close>: \<^verbatim>\<open>utils/lru_cache.hpp\<close>, which for insertions of keys that are not
    cached refines a bounded map ordered by recency (locale \<open>memo_cache\<close>).
  \<^item> \<open>CachedTree\<close>, \<open>TreePaths\<close>, \<open>TreeOps\<close>, \<open>TreeReach\<close>: \<^verbatim>\<open>cached_tree.cpp\<close>, the
    invariant of the tree, what its walks compute and what each operation does to it.
  \<^item> \<open>Storage\<close>, \<open>BlockStorage\<close>: \<^verbatim>\<open>storage/in_memory\<close>,
    \<^verbatim>\<open>block_storage_impl.cpp\<close>, \<^verbatim>\<open>storage_util\<close> and the anchor initializer,
    over any storage with the laws of the locale \<open>spaced_storage\<close>.
  \<^item> \<open>BlockTree\<close>, \<open>TreeInit\<close>, \<open>TreeSync\<close>: \<^verbatim>\<open>block_tree_impl.cpp\<close> and
    \<^verbatim>\<open>block_tree_initializer.cpp\<close>; adding and finalizing blocks keeps tree and storage
    in step.
  \<^item> \<open>ForkChoice\<close>, \<open>ForkTick\<close>: \<^verbatim>\<open>fork_choice.cpp\<close>.  \<open>GhostHead\<close> shows that the head is
    the one LMD-GHOST defines, \<open>StoreInvariants\<close> and \<open>AttestationPools\<close> that the pools of votes
    and signatures stay consistent (locale \<open>store_invariant\<close>), \<open>BlockImport\<close> what guards the
    import of a block, \<open>TickProgress\<close> that the clock of the store advances and that proposed
    blocks are valid.  \<open>ForkDemo\<close> is a small store for the examples.
  \<^item> \<open>BlockSync\<close>, \<open>SyncCaches\<close>: the caches and handlers of
    \<^verbatim>\<open>modules/networking/networking.cpp\<close>.  The caches stay consistent under every
    sequence of messages, and consuming a cached block removes exactly its cached
    descendants (locale \<open>block_consumer\<close>, interpreted for importing and for forgetting).
  \<^item> \<open>PeerStates\<close>: connection states and dialling in the same file; which peers the timer
    dials, and how many.
  \<^item> \<open>Rlp\<close>, \<open>Enr\<close>: \<^verbatim>\<open>serde/enr.cpp\<close>; node records round trip, and decoding is safe
    on any input.
  \<^item> \<open>Snappy\<close>, \<open>ReqResp\<close>: \<^verbatim>\<open>serde/snappy.hpp\<close>, \<^verbatim>\<open>ssz_snappy.hpp\<close>, and the
    block request and status protocols; messages round trip over streams, and the two sides
    of a protocol are composed.
  \<^item> \<open>AppState\<close>: \<^verbatim>\<open>app/impl/state_manager_impl.cpp\<close> as a machine that interleaves
    \<^verbatim>\<open>run\<close> with concurrent calls of \<^verbatim>\<open>shutdown\<close>; the stages keep their order,
    and a requested shutdown completes under every schedule that lets \<^verbatim>\<open>run\<close> step.

  \<^bold>\<open>Fuel.\<close>  A loop without a bound in the code takes fuel, and \<open>Exn Diverges\<close> is its end
  without fuel.  Enough fuel is proved for the walks of the cached tree on every reachable
  tree, for \<open>bisect_slot\<close> (64 rounds), for \<open>climb_vote\<close> and \<open>ghost_walk\<close> (from the number of
  tree nodes), for \<open>consume_queue\<close> and, when no cached blocks are ancestors
  of each other in a cycle, for \<open>find_missing\<close> (the size of the cache), and for \<open>rlp_pairs\<close> (the
  length of the input).  The walks through stored headers in \<open>BlockTree\<close> and
  \<open>TreeInit\<close> depend on the stored data and carry their fuel as an argument; for \<open>fork_walk\<close> it is
  proved that no fuel is enough.  The loops of \<open>Snappy\<close> and of the LRU cache terminate by
  their measure.

  \<^bold>\<open>Parameters.\<close>  SSZ, the signature scheme, base64, Keccak, Snappy, CRC, variable
  length integers and the streams of libp2p are outside the sources.  They are fields of
  records that the definitions take; a theorem that relies on them says so in its
  hypotheses, and its witness instantiates them.

  \<^bold>\<open>Not modelled.\<close> RocksDB, JSON, YAML, the command line and
  configuration files, HTTP client and server, metrics and logging are wrappers of libraries
  without a state of the program.  The hash functions are reference implementations taken
  over from elsewhere and the signatures foreign libraries; the modelled code takes both as
  parameters.  The gossip transport and the set-up of the network module create and connect
  libp2p objects.  The subscription engine, the timers and the dependency injection only
  decide on which thread and when the modelled handlers run; except for
  \<open>AppState\<close> the model is sequential, as every modelled component is used under
  its own lock or on one thread.  Callbacks of the state manager that throw are not modelled.
  The capacity limits of
  \<^verbatim>\<open>ssz::list\<close> belong to the SSZ library.
\<close>

end
